(* ===== verification/Prelude.thy ===== *)
theory Prelude
  imports Main "HOL-Library.Word" "HOL-Library.Code_Target_Nat"
begin

text \<open>
  Shared vocabulary of the development: the machine types of the Rust code, the
  big-endian integer encodings of the standard library (\<open>to_be_bytes\<close>,
  \<open>from_be_bytes\<close>), Rust's checked and saturating arithmetic, byte-string literals, and
  the generic lemmas on slices of concatenations that every wire format proof uses.
  The collection \<open>bytes_simps\<close> gathers the length and slicing facts.
\<close>

unbundle bit_operations_syntax

named_theorems bytes_simps \<open>lengths and slices of encoded byte strings\<close>

section \<open>Machine types\<close>

type_synonym u8 = "8 word"
type_synonym u32 = "32 word"
type_synonym u64 = "64 word"
type_synonym u128 = "128 word"
type_synonym bytes = "8 word list"

text \<open>A Rust byte-string literal \<open>b"..."\<close> (all of them are ASCII in the sources).\<close>

definition ascii :: "string \<Rightarrow> bytes" where
  "ascii s = map of_char s"

text \<open>For evaluation: the code points as integers, one conversion to a byte each.\<close>

lemma ascii_code [code]: "ascii s = map (\<lambda>c. word_of_int (of_char c)) s"
  by (simp add: ascii_def of_int_of_char)

lemma length_ascii [simp, bytes_simps]: "length (ascii s) = length s"
  by (simp add: ascii_def)

section \<open>Big-endian encodings\<close>

text \<open>
  The \<open>n\<close> bytes of a number, most significant first, and the number a byte string
  spells. Both are total; the fixed-width encodings below use them at the width of the type.
\<close>

fun be_encode :: "nat \<Rightarrow> nat \<Rightarrow> bytes" where
  "be_encode 0 x = []"
| "be_encode (Suc n) x = word_of_nat (x div 256 ^ n) # be_encode n x"

definition be_decode :: "bytes \<Rightarrow> nat" where
  "be_decode bs = foldl (\<lambda>a b. a * 256 + unat b) 0 bs"

lemma length_be_encode [simp, bytes_simps]: "length (be_encode n x) = n"
  by (induction n) auto

lemma foldl_be: "foldl (\<lambda>a b. a * 256 + unat b) a (bs :: bytes) = a * 256 ^ length bs + be_decode bs"
proof (induction bs arbitrary: a)
  case Nil
  then show ?case by (simp add: be_decode_def)
next
  case (Cons b bs)
  have "be_decode (b # bs) = unat b * 256 ^ length bs + be_decode bs"
    using Cons [of "unat b"] by (simp add: be_decode_def)
  with Cons [of "a * 256 + unat b"] show ?case
    by (simp add: algebra_simps)
qed

lemma be_decode_Nil [simp]: "be_decode [] = 0"
  by (simp add: be_decode_def)

lemma be_decode_Cons [simp]: "be_decode (b # bs) = unat b * 256 ^ length bs + be_decode bs"
  using foldl_be [of "unat b" bs] by (simp add: be_decode_def)

lemma unat_u8_lt: "unat (b :: u8) < 256"
  using unsigned_less [of b] by simp

lemma be_decode_bound: "be_decode bs < 256 ^ length bs"
proof (induction bs)
  case Nil
  then show ?case by simp
next
  case (Cons b bs)
  have "unat b \<le> 255" using unat_u8_lt [of b] by simp
  then have "unat b * 256 ^ length bs \<le> 255 * 256 ^ length bs" by (rule mult_le_mono1)
  with Cons have "unat b * 256 ^ length bs + be_decode bs < 256 * 256 ^ length bs" by linarith
  then show ?case by simp
qed

lemma unat_of_nat_u8: "unat (word_of_nat k :: u8) = k mod 256"
  by (simp add: unat_of_nat)

lemma be_decode_encode: "be_decode (be_encode n x) = x mod 256 ^ n"
proof (induction n)
  case 0
  then show ?case by simp
next
  case (Suc n)
  have "x mod 256 ^ Suc n = x mod (256 ^ n * 256)" by (simp add: mult.commute)
  also have "\<dots> = 256 ^ n * (x div 256 ^ n mod 256) + x mod 256 ^ n"
    by (simp add: mod_mult2_eq)
  finally show ?case
    by (simp add: Suc unat_of_nat_u8 mult.commute)
qed

lemma be_encode_decode: "be_encode (length bs) (be_decode bs + k * 256 ^ length bs) = bs"
proof (induction bs arbitrary: k)
  case Nil
  then show ?case by simp
next
  case (Cons b bs)
  let ?n = "length bs"
  have lt: "be_decode bs < 256 ^ ?n" by (rule be_decode_bound)
  have eq: "be_decode (b # bs) + k * 256 ^ length (b # bs) = be_decode bs + (unat b + k * 256) * 256 ^ ?n"
    by (simp add: algebra_simps)
  have d: "(be_decode bs + (unat b + k * 256) * 256 ^ ?n) div 256 ^ ?n = unat b + k * 256"
    using lt by simp
  have w: "(word_of_nat (unat b + k * 256) :: u8) = b"
  proof -
    have "unat (word_of_nat (unat b + k * 256) :: u8) = unat b"
      using unat_u8_lt [of b] by (simp add: unat_of_nat_u8 del: of_nat_add of_nat_mult)
    then show ?thesis by (rule word_unat_eq_iff [THEN iffD2])
  qed
  show ?case
    by (subst eq) (simp only: length_Cons be_encode.simps d w Cons.IH)
qed


text \<open>
  The interface every parser reads integers through: an encoding of fixed width with its
  inverse. Clients read a field at the front of, or at an offset in, a larger buffer.
\<close>

locale be_codec =
  fixes enc :: "'a \<Rightarrow> bytes" and dec :: "bytes \<Rightarrow> 'a" and width :: nat
  assumes enc_length: "length (enc x) = width"
    and dec_enc: "dec (enc x) = x"
    and enc_dec: "length bs = width \<Longrightarrow> enc (dec bs) = bs"
begin

lemma enc_inject: "enc x = enc y \<longleftrightarrow> x = y"
  by (metis dec_enc)

lemma enc_append_inject: "enc x @ r = enc y @ s \<longleftrightarrow> x = y \<and> r = s"
  using enc_length append_eq_append_conv [of "enc x" "enc y" r s] by (auto simp: enc_inject)

lemma read_front: "dec (take width (enc x @ r)) = x"
  by (simp add: enc_length dec_enc)

lemma read_at: "length p = k \<Longrightarrow> dec (take width (drop k (p @ enc x @ r))) = x"
  by (simp add: enc_length dec_enc)

lemma write_back: "k + width \<le> length bs \<Longrightarrow> enc (dec (take width (drop k bs))) = take width (drop k bs)"
  by (rule enc_dec) simp

end

definition u32_to_be :: "u32 \<Rightarrow> bytes" where "u32_to_be x = be_encode 4 (unat x)"
definition u32_from_be :: "bytes \<Rightarrow> u32" where "u32_from_be bs = word_of_nat (be_decode bs)"
definition u64_to_be :: "u64 \<Rightarrow> bytes" where "u64_to_be x = be_encode 8 (unat x)"
definition u64_from_be :: "bytes \<Rightarrow> u64" where "u64_from_be bs = word_of_nat (be_decode bs)"
definition u128_to_be :: "u128 \<Rightarrow> bytes" where "u128_to_be x = be_encode 16 (unat x)"
definition u128_from_be :: "bytes \<Rightarrow> u128" where "u128_from_be bs = word_of_nat (be_decode bs)"

lemma length_to_be [simp, bytes_simps]:
  "length (u32_to_be x) = 4" "length (u64_to_be y) = 8" "length (u128_to_be z) = 16"
  by (simp_all add: u32_to_be_def u64_to_be_def u128_to_be_def)

lemma be_word_roundtrip:
  fixes x :: "'a::len word"
  assumes "256 ^ n = (2::nat) ^ LENGTH('a)"
  shows "(word_of_nat (be_decode (be_encode n (unat x))) :: 'a word) = x"
  by (simp add: be_decode_encode assms unat_of_nat)

lemma be_bytes_roundtrip:
  assumes "256 ^ n = (2::nat) ^ LENGTH('a::len)" and "length bs = n"
  shows "be_encode n (unat (word_of_nat (be_decode bs) :: 'a word)) = bs"
proof -
  have "be_decode bs < 2 ^ LENGTH('a)"
    using be_decode_bound [of bs] assms by simp
  then have "unat (word_of_nat (be_decode bs) :: 'a word) = be_decode bs"
    by (simp add: unat_of_nat)
  with be_encode_decode [of bs 0] assms(2) show ?thesis by simp
qed

interpretation u32_be: be_codec u32_to_be u32_from_be 4
  by unfold_locales (simp_all add: u32_to_be_def u32_from_be_def be_word_roundtrip be_bytes_roundtrip)

interpretation u64_be: be_codec u64_to_be u64_from_be 8
  by unfold_locales (simp_all add: u64_to_be_def u64_from_be_def be_word_roundtrip be_bytes_roundtrip)

interpretation u128_be: be_codec u128_to_be u128_from_be 16
  by unfold_locales (simp_all add: u128_to_be_def u128_from_be_def be_word_roundtrip be_bytes_roundtrip)

lemmas be_roundtrip [simp] = u32_be.dec_enc u64_be.dec_enc u128_be.dec_enc
lemmas be_writeback = u32_be.enc_dec u64_be.enc_dec u128_be.enc_dec
lemmas be_inject = u32_be.enc_append_inject u64_be.enc_append_inject u128_be.enc_append_inject
  u32_be.enc_inject u64_be.enc_inject u128_be.enc_inject

section \<open>Rust integer arithmetic\<close>

definition checked_add :: "'a::len word \<Rightarrow> 'a word \<Rightarrow> 'a word option" where
  "checked_add a b = (if unat a + unat b < 2 ^ LENGTH('a) then Some (a + b) else None)"

definition saturating_add :: "'a::len word \<Rightarrow> 'a word \<Rightarrow> 'a word" where
  "saturating_add a b = (if unat a + unat b < 2 ^ LENGTH('a) then a + b else - 1)"

definition abs_diff :: "'a::len word \<Rightarrow> 'a word \<Rightarrow> 'a word" where
  "abs_diff a b = (if a < b then b - a else a - b)"

text \<open>
  \<open>usize\<close> is 64 bits wide; lengths and offsets are naturals and its checked operations
  compare against the width. \<open>u32_try_from\<close> is \<open>u32::try_from\<close> of a length.
\<close>

definition usize_checked_add :: "nat \<Rightarrow> nat \<Rightarrow> nat option" where
  "usize_checked_add a b = (if a + b < 2 ^ 64 then Some (a + b) else None)"

definition usize_checked_mul :: "nat \<Rightarrow> nat \<Rightarrow> nat option" where
  "usize_checked_mul a b = (if a * b < 2 ^ 64 then Some (a * b) else None)"

definition u32_try_from :: "nat \<Rightarrow> u32 option" where
  "u32_try_from n = (if n < 2 ^ 32 then Some (word_of_nat n) else None)"

lemma checked_add_1_None: "checked_add a 1 = None \<longleftrightarrow> a = - (1 :: 'a::len word)"
proof -
  have iff: "a = - 1 \<longleftrightarrow> unat a = 2 ^ LENGTH('a) - 1"
    by (simp add: word_unat_eq_iff unsigned_minus_1_eq_mask mask_eq_exp_minus_1)
  have lt: "unat a < 2 ^ LENGTH('a)" by (rule unsigned_less)
  have "unat a + 1 < 2 ^ LENGTH('a) \<longleftrightarrow> a \<noteq> - 1"
  proof (cases "a = - 1")
    case True
    then have "unat a = 2 ^ LENGTH('a) - 1" using iff by blast
    with True lt show ?thesis by linarith
  next
    case False
    then have "unat a \<noteq> 2 ^ LENGTH('a) - 1" using iff by blast
    with False lt show ?thesis by linarith
  qed
  then show ?thesis by (simp add: checked_add_def unat_1)
qed

lemma checked_add_1_Some: "checked_add a 1 = Some b \<longleftrightarrow> a \<noteq> - 1 \<and> b = a + (1 :: 'a::len word)"
  using checked_add_1_None [of a] by (auto simp: checked_add_def split: if_splits)

lemma unat_Suc: "a \<noteq> - 1 \<Longrightarrow> unat (a + 1 :: 'a::len word) = Suc (unat a)"
  using checked_add_1_None [of a] by (auto simp: checked_add_def unat_word_ariths unat_1 split: if_splits)

lemma word_Suc_neq: "a \<noteq> - 1 \<Longrightarrow> a + 1 \<noteq> (a :: 'a::len word)"
  using unat_Suc [of a] by auto

end
