(* ===== verification/Errors.thy ===== *)
theory Errors
  imports Prelude
begin

text \<open>
  \<open>src/error.rs\<close>: the error enum of the crate and its C-ABI codes; and the result type of the
  model. A Rust function of type \<open>Result<T, Error>\<close> has three ways to end: a value, an
  \<open>Err\<close>, or a panic (a slice or index out of range, an \<open>unwrap\<close> of a failure, a checked
  overflow). The type \<open>outcome\<close> keeps the three apart, so that ``never panics'' is a statement
  about the model, and the FFI layer can map a panic to its code as \<open>catch_unwind\<close> does.
\<close>

datatype error =
    Base64 string
  | PaqueteCorrupto
  | VersionNoSoportada u8
  | Autenticacion
  | Utf8
  | Cifrado
  | SemillaInvalida
  | EnlaceInvalido
  | ModoInvalido
  | Repetido
  | FueraDeOrden
  | EstadoSinReanudar
  | TiempoExpiradoOInvalido
  | AadDemasiadoLargo
  | IntegridadContextoCorrupta
  | FfiParametroInvalido
  | Io string

fun to_ffi_code :: "error \<Rightarrow> int" where
  "to_ffi_code (Base64 _) = -1"
| "to_ffi_code PaqueteCorrupto = -2"
| "to_ffi_code (VersionNoSoportada _) = -3"
| "to_ffi_code Autenticacion = -4"
| "to_ffi_code Utf8 = -5"
| "to_ffi_code Cifrado = -6"
| "to_ffi_code SemillaInvalida = -7"
| "to_ffi_code EnlaceInvalido = -8"
| "to_ffi_code ModoInvalido = -9"
| "to_ffi_code Repetido = -10"
| "to_ffi_code FueraDeOrden = -11"
| "to_ffi_code EstadoSinReanudar = -12"
| "to_ffi_code TiempoExpiradoOInvalido = -13"
| "to_ffi_code AadDemasiadoLargo = -14"
| "to_ffi_code IntegridadContextoCorrupta = -15"
| "to_ffi_code FfiParametroInvalido = -16"
| "to_ffi_code (Io _) = -17"

lemma to_ffi_code_range: "- 17 \<le> to_ffi_code e \<and> to_ffi_code e \<le> - 1"
  by (cases e) auto

text \<open>Two errors share a code only when they are the same variant.\<close>

fun variant_eq :: "error \<Rightarrow> error \<Rightarrow> bool" where
  "variant_eq (Base64 _) (Base64 _) = True"
| "variant_eq (VersionNoSoportada _) (VersionNoSoportada _) = True"
| "variant_eq (Io _) (Io _) = True"
| "variant_eq a b = (a = b)"

lemma to_ffi_code_variant: "to_ffi_code a = to_ffi_code b \<longleftrightarrow> variant_eq a b"
  by (cases a; cases b) auto

section \<open>Outcomes\<close>

datatype 'a outcome = Ok 'a | Err error | Panic

primrec bindO :: "'a outcome \<Rightarrow> ('a \<Rightarrow> 'b outcome) \<Rightarrow> 'b outcome" where
  "bindO (Ok x) f = f x"
| "bindO (Err e) f = Err e"
| "bindO Panic f = Panic"

primrec is_ok :: "'a outcome \<Rightarrow> bool" where
  "is_ok (Ok x) = True"
| "is_ok (Err e) = False"
| "is_ok Panic = False"

primrec ok_or :: "error \<Rightarrow> 'a option \<Rightarrow> 'a outcome" where
  "ok_or e None = Err e"
| "ok_or e (Some x) = Ok x"

text \<open>\<open>r.map_err(|_| e)\<close>\<close>

primrec map_err_to :: "error \<Rightarrow> 'a outcome \<Rightarrow> 'a outcome" where
  "map_err_to e (Ok x) = Ok x"
| "map_err_to e (Err e') = Err e"
| "map_err_to e Panic = Panic"

lemma bindO_Ok_iff: "bindO m f = Ok y \<longleftrightarrow> (\<exists>x. m = Ok x \<and> f x = Ok y)"
  by (cases m) auto

lemma bindO_Err_iff: "bindO m f = Err e \<longleftrightarrow> m = Err e \<or> (\<exists>x. m = Ok x \<and> f x = Err e)"
  by (cases m) auto

lemma bindO_Panic_iff: "bindO m f = Panic \<longleftrightarrow> m = Panic \<or> (\<exists>x. m = Ok x \<and> f x = Panic)"
  by (cases m) auto

lemma ok_or_iff [simp]:
  "ok_or e x = Ok y \<longleftrightarrow> x = Some y"
  "ok_or e x = Err e' \<longleftrightarrow> x = None \<and> e' = e"
  "ok_or e x \<noteq> Panic"
  by (cases x; auto)+

lemmas bindO_iff = bindO_Ok_iff bindO_Err_iff bindO_Panic_iff

lemma bindO_cong [fundef_cong]: "m = m' \<Longrightarrow> (\<And>x. m' = Ok x \<Longrightarrow> f x = f' x) \<Longrightarrow> bindO m f = bindO m' f'"
  by (cases m') auto

text \<open>A sequence of steps does not panic when no step does.\<close>

lemma bindO_safe: "m \<noteq> Panic \<Longrightarrow> (\<And>x. m = Ok x \<Longrightarrow> f x \<noteq> Panic) \<Longrightarrow> bindO m f \<noteq> Panic"
  by (cases m) auto

section \<open>Indexing and slicing\<close>

text \<open>
  \<open>bytes[i]\<close>, \<open>bytes[i..j]\<close> and \<open>bytes[i..]\<close> panic outside the buffer; \<open>try_into\<close> of a slice
  into an array fails when the length differs (an error with \<open>?\<close>, a panic with \<open>unwrap\<close>).
\<close>

definition byte_at :: "bytes \<Rightarrow> nat \<Rightarrow> u8 outcome" where
  "byte_at bs i = (if i < length bs then Ok (bs ! i) else Panic)"

definition slice :: "bytes \<Rightarrow> nat \<Rightarrow> nat \<Rightarrow> bytes outcome" where
  "slice bs i j = (if i \<le> j \<and> j \<le> length bs then Ok (take (j - i) (drop i bs)) else Panic)"

definition slice_from :: "bytes \<Rightarrow> nat \<Rightarrow> bytes outcome" where
  "slice_from bs i = (if i \<le> length bs then Ok (drop i bs) else Panic)"

definition try_into_array :: "nat \<Rightarrow> error \<Rightarrow> bytes \<Rightarrow> bytes outcome" where
  "try_into_array n e bs = (if length bs = n then Ok bs else Err e)"

definition unwrap_array :: "nat \<Rightarrow> bytes \<Rightarrow> bytes outcome" where
  "unwrap_array n bs = (if length bs = n then Ok bs else Panic)"

lemma byte_at_ok [simp]: "i < length bs \<Longrightarrow> byte_at bs i = Ok (bs ! i)"
  by (simp add: byte_at_def)

lemma slice_ok [simp]: "i \<le> j \<Longrightarrow> j \<le> length bs \<Longrightarrow> slice bs i j = Ok (take (j - i) (drop i bs))"
  by (simp add: slice_def)

lemma slice_from_ok [simp]: "i \<le> length bs \<Longrightarrow> slice_from bs i = Ok (drop i bs)"
  by (simp add: slice_from_def)

lemma array_ok [simp]:
  "length bs = n \<Longrightarrow> try_into_array n e bs = Ok bs"
  "length bs = n \<Longrightarrow> unwrap_array n bs = Ok bs"
  by (simp_all add: try_into_array_def unwrap_array_def)

text \<open>Reading a big-endian integer out of \<open>bytes[i..i+n]\<close>, the two ways the code does it.\<close>

definition read_u32 :: "error \<Rightarrow> bytes \<Rightarrow> nat \<Rightarrow> u32 outcome" where
  "read_u32 e bs i = bindO (slice bs i (i + 4)) (\<lambda>s. bindO (try_into_array 4 e s) (\<lambda>a. Ok (u32_from_be a)))"

definition read_u64 :: "error \<Rightarrow> bytes \<Rightarrow> nat \<Rightarrow> u64 outcome" where
  "read_u64 e bs i = bindO (slice bs i (i + 8)) (\<lambda>s. bindO (try_into_array 8 e s) (\<lambda>a. Ok (u64_from_be a)))"

definition unwrap_u32 :: "bytes \<Rightarrow> nat \<Rightarrow> u32 outcome" where
  "unwrap_u32 bs i = bindO (slice bs i (i + 4)) (\<lambda>s. bindO (unwrap_array 4 s) (\<lambda>a. Ok (u32_from_be a)))"

definition unwrap_u64 :: "bytes \<Rightarrow> nat \<Rightarrow> u64 outcome" where
  "unwrap_u64 bs i = bindO (slice bs i (i + 8)) (\<lambda>s. bindO (unwrap_array 8 s) (\<lambda>a. Ok (u64_from_be a)))"

definition unwrap_u128 :: "bytes \<Rightarrow> nat \<Rightarrow> u128 outcome" where
  "unwrap_u128 bs i = bindO (slice bs i (i + 16)) (\<lambda>s. bindO (unwrap_array 16 s) (\<lambda>a. Ok (u128_from_be a)))"

text \<open>\<open>arr.copy_from_slice(s)\<close> for an array of \<open>n\<close> bytes panics when the lengths differ.\<close>

definition copy_slice :: "nat \<Rightarrow> bytes \<Rightarrow> nat \<Rightarrow> nat \<Rightarrow> bytes outcome" where
  "copy_slice n bs i j = bindO (slice bs i j) (unwrap_array n)"

lemma read_in_range [simp]:
  "i + 4 \<le> length bs \<Longrightarrow> read_u32 e bs i = Ok (u32_from_be (take 4 (drop i bs)))"
  "i + 8 \<le> length bs \<Longrightarrow> read_u64 e bs i = Ok (u64_from_be (take 8 (drop i bs)))"
  "i + 4 \<le> length bs \<Longrightarrow> unwrap_u32 bs i = Ok (u32_from_be (take 4 (drop i bs)))"
  "i + 8 \<le> length bs \<Longrightarrow> unwrap_u64 bs i = Ok (u64_from_be (take 8 (drop i bs)))"
  "i + 16 \<le> length bs \<Longrightarrow> unwrap_u128 bs i = Ok (u128_from_be (take 16 (drop i bs)))"
  by (simp_all add: read_u32_def read_u64_def unwrap_u32_def unwrap_u64_def unwrap_u128_def)

lemma copy_slice_ok [simp]:
  "i \<le> j \<Longrightarrow> j \<le> length bs \<Longrightarrow> n = j - i \<Longrightarrow> copy_slice n bs i j = Ok (take n (drop i bs))"
  by (simp add: copy_slice_def)

text \<open>
  Comparison in constant time: the OR of the XORs of the bytes
  (\<open>constant_time_eq_32\<close>, \<open>verify_integrity_checkpoint\<close>).
\<close>

definition xor_diff :: "bytes \<Rightarrow> bytes \<Rightarrow> u8" where
  "xor_diff a b = foldl (\<lambda>d (x, y). d OR (x XOR y)) 0 (zip a b)"

lemma foldl_or_0: "foldl (\<lambda>d (x, y). d OR (x XOR y)) (d :: u8) ps = 0 \<longleftrightarrow> d = 0 \<and> (\<forall>(x, y) \<in> set ps. x = y)"
proof (induction ps arbitrary: d)
  case Nil
  then show ?case by simp
next
  case (Cons p ps)
  obtain x y where p: "p = (x, y)" by (cases p)
  have "x XOR y = 0 \<longleftrightarrow> x = y" by (auto simp: bit_eq_iff bit_xor_iff)
  with Cons show ?case by (auto simp: p or_eq_0_iff)
qed

lemma zip_all_eq: "length a = length b \<Longrightarrow> (\<forall>(x, y) \<in> set (zip a b). x = y) \<longleftrightarrow> a = b"
  by (induction a b rule: list_induct2) auto

lemma xor_diff_0_iff: "length a = length b \<Longrightarrow> xor_diff a b = 0 \<longleftrightarrow> a = b"
  by (simp add: xor_diff_def foldl_or_0 zip_all_eq)

end
