(* ===== verification/Primitives.thy ===== *)
theory Primitives
  imports Errors
begin

text \<open>
  The third-party crates of \<open>Cargo.toml\<close>: \<open>aes-gcm\<close>, \<open>hkdf\<close>, \<open>sha2\<close>, \<open>base64\<close>. None of
  their code is in the repository, so they are parameters: one record \<open>crypto\<close> that every
  definition using them takes as its first argument. What a theorem needs of them is a named
  hypothesis below; each states documented behaviour of the crate. Randomness (\<open>OsRng\<close>) is an
  explicit argument of the operation that draws it.

  \<open>toy\<close> is a concrete instance on which every hypothesis is proved, so that each theorem with such
  a hypothesis has a witness. It is no cipher and no property of the program rests on it.
\<close>

record crypto =
  aead_enc :: "bytes \<Rightarrow> bytes \<Rightarrow> bytes \<Rightarrow> bytes \<Rightarrow> bytes option"  \<comment> \<open>key, nonce, aad, msg\<close>
  aead_dec :: "bytes \<Rightarrow> bytes \<Rightarrow> bytes \<Rightarrow> bytes \<Rightarrow> bytes option"  \<comment> \<open>key, nonce, aad, ciphertext\<close>
  hkdf_extract :: "bytes \<Rightarrow> bytes \<Rightarrow> bytes"                 \<comment> \<open>salt, ikm\<close>
  hkdf_expand :: "bytes \<Rightarrow> bytes \<Rightarrow> nat \<Rightarrow> bytes"           \<comment> \<open>prk, info, length\<close>
  sha256 :: "bytes \<Rightarrow> bytes"
  b64_encode :: "bytes \<Rightarrow> string"
  b64_decode :: "string \<Rightarrow> string + bytes"                     \<comment> \<open>\<open>Inl\<close> the decoder's message\<close>

text \<open>\<open>Hkdf::new(Some(salt), ikm).expand(info, out)\<close> with \<open>out\<close> of \<open>n\<close> bytes.\<close>

definition hkdf :: "crypto \<Rightarrow> bytes \<Rightarrow> bytes \<Rightarrow> bytes \<Rightarrow> nat \<Rightarrow> bytes" where
  "hkdf C salt ikm info n = hkdf_expand C (hkdf_extract C salt ikm) info n"

section \<open>Hypotheses on the crates\<close>

text \<open>AES-GCM decrypts what it encrypted under the same key, nonce and associated data.\<close>

definition aead_roundtrip :: "crypto \<Rightarrow> bool" where
  "aead_roundtrip C \<longleftrightarrow> (\<forall>k n a m c. aead_enc C k n a m = Some c \<longrightarrow> aead_dec C k n a c = Some m)"

text \<open>The ciphertext is the message's length plus the 16 bytes of the tag.\<close>

definition aead_length :: "crypto \<Rightarrow> bool" where
  "aead_length C \<longleftrightarrow> (\<forall>k n a m c. aead_enc C k n a m = Some c \<longrightarrow> length c = length m + 16)"

text \<open>AES-GCM is deterministic: it opens only the encryption of what it returns.\<close>

definition aead_sound :: "crypto \<Rightarrow> bool" where
  "aead_sound C \<longleftrightarrow> (\<forall>k n a m c. aead_dec C k n a c = Some m \<longrightarrow> aead_enc C k n a m = Some c)"

text \<open>Output lengths of HKDF and SHA-256.\<close>

definition hash_lengths :: "crypto \<Rightarrow> bool" where
  "hash_lengths C \<longleftrightarrow> (\<forall>x. length (sha256 C x) = 32) \<and> (\<forall>s k. length (hkdf_extract C s k) = 32)
     \<and> (\<forall>p i n. length (hkdf_expand C p i n) = n)"

text \<open>The standard Base64 engine decodes what it encoded.\<close>

definition b64_roundtrip :: "crypto \<Rightarrow> bool" where
  "b64_roundtrip C \<longleftrightarrow> (\<forall>b. b64_decode C (b64_encode C b) = Inr b)"

lemma aead_roundtripD: "aead_roundtrip C \<Longrightarrow> aead_enc C k n a m = Some c \<Longrightarrow> aead_dec C k n a c = Some m"
  by (simp add: aead_roundtrip_def)

lemma aead_exact:
  "aead_sound C \<Longrightarrow> aead_roundtrip C \<Longrightarrow> aead_dec C k n a c = Some m \<longleftrightarrow> aead_enc C k n a m = Some c"
  unfolding aead_sound_def aead_roundtrip_def by blast

lemma aead_lengthD: "aead_length C \<Longrightarrow> aead_enc C k n a m = Some c \<Longrightarrow> length c = length m + 16"
  by (simp add: aead_length_def)

lemma hash_lengthsD [bytes_simps]:
  assumes "hash_lengths C"
  shows "length (sha256 C x) = 32" "length (hkdf_expand C p i n) = n" "length (hkdf_extract C s k) = 32"
    "length (hkdf C s k i n) = n"
  using assms by (auto simp: hash_lengths_def hkdf_def)

section \<open>A concrete instance for the witnesses\<close>

definition toy_sum :: "bytes \<Rightarrow> u8" where
  "toy_sum bs = word_of_nat (length bs) + (if bs = [] then 0 else last bs)"

definition toy_tag :: "bytes \<Rightarrow> bytes \<Rightarrow> bytes \<Rightarrow> bytes \<Rightarrow> bytes" where
  "toy_tag k n a m = replicate 16 (toy_sum k + 3 * toy_sum n + 5 * toy_sum a + 7 * toy_sum m)"

definition toy_enc :: "bytes \<Rightarrow> bytes \<Rightarrow> bytes \<Rightarrow> bytes \<Rightarrow> bytes option" where
  "toy_enc k n a m = Some (m @ toy_tag k n a m)"

definition toy_dec :: "bytes \<Rightarrow> bytes \<Rightarrow> bytes \<Rightarrow> bytes \<Rightarrow> bytes option" where
  "toy_dec k n a c =
     (let m = take (length c - 16) c
      in if 16 \<le> length c \<and> drop (length c - 16) c = toy_tag k n a m then Some m else None)"

text \<open>Base64 is replaced by a text of one character per byte.\<close>

definition toy_b64 :: "bytes \<Rightarrow> string" where
  "toy_b64 bs = map (\<lambda>b. char_of (unat b)) bs"

definition toy_unb64 :: "string \<Rightarrow> string + bytes" where
  "toy_unb64 s = Inr (map (\<lambda>c. word_of_nat (of_char c)) s)"

definition toy :: crypto where
  "toy = \<lparr>aead_enc = toy_enc, aead_dec = toy_dec,
     hkdf_extract = (\<lambda>s k. replicate 32 (toy_sum (s @ k))),
     hkdf_expand = (\<lambda>p i n. replicate n (toy_sum (p @ i))),
     sha256 = (\<lambda>x. replicate 32 (toy_sum x)),
     b64_encode = toy_b64, b64_decode = toy_unb64\<rparr>"

lemma length_toy_tag [simp]: "length (toy_tag k n a m) = 16"
  by (simp add: toy_tag_def)

lemma toy_aead_roundtrip [simp]: "aead_roundtrip toy"
  by (auto simp: aead_roundtrip_def toy_def toy_enc_def toy_dec_def Let_def)

lemma toy_aead_length [simp]: "aead_length toy"
  by (auto simp: aead_length_def toy_def toy_enc_def)

lemma toy_aead_sound [simp]: "aead_sound toy"
  by (auto simp: aead_sound_def toy_def toy_enc_def toy_dec_def Let_def split: if_splits)
    (metis append_take_drop_id)

lemma toy_hash_lengths [simp]: "hash_lengths toy"
  by (simp add: hash_lengths_def toy_def)

lemma toy_b64_roundtrip [simp]: "b64_roundtrip toy"
proof -
  have "word_of_nat (of_char (char_of (unat b) :: char)) = b" for b :: u8
    using unat_u8_lt [of b] by (simp add: unat_of_nat)
  then show ?thesis
    by (simp add: b64_roundtrip_def toy_def toy_b64_def toy_unb64_def o_def)
qed

lemmas toy_simps = toy_def toy_enc_def toy_dec_def toy_tag_def toy_sum_def toy_b64_def toy_unb64_def hkdf_def

end
