(* ===== verification/Packet.thy ===== *)
theory Packet
  imports Primitives
begin

text \<open>
  \<open>src/packet.rs\<close>: the packet record, its three wire layouts (v1, v2, v3), the Base64 transport
  and the associated data that the channels authenticate. The lemmas give the two directions of
  the codec (what is written is read back; what is read is exactly what was written), that the
  parser never panics, and that the associated data determines the fields it authenticates.
\<close>

record packet =
  p_version :: u8
  p_flags :: u8
  p_node_id :: u32
  p_epoch :: u64
  p_sequence :: u64
  p_timestamp_ms :: u64
  p_nonce :: bytes
  p_ciphertext :: bytes

definition WIRE_VERSION_V3 :: u8 where "WIRE_VERSION_V3 = 3"
definition WIRE_VERSION_V2 :: u8 where "WIRE_VERSION_V2 = 2"
definition WIRE_VERSION_V1 :: u8 where "WIRE_VERSION_V1 = 1"
definition FLAG_AAD_PRESENT :: u8 where "FLAG_AAD_PRESENT = 0x01"
definition NONCE_LEN :: nat where "NONCE_LEN = 12"
definition TAG_LEN :: nat where "TAG_LEN = 16"
definition V3_HEADER_LEN :: nat where "V3_HEADER_LEN = 1 + 1 + 4 + 8 + 8 + 8 + NONCE_LEN"
definition V2_HEADER_LEN :: nat where "V2_HEADER_LEN = 1 + 1 + 8 + NONCE_LEN"
definition V1_HEADER_LEN :: nat where "V1_HEADER_LEN = 1 + 8 + NONCE_LEN"

lemmas wire_consts [simp] = WIRE_VERSION_V3_def WIRE_VERSION_V2_def WIRE_VERSION_V1_def
  FLAG_AAD_PRESENT_def NONCE_LEN_def TAG_LEN_def V3_HEADER_LEN_def V2_HEADER_LEN_def V1_HEADER_LEN_def

section \<open>The wire codec\<close>

definition to_bytes :: "packet \<Rightarrow> bytes" where
  "to_bytes p =
     (if p_version p = WIRE_VERSION_V1 then
        [WIRE_VERSION_V1] @ u64_to_be (p_sequence p) @ p_nonce p @ p_ciphertext p
      else if p_version p = WIRE_VERSION_V3 then
        [WIRE_VERSION_V3] @ [p_flags p] @ u32_to_be (p_node_id p) @ u64_to_be (p_epoch p)
          @ u64_to_be (p_sequence p) @ u64_to_be (p_timestamp_ms p) @ p_nonce p @ p_ciphertext p
      else
        [p_version p] @ [p_flags p] @ u64_to_be (p_sequence p) @ p_nonce p @ p_ciphertext p)"

definition from_bytes :: "bytes \<Rightarrow> packet outcome" where
  "from_bytes bs =
     (if length bs < V1_HEADER_LEN + TAG_LEN then Err PaqueteCorrupto
      else bindO (byte_at bs 0) (\<lambda>version.
        if version = WIRE_VERSION_V3 then
          (if length bs < V3_HEADER_LEN + TAG_LEN then Err PaqueteCorrupto
           else bindO (byte_at bs 1) (\<lambda>flags.
             bindO (read_u32 PaqueteCorrupto bs 2) (\<lambda>node_id.
             bindO (read_u64 PaqueteCorrupto bs 6) (\<lambda>epoch.
             bindO (read_u64 PaqueteCorrupto bs 14) (\<lambda>sequence.
             bindO (read_u64 PaqueteCorrupto bs 22) (\<lambda>timestamp_ms.
             bindO (copy_slice NONCE_LEN bs 30 V3_HEADER_LEN) (\<lambda>nonce.
             bindO (slice_from bs V3_HEADER_LEN) (\<lambda>ciphertext.
             Ok \<lparr>p_version = version, p_flags = flags, p_node_id = node_id, p_epoch = epoch,
                 p_sequence = sequence, p_timestamp_ms = timestamp_ms, p_nonce = nonce,
                 p_ciphertext = ciphertext\<rparr>))))))))
        else if version = WIRE_VERSION_V2 then
          (if length bs < V2_HEADER_LEN + TAG_LEN then Err PaqueteCorrupto
           else bindO (byte_at bs 1) (\<lambda>flags.
             bindO (read_u64 PaqueteCorrupto bs 2) (\<lambda>sequence.
             bindO (copy_slice NONCE_LEN bs 10 V2_HEADER_LEN) (\<lambda>nonce.
             bindO (slice_from bs V2_HEADER_LEN) (\<lambda>ciphertext.
             Ok \<lparr>p_version = version, p_flags = flags, p_node_id = 0, p_epoch = 0,
                 p_sequence = sequence, p_timestamp_ms = 0, p_nonce = nonce,
                 p_ciphertext = ciphertext\<rparr>)))))
        else if version = WIRE_VERSION_V1 then
          (if length bs < V1_HEADER_LEN + TAG_LEN then Err PaqueteCorrupto
           else bindO (read_u64 PaqueteCorrupto bs 1) (\<lambda>sequence.
             bindO (copy_slice NONCE_LEN bs 9 V1_HEADER_LEN) (\<lambda>nonce.
             bindO (slice_from bs V1_HEADER_LEN) (\<lambda>ciphertext.
             Ok \<lparr>p_version = version, p_flags = 0, p_node_id = 0, p_epoch = 0,
                 p_sequence = sequence, p_timestamp_ms = 0, p_nonce = nonce,
                 p_ciphertext = ciphertext\<rparr>))))
        else Err (VersionNoSoportada version)))"

definition to_base64 :: "crypto \<Rightarrow> packet \<Rightarrow> string" where
  "to_base64 C p = b64_encode C (to_bytes p)"

definition from_base64 :: "crypto \<Rightarrow> string \<Rightarrow> packet outcome" where
  "from_base64 C s = (case b64_decode C s of Inl e \<Rightarrow> Err (Base64 e) | Inr bs \<Rightarrow> from_bytes bs)"

section \<open>Internal associated data\<close>

definition build_internal_aad_v2_with_epoch :: "u8 \<Rightarrow> u64 \<Rightarrow> bytes \<Rightarrow> u64 \<Rightarrow> bytes outcome" where
  "build_internal_aad_v2_with_epoch flags sequence user_aad epoch =
     bindO (ok_or AadDemasiadoLargo (u32_try_from (length user_aad))) (\<lambda>aad_len_u32.
     Ok ([WIRE_VERSION_V2] @ [flags] @ u64_to_be sequence
       @ (if epoch \<noteq> 0 then ascii ''epoch'' @ u64_to_be epoch else [])
       @ (if flags AND FLAG_AAD_PRESENT \<noteq> 0 then u32_to_be aad_len_u32 @ user_aad else [])))"

definition build_internal_aad_v2 :: "u8 \<Rightarrow> u64 \<Rightarrow> bytes \<Rightarrow> bytes outcome" where
  "build_internal_aad_v2 flags sequence user_aad =
     build_internal_aad_v2_with_epoch flags sequence user_aad 0"

definition build_internal_aad_v3 ::
    "u8 \<Rightarrow> u32 \<Rightarrow> u64 \<Rightarrow> u64 \<Rightarrow> u64 \<Rightarrow> bytes \<Rightarrow> bytes \<Rightarrow> bytes outcome" where
  "build_internal_aad_v3 flags node_id epoch sequence timestamp_ms context_hash user_aad =
     bindO (ok_or AadDemasiadoLargo (u32_try_from (length user_aad))) (\<lambda>aad_len_u32.
     Ok ([WIRE_VERSION_V3] @ [flags] @ u32_to_be node_id @ u64_to_be epoch @ u64_to_be sequence
       @ u64_to_be timestamp_ms @ context_hash
       @ (if flags AND FLAG_AAD_PRESENT \<noteq> 0 then u32_to_be aad_len_u32 @ user_aad else [])))"

definition build_internal_aad_v1 :: "u64 \<Rightarrow> bytes" where
  "build_internal_aad_v1 sequence = [WIRE_VERSION_V1] @ u64_to_be sequence"


section \<open>Well-formed packets\<close>

definition wf_packet :: "packet \<Rightarrow> bool" where
  "wf_packet p \<longleftrightarrow> p_version p \<in> {WIRE_VERSION_V1, WIRE_VERSION_V2, WIRE_VERSION_V3}
     \<and> length (p_nonce p) = NONCE_LEN \<and> TAG_LEN \<le> length (p_ciphertext p)"

text \<open>
  What a layout carries: v1 has no flags, and neither v1 nor v2 has a node, an epoch or a
  timestamp, so these read back as zero.
\<close>

definition wire_view :: "packet \<Rightarrow> packet" where
  "wire_view p =
     (if p_version p = WIRE_VERSION_V3 then p
      else if p_version p = WIRE_VERSION_V2 then p\<lparr>p_node_id := 0, p_epoch := 0, p_timestamp_ms := 0\<rparr>
      else p\<lparr>p_flags := 0, p_node_id := 0, p_epoch := 0, p_timestamp_ms := 0\<rparr>)"

lemma glue: "j = i + n \<Longrightarrow> take n (drop i xs) @ drop j xs = drop i xs"
  by (metis add.commute append_take_drop_id drop_drop)

lemma drop_1_glue: "i < length xs \<Longrightarrow> j = Suc i \<Longrightarrow> xs ! i # drop j xs = drop i xs"
  by (simp add: Cons_nth_drop_Suc)

lemma head_glue: "xs \<noteq> [] \<Longrightarrow> xs ! 0 = v \<Longrightarrow> v # drop (Suc 0) xs = xs"
  by (cases xs) auto

lemma long_nonempty: "k \<le> length xs \<Longrightarrow> 0 < k \<Longrightarrow> xs \<noteq> []"
  by auto

lemma parse_v3: "58 \<le> length bs \<Longrightarrow> bs ! 0 = 3 \<Longrightarrow> from_bytes bs = Ok
    \<lparr>p_version = 3, p_flags = bs ! 1, p_node_id = u32_from_be (take 4 (drop 2 bs)),
     p_epoch = u64_from_be (take 8 (drop 6 bs)), p_sequence = u64_from_be (take 8 (drop 14 bs)),
     p_timestamp_ms = u64_from_be (take 8 (drop 22 bs)), p_nonce = take 12 (drop 30 bs),
     p_ciphertext = drop 42 bs\<rparr>"
  using long_nonempty [of 58 bs] by (simp add: from_bytes_def)

lemma parse_v2: "38 \<le> length bs \<Longrightarrow> bs ! 0 = 2 \<Longrightarrow> from_bytes bs = Ok
    \<lparr>p_version = 2, p_flags = bs ! 1, p_node_id = 0, p_epoch = 0,
     p_sequence = u64_from_be (take 8 (drop 2 bs)), p_timestamp_ms = 0,
     p_nonce = take 12 (drop 10 bs), p_ciphertext = drop 22 bs\<rparr>"
  using long_nonempty [of 38 bs] by (simp add: from_bytes_def)

lemma parse_v1: "37 \<le> length bs \<Longrightarrow> bs ! 0 = 1 \<Longrightarrow> from_bytes bs = Ok
    \<lparr>p_version = 1, p_flags = 0, p_node_id = 0, p_epoch = 0,
     p_sequence = u64_from_be (take 8 (drop 1 bs)), p_timestamp_ms = 0,
     p_nonce = take 12 (drop 9 bs), p_ciphertext = drop 21 bs\<rparr>"
  using long_nonempty [of 37 bs] by (simp add: from_bytes_def)

lemmas parse_simps = parse_v1 parse_v2 parse_v3

lemma parse_errors:
  "length bs < 37 \<Longrightarrow> from_bytes bs = Err PaqueteCorrupto"
  "bs ! 0 = 3 \<Longrightarrow> length bs < 58 \<Longrightarrow> from_bytes bs = Err PaqueteCorrupto"
  "bs ! 0 = 2 \<Longrightarrow> length bs < 38 \<Longrightarrow> from_bytes bs = Err PaqueteCorrupto"
  "37 \<le> length bs \<Longrightarrow> bs ! 0 \<notin> {1, 2, 3} \<Longrightarrow> from_bytes bs = Err (VersionNoSoportada (bs ! 0))"
  using long_nonempty [of 37 bs] by (simp_all add: from_bytes_def)

lemma from_bytes_cases:
  obtains (v1) "37 \<le> length bs" "bs ! 0 = 1"
  | (v2) "38 \<le> length bs" "bs ! 0 = 2"
  | (v3) "58 \<le> length bs" "bs ! 0 = 3"
  | (short) "length bs < 37 \<or> bs ! 0 = 2 \<and> length bs < 38 \<or> bs ! 0 = 3 \<and> length bs < 58"
      "from_bytes bs = Err PaqueteCorrupto"
  | (version) "37 \<le> length bs" "bs ! 0 \<notin> {1, 2, 3}" "from_bytes bs = Err (VersionNoSoportada (bs ! 0))"
proof -
  consider "37 \<le> length bs \<and> bs ! 0 = 1" | "38 \<le> length bs \<and> bs ! 0 = 2" | "58 \<le> length bs \<and> bs ! 0 = 3"
    | "length bs < 37 \<or> bs ! 0 = 2 \<and> length bs < 38 \<or> bs ! 0 = 3 \<and> length bs < 58"
    | "37 \<le> length bs \<and> bs ! 0 \<notin> {1, 2, 3}"
    by fastforce
  then show thesis
    by cases (use that parse_errors in blast)+
qed

lemma from_bytes_short:
  "from_bytes bs = Err PaqueteCorrupto \<longleftrightarrow>
     length bs < 37 \<or> bs ! 0 = 2 \<and> length bs < 38 \<or> bs ! 0 = 3 \<and> length bs < 58"
  by (cases bs rule: from_bytes_cases) (auto simp: parse_simps)

lemma from_bytes_version:
  "from_bytes bs = Err (VersionNoSoportada v) \<longleftrightarrow> 37 \<le> length bs \<and> bs ! 0 = v \<and> v \<notin> {1, 2, 3}"
  by (cases bs rule: from_bytes_cases) (auto simp: parse_simps)

lemma from_bytes_not_Panic: "from_bytes bs \<noteq> Panic"
  by (cases bs rule: from_bytes_cases) (auto simp: parse_simps)

lemma from_bytes_Err: "from_bytes bs = Err e \<Longrightarrow> e = PaqueteCorrupto \<or> (\<exists>v. e = VersionNoSoportada v)"
  by (cases bs rule: from_bytes_cases) (auto simp: parse_simps)

lemma from_bytes_to_bytes: "wf_packet p \<Longrightarrow> from_bytes (to_bytes p) = Ok (wire_view p)"
  by (auto simp: wf_packet_def to_bytes_def wire_view_def parse_simps)

lemma from_bytes_Ok_inverse:
  assumes "from_bytes bs = Ok p"
  shows "to_bytes p = bs" "wf_packet p" "wire_view p = p"
proof -
  have "to_bytes p = bs \<and> wf_packet p \<and> wire_view p = p"
  proof (cases bs rule: from_bytes_cases)
    case v1
    with assms long_nonempty [of 37 bs] show ?thesis
      by (auto simp: parse_v1 to_bytes_def wf_packet_def wire_view_def be_writeback glue drop_1_glue head_glue)
  next
    case v2
    with assms long_nonempty [of 38 bs] show ?thesis
      by (auto simp: parse_v2 to_bytes_def wf_packet_def wire_view_def be_writeback glue drop_1_glue head_glue)
  next
    case v3
    with assms long_nonempty [of 58 bs] show ?thesis
      by (auto simp: parse_v3 to_bytes_def wf_packet_def wire_view_def be_writeback glue drop_1_glue head_glue)
  qed (use assms in simp_all)
  then show "to_bytes p = bs" "wf_packet p" "wire_view p = p" by simp_all
qed


lemma wire_view_wf: "wf_packet p \<Longrightarrow> wf_packet (wire_view p)"
  by (auto simp: wf_packet_def wire_view_def)

lemma wire_view_idem [simp]: "wire_view (wire_view p) = wire_view p"
  by (auto simp: wire_view_def)

lemma to_bytes_wire_view: "wf_packet p \<Longrightarrow> to_bytes (wire_view p) = to_bytes p"
  by (auto simp: wf_packet_def wire_view_def to_bytes_def)

lemma length_to_bytes: "wf_packet p \<Longrightarrow> length (to_bytes p) =
    (if p_version p = 1 then 21 else if p_version p = 3 then 42 else 22) + length (p_ciphertext p)"
  by (auto simp: wf_packet_def to_bytes_def)

section \<open>What the associated data binds\<close>

lemma u32_try_from_None: "u32_try_from n = None \<longleftrightarrow> 2 ^ 32 \<le> n"
  by (simp add: u32_try_from_def)

lemma u32_try_from_Some: "u32_try_from n = Some w \<longleftrightarrow> n < 2 ^ 32 \<and> w = word_of_nat n"
  by (auto simp: u32_try_from_def)

lemma unat_u32_len: "n < 2 ^ 32 \<Longrightarrow> unat (word_of_nat n :: u32) = n"
  by (simp add: unat_of_nat)

lemma u32_len_inject: "m < 2 ^ 32 \<Longrightarrow> n < 2 ^ 32 \<Longrightarrow> (word_of_nat m :: u32) = word_of_nat n \<longleftrightarrow> m = n"
  by (metis unat_u32_len)

lemma build_aad_outcomes:
  "build_internal_aad_v2_with_epoch f s a e \<noteq> Panic" "build_internal_aad_v3 f n e s ts h a \<noteq> Panic"
  "build_internal_aad_v2_with_epoch f s a e = Err x \<longleftrightarrow> 2 ^ 32 \<le> length a \<and> x = AadDemasiadoLargo"
  "build_internal_aad_v3 f n e s ts h a = Err x \<longleftrightarrow> 2 ^ 32 \<le> length a \<and> x = AadDemasiadoLargo"
  by (auto simp: build_internal_aad_v2_with_epoch_def build_internal_aad_v3_def bindO_iff u32_try_from_None)

text \<open>
  The flag bit decides whether the caller's data is bound at all: with it clear the associated
  data is the same whatever the caller passes.
\<close>

lemma aad_v2_flag_clear:
  "f AND 1 = 0 \<Longrightarrow> length a < 2 ^ 32 \<Longrightarrow>
     build_internal_aad_v2_with_epoch f s a e = build_internal_aad_v2_with_epoch f s [] e"
  by (auto simp: build_internal_aad_v2_with_epoch_def u32_try_from_def)

lemma aad_v3_flag_clear:
  "f AND 1 = 0 \<Longrightarrow> length a < 2 ^ 32 \<Longrightarrow>
     build_internal_aad_v3 f n e s ts h a = build_internal_aad_v3 f n e s ts h []"
  by (auto simp: build_internal_aad_v3_def u32_try_from_def)

lemma aad_tail_inject:
  "length a < 2 ^ 32 \<Longrightarrow> length b < 2 ^ 32 \<Longrightarrow>
     u32_to_be (word_of_nat (length a)) @ a = u32_to_be (word_of_nat (length b)) @ b \<longleftrightarrow> a = b"
  by (auto simp: be_inject)

lemma aad_v3_inject:
  assumes "build_internal_aad_v3 f n e s ts h a = Ok x" "build_internal_aad_v3 f' n' e' s' ts' h' a' = Ok x"
    and "length h = length h'"
  shows "f = f' \<and> n = n' \<and> e = e' \<and> s = s' \<and> ts = ts' \<and> h = h' \<and> (f AND 1 \<noteq> 0 \<longrightarrow> a = a')"
  using assms
  by (auto simp: build_internal_aad_v3_def bindO_iff u32_try_from_Some be_inject aad_tail_inject
      split: if_splits)

text \<open>The four length bytes spell \<open>epoc\<close> only for a length no smaller than this one.\<close>

definition epoch_marker_len :: nat where "epoch_marker_len = 0x65706F63"

lemma u32_epoc: "u32_to_be (0x65706F63) = take 4 (ascii ''epoch'')"
  by code_simp


lemma u32_to_be_epoc: "u32_to_be w = take 4 (ascii ''epoch'') \<longleftrightarrow> w = 0x65706F63"
  by (metis u32_be.enc_inject u32_epoc)

lemma ascii_epoch: "ascii ''epoch'' = take 4 (ascii ''epoch'') @ [0x68]"
  by code_simp

text \<open>
  Below that length the two shapes of the v2 data, with and without an epoch, cannot meet.
\<close>

lemma aad_v2_epoch_disjoint:
  assumes "length a < epoch_marker_len"
  shows "u32_to_be (word_of_nat (length a)) @ a \<noteq> ascii ''epoch'' @ r"
proof
  assume "u32_to_be (word_of_nat (length a)) @ a = ascii ''epoch'' @ r"
  then have "take 4 (u32_to_be (word_of_nat (length a)) @ a) = take 4 (ascii ''epoch'' @ r)" by simp
  then have "u32_to_be (word_of_nat (length a)) = take 4 (ascii ''epoch'')" by simp
  then have "(word_of_nat (length a) :: u32) = word_of_nat epoch_marker_len"
    by (simp add: u32_to_be_epoc epoch_marker_len_def)
  then have "length a = epoch_marker_len"
    by (subst (asm) u32_len_inject) (use assms in \<open>simp_all add: epoch_marker_len_def\<close>)
  with assms show False by simp
qed

lemma aad_v2_inject:
  assumes "build_internal_aad_v2_with_epoch f s a e = Ok x" "build_internal_aad_v2_with_epoch f' s' a' e' = Ok x"
    and "length a < epoch_marker_len" "length a' < epoch_marker_len"
  shows "f = f' \<and> s = s' \<and> e = e' \<and> (f AND 1 \<noteq> 0 \<longrightarrow> a = a')"
proof -
  define tl where "tl g d = (if g AND 1 \<noteq> (0::u8) then u32_to_be (word_of_nat (length d)) @ d else [])" for g d
  define ep where "ep k = (if k \<noteq> 0 then ascii ''epoch'' @ u64_to_be k else [])" for k
  have shape: "x = [2, g] @ u64_to_be q @ ep k @ tl g d"
    if "build_internal_aad_v2_with_epoch g q d k = Ok x" for g q d k
    using that by (simp add: build_internal_aad_v2_with_epoch_def bindO_iff u32_try_from_Some tl_def ep_def)
  have split: "[2, g] @ u64_to_be q @ r = [2, g'] @ u64_to_be q' @ r' \<longleftrightarrow> g = g' \<and> q = q' \<and> r = r'"
    for g g' :: u8 and q q' r r' by (simp add: be_inject)
  have eqs: "f = f' \<and> s = s' \<and> ep e @ tl f a = ep e' @ tl f' a'"
    by (rule split [THEN iffD1, OF trans [OF sym [OF shape [OF assms(1)]] shape [OF assms(2)]]])
  note fs = eqs [THEN conjunct1] eqs [THEN conjunct2, THEN conjunct1]
  note rest = eqs [THEN conjunct2, THEN conjunct2]
  have no: "tl f d \<noteq> ascii ''epoch'' @ r" if "length d < epoch_marker_len" for d r
    using aad_v2_epoch_disjoint [OF that] by (auto simp: tl_def ascii_def)
  have "e = e' \<and> tl f a = tl f a'"
    using rest no [OF assms(3)] no [OF assms(4)]
    by (auto simp: ep_def be_inject fs split: if_splits) metis+
  moreover have "length a < 2 ^ 32" "length a' < 2 ^ 32"
    using assms(3,4) by (simp_all add: epoch_marker_len_def)
  ultimately show ?thesis using fs by (auto simp: tl_def aad_tail_inject)
qed


section \<open>Properties\<close>

text \<open>
  C12: the parser accepts exactly the images of the serializer. A byte string parses to \<open>p\<close> if and
  only if \<open>p\<close> is well formed (known version, 12-byte nonce, at least a tag of ciphertext), has only
  the fields its layout carries, and serializes to that very byte string. So parsing inverts
  serializing, no byte string has two readings and no packet two encodings.
\<close>

theorem packet_parse_exact:
  "from_bytes bs = Ok p \<longleftrightarrow> wf_packet p \<and> wire_view p = p \<and> to_bytes p = bs"
  using from_bytes_Ok_inverse [of bs p] from_bytes_to_bytes [of p] by auto

text \<open>
  C31: on arbitrary bytes the parser returns a packet or one of two typed errors, never a panic:
  \<open>PaqueteCorrupto\<close> exactly for inputs shorter than their layout's header and tag, and
  \<open>VersionNoSoportada\<close> with the version byte exactly for the unknown versions.
\<close>

theorem packet_parse_total:
  "from_bytes bs \<noteq> Panic
   \<and> (from_bytes bs = Err PaqueteCorrupto \<longleftrightarrow>
        length bs < 37 \<or> bs ! 0 = 2 \<and> length bs < 38 \<or> bs ! 0 = 3 \<and> length bs < 58)
   \<and> (from_bytes bs = Err (VersionNoSoportada v) \<longleftrightarrow> 37 \<le> length bs \<and> bs ! 0 = v \<and> v \<notin> {1, 2, 3})
   \<and> ((\<exists>p. from_bytes bs = Ok p) \<longleftrightarrow>
        37 \<le> length bs \<and> (bs ! 0 = 1 \<or> bs ! 0 = 2 \<and> 38 \<le> length bs \<or> bs ! 0 = 3 \<and> 58 \<le> length bs))"
  using from_bytes_not_Panic [of bs] from_bytes_short [of bs] from_bytes_version [of bs v]
  by (cases bs rule: from_bytes_cases) (auto simp: parse_simps)

text \<open>
  The text transport. A well-formed packet sent as Base64 is read back with exactly the fields
  its wire layout carries; in particular the epoch of a v2 packet does not travel.
\<close>

theorem packet_base64_roundtrip:
  assumes "b64_roundtrip C" and "wf_packet p"
  shows "from_base64 C (to_base64 C p) = Ok (wire_view p)"
  using assms by (simp add: from_base64_def to_base64_def b64_roundtrip_def from_bytes_to_bytes)

definition sample_packet :: packet where
  "sample_packet = \<lparr>p_version = 2, p_flags = 1, p_node_id = 0, p_epoch = 5, p_sequence = 258,
     p_timestamp_ms = 0, p_nonce = replicate 12 7, p_ciphertext = replicate 20 9\<rparr>"

theorem packet_base64_roundtrip_witness:
  "from_base64 toy (to_base64 toy sample_packet) = Ok (sample_packet\<lparr>p_epoch := 0\<rparr>)"
proof -
  have "wf_packet sample_packet" by (simp add: wf_packet_def sample_packet_def)
  moreover have "wire_view sample_packet = sample_packet\<lparr>p_epoch := 0\<rparr>"
    by (simp add: wire_view_def sample_packet_def)
  ultimately show ?thesis using packet_base64_roundtrip [OF toy_b64_roundtrip, of sample_packet] by simp
qed

text \<open>
  C37: the associated data of a v3 packet determines every field it covers. Two calls that produce
  the same bytes agree on flags, node, epoch, sequence, timestamp and context hash, and on the
  caller's data whenever the flag bit says that it is present.
\<close>

theorem aad_v3_binds:
  assumes "build_internal_aad_v3 f n e s ts h a = Ok x"
    and "build_internal_aad_v3 f' n' e' s' ts' h' a' = Ok x"
    and "length h = 32" and "length h' = 32"
  shows "f = f' \<and> n = n' \<and> e = e' \<and> s = s' \<and> ts = ts' \<and> h = h' \<and> (f AND FLAG_AAD_PRESENT \<noteq> 0 \<longrightarrow> a = a')"
  using aad_v3_inject [OF assms(1,2)] assms(3,4) by simp

theorem aad_v3_binds_witness:
  "\<exists>x. build_internal_aad_v3 1 2 3 4 5 (replicate 32 6) [7, 8] = Ok x \<and> (1::u8) AND FLAG_AAD_PRESENT \<noteq> 0
     \<and> [7, 8] = ([7, 8] :: bytes)"
proof -
  obtain x where x: "build_internal_aad_v3 1 2 3 4 5 (replicate 32 6) [7, 8] = Ok x"
    by (simp add: build_internal_aad_v3_def u32_try_from_def)
  with aad_v3_binds [OF x x] show ?thesis by simp
qed

text \<open>
  The associated data of a v2 packet determines flags, sequence and snapshot epoch, and the
  caller's data when the flag bit is set, provided the caller's data is shorter than 0x65706F63
  bytes (1.7 GB): a length field that large spells the letters of the epoch marker.
\<close>

theorem aad_v2_binds:
  assumes "build_internal_aad_v2_with_epoch f s a e = Ok x"
    and "build_internal_aad_v2_with_epoch f' s' a' e' = Ok x"
    and "length a < 0x65706F63" and "length a' < 0x65706F63"
  shows "f = f' \<and> s = s' \<and> e = e' \<and> (f AND FLAG_AAD_PRESENT \<noteq> 0 \<longrightarrow> a = a')"
  using aad_v2_inject [OF assms(1,2)] assms(3,4) by (simp add: epoch_marker_len_def)

theorem aad_v2_binds_witness:
  "\<exists>x. build_internal_aad_v2_with_epoch 1 4 [7, 8] 3 = Ok x \<and> (1::u8) AND FLAG_AAD_PRESENT \<noteq> 0
     \<and> [7, 8] = ([7, 8] :: bytes)"
proof -
  obtain x where x: "build_internal_aad_v2_with_epoch 1 4 [7, 8] 3 = Ok x"
    by (simp add: build_internal_aad_v2_with_epoch_def u32_try_from_def)
  with aad_v2_binds [OF x x] show ?thesis by simp
qed

text \<open>
  At that length the bound is sharp. The data of a message with epoch 0 and a caller's string
  of 0x65706F63 bytes can equal, byte for byte, the data of a message with a nonzero epoch and
  another caller's string: the v2 encoding does not delimit the optional epoch field.
\<close>

theorem aad_v2_epoch_ambiguous:
  assumes "f AND FLAG_AAD_PRESENT \<noteq> 0" and "e \<noteq> 0" and "length a = 0x65706F63 - 13"
    and "b = 0x68 # u64_to_be e @ u32_to_be (word_of_nat (length a)) @ a"
  shows "build_internal_aad_v2_with_epoch f s b 0 = build_internal_aad_v2_with_epoch f s a e
     \<and> build_internal_aad_v2_with_epoch f s a e \<noteq> Err AadDemasiadoLargo \<and> a \<noteq> b"
proof -
  have "length b = length a + 13" using assms(4) by simp
  moreover have "ascii ''epoch'' = u32_to_be 0x65706F63 @ [0x68]"
    using u32_epoc ascii_epoch by simp
  ultimately show ?thesis
    using assms by (auto simp: build_internal_aad_v2_with_epoch_def u32_try_from_def)
qed

theorem aad_v2_epoch_ambiguous_witness:
  "\<exists>a b. a \<noteq> b \<and> build_internal_aad_v2_with_epoch 1 0 b 0 = build_internal_aad_v2_with_epoch 1 0 a 1"
proof -
  define a :: bytes where "a = replicate (0x65706F63 - 13) 0"
  have "length a = 0x65706F63 - 13" by (simp add: a_def)
  then have "build_internal_aad_v2_with_epoch 1 0 b 0 = build_internal_aad_v2_with_epoch 1 0 a 1
      \<and> build_internal_aad_v2_with_epoch 1 0 a 1 \<noteq> Err AadDemasiadoLargo \<and> a \<noteq> b"
    if "b = 0x68 # u64_to_be 1 @ u32_to_be (word_of_nat (length a)) @ a" for b
    using aad_v2_epoch_ambiguous [of 1 1 a b 0] that by simp
  then show ?thesis by blast
qed

end
