(* ===== verification/Window.thy ===== *)
theory Window
  imports Errors
begin

text \<open>
  The contract of an anti-replay window, as \<open>modes/replay.rs\<close> and \<open>modes/chrono.rs\<close> both implement
  it (a highest sequence and a 128-bit bitmap). The specification keeps the whole set of accepted
  sequences. A sequence above the maximum is fresh; one at distance \<open>window\<close> or more below it is
  too old; inside the window it is a repeat exactly when it was accepted before.

  \<open>window_impl\<close> is the interface: \<open>check\<close> answers as the specification does and \<open>mark\<close> keeps
  the relation to the set. The lemmas about whole histories are proved once in it.
  The second half holds the facts on 128-bit bitmaps that both implementations share.
\<close>

section \<open>The specification\<close>

definition spec_check :: "u64 \<Rightarrow> u64 set \<Rightarrow> u64 \<Rightarrow> unit outcome" where
  "spec_check w S q =
     (if S = {} \<or> Max S < q then Ok ()
      else if w \<le> Max S - q then Err FueraDeOrden
      else if q \<in> S then Err Repetido else Ok ())"

lemma spec_refused_iff:
  "spec_check w S q \<noteq> Ok () \<longleftrightarrow> S \<noteq> {} \<and> q \<le> Max S \<and> (w \<le> Max S - q \<or> q \<in> S)"
  by (auto simp: spec_check_def not_less leD)

lemma spec_check_seen: "q \<in> S \<Longrightarrow> spec_check w S q \<noteq> Ok ()"
  unfolding spec_refused_iff by (auto intro: Max_ge)

lemma spec_check_not_Panic: "spec_check w S q \<noteq> Panic"
  by (simp add: spec_check_def)

lemma word_diff_mono: "(q :: 'a::len word) \<le> a \<Longrightarrow> a \<le> b \<Longrightarrow> a - q \<le> b - q"
  by (simp add: word_le_nat_alt unat_sub_if_size)

text \<open>What is refused once is refused for ever: the window only moves up.\<close>

lemma spec_check_mono:
  assumes "S \<subseteq> T" "spec_check w S q \<noteq> Ok ()"
  shows "spec_check w T q \<noteq> Ok ()"
proof -
  from assms(2) have S: "S \<noteq> {}" "q \<le> Max S" "w \<le> Max S - q \<or> q \<in> S"
    unfolding spec_refused_iff by blast+
  have le: "Max S \<le> Max T" using assms S by (intro Max_mono) simp_all
  then have "Max S - q \<le> Max T - q" by (intro word_diff_mono S)
  with S le assms(1) show ?thesis
    unfolding spec_refused_iff by (meson order_trans subset_empty subset_iff)
qed

text \<open>
  Arrivals as the specification sees them: each is a sequence with the verdict of the rest of the
  receiver (authentication). An arrival counts when both agree.
\<close>

fun spec_arrive :: "u64 \<Rightarrow> u64 set \<Rightarrow> (u64 \<times> bool) list \<Rightarrow> u64 list" where
  "spec_arrive w S [] = []"
| "spec_arrive w S ((q, genuine) # qs) =
     (if spec_check w S q = Ok () \<and> genuine then q # spec_arrive w (insert q S) qs else spec_arrive w S qs)"

lemma spec_arrive_fresh: "set (spec_arrive w S qs) \<inter> S = {} \<and> distinct (spec_arrive w S qs)"
proof (induction w S qs rule: spec_arrive.induct)
  case (1 w S)
  then show ?case by simp
next
  case (2 w S q genuine qs)
  then show ?case using spec_check_seen [of q S w] by auto
qed

section \<open>The interface\<close>

locale window_impl =
  fixes check :: "'s \<Rightarrow> u64 \<Rightarrow> unit outcome" and mark :: "'s \<Rightarrow> u64 \<Rightarrow> 's"
    and rel :: "'s \<Rightarrow> u64 set \<Rightarrow> bool" and window :: u64
  assumes check_spec: "rel s S \<Longrightarrow> check s q = spec_check window S q"
    and mark_rel: "rel s S \<Longrightarrow> check s q = Ok () \<Longrightarrow> rel (mark s q) (insert q S)"
begin

text \<open>A receiver fed arrivals: its final state and what it accepts.\<close>

fun arrive :: "'s \<Rightarrow> (u64 \<times> bool) list \<Rightarrow> 's \<times> u64 list" where
  "arrive s [] = (s, [])"
| "arrive s ((q, genuine) # qs) =
     (if check s q = Ok () \<and> genuine then (let (t, acc) = arrive (mark s q) qs in (t, q # acc))
      else arrive s qs)"

lemma arrive_refines: "rel s S \<Longrightarrow> snd (arrive s qs) = spec_arrive window S qs
    \<and> rel (fst (arrive s qs)) (S \<union> set (snd (arrive s qs)))"
proof (induction s qs arbitrary: S rule: arrive.induct)
  case (1 s)
  then show ?case by simp
next
  case (2 s q genuine qs)
  show ?case
  proof (cases "check s q = Ok () \<and> genuine")
    case True
    with 2(3) have "rel (mark s q) (insert q S)" "spec_check window S q = Ok ()"
      using mark_rel check_spec [of s S q] by simp_all
    with 2(1) [OF True, of "insert q S"] True show ?thesis
      by (cases "arrive (mark s q) qs") auto
  next
    case False
    with 2(2) [OF False, of S] 2(3) check_spec [of s S q] show ?thesis
      by (cases "arrive s qs") auto
  qed
qed

lemma accepted_distinct: "rel s S \<Longrightarrow> distinct (snd (arrive s qs)) \<and> set (snd (arrive s qs)) \<inter> S = {}"
  using arrive_refines [of s S qs] spec_arrive_fresh [of window S qs] by simp

lemma check_not_Panic: "rel s S \<Longrightarrow> check s q \<noteq> Panic"
  by (simp add: check_spec spec_check_not_Panic)

lemma recorded_refused: "rel s S \<Longrightarrow> q \<in> S \<Longrightarrow> check s q = Err Repetido \<or> check s q = Err FueraDeOrden"
  using spec_check_seen [of q S window] check_spec [of s S q]
  by (auto simp: spec_check_def split: if_splits)

lemma refused_stays: "rel s S \<Longrightarrow> rel t T \<Longrightarrow> S \<subseteq> T \<Longrightarrow> check s q \<noteq> Ok () \<Longrightarrow> check t q \<noteq> Ok ()"
  using spec_check_mono [of S T window q] by (simp add: check_spec)

text \<open>A sequence not yet seen and less than a window below the maximum is accepted.\<close>

lemma fresh_accepted: "rel s S \<Longrightarrow> q \<notin> S \<Longrightarrow> (\<And>m. m \<in> S \<Longrightarrow> m \<le> q \<or> m - q < window) \<Longrightarrow> check s q = Ok ()"
  using Max_in [of S] by (fastforce simp: check_spec spec_check_def)

end

section \<open>Bitmaps\<close>

text \<open>
  \<open>1u128 << d\<close> and \<open>bm << d\<close>: the shift amount of a release build is taken modulo the width; a
  debug build panics beyond it. The callers keep \<open>d\<close> below 128 (\<open>bitmap_for\<close> holds), where both
  are the plain shift.
\<close>

definition shl128 :: "u128 \<Rightarrow> u64 \<Rightarrow> u128" where
  "shl128 x d = push_bit (unat d mod 128) x"

text \<open>
  The bitmap of a receiver with maximum \<open>h\<close> and accepted set \<open>S\<close>: bit \<open>d\<close> stands for the
  sequence \<open>h - d\<close>, for the distances inside the window; no other bit is set.
\<close>

definition bitmap_for :: "u64 \<Rightarrow> u64 \<Rightarrow> u64 set \<Rightarrow> u128 \<Rightarrow> bool" where
  "bitmap_for w h S bm \<longleftrightarrow>
     (\<forall>d < 128. bit bm d \<longleftrightarrow> d < unat w \<and> (\<exists>q \<in> S. q \<le> h \<and> unat (h - q) = d))"

definition window_rel :: "u64 \<Rightarrow> u64 option \<Rightarrow> u128 \<Rightarrow> u64 set \<Rightarrow> bool" where
  "window_rel w highest bm S \<longleftrightarrow> 0 < w \<and> w \<le> 128
     \<and> (case highest of None \<Rightarrow> S = {} | Some h \<Rightarrow> S \<noteq> {} \<and> Max S = h \<and> bitmap_for w h S bm)"


text \<open>\<open>u128::MAX\<close> for the full window, else \<open>(1u128 << window) - 1\<close>.\<close>

definition window_mask :: "u64 \<Rightarrow> u128" where
  "window_mask w = (if w = 128 then - 1 else shl128 1 w - 1)"

lemma unat_lt_128: "w \<le> 128 \<Longrightarrow> (d :: u64) < w \<Longrightarrow> unat d < 128"
  by (simp add: word_le_nat_alt word_less_nat_alt)

lemma bit_window_mask: "w \<le> 128 \<Longrightarrow> d < 128 \<Longrightarrow> bit (window_mask w) d \<longleftrightarrow> d < unat w"
proof -
  assume w: "w \<le> 128" and d: "d < 128"
  show ?thesis
  proof (cases "w = 128")
    case True
    with d show ?thesis by (simp add: window_mask_def)
  next
    case False
    with w have "unat w < 128"
      by (simp add: word_le_nat_alt word_unat_eq_iff)
    then have "window_mask w = mask (unat w)"
      using False by (simp add: window_mask_def shl128_def mask_eq_exp_minus_1)
    with d show ?thesis by (simp add: bit_mask_iff)
  qed
qed

lemma bit_shl128_1: "unat d < 128 \<Longrightarrow> bit (shl128 1 d) n \<longleftrightarrow> n = unat d"
  by (auto simp: shl128_def bit_simps)

lemma and_shl128_1: "unat d < 128 \<Longrightarrow> bm AND shl128 1 d \<noteq> 0 \<longleftrightarrow> bit bm (unat d)"
  by (auto simp: bit_eq_iff [of "bm AND shl128 1 d" 0] bit_and_iff bit_shl128_1)

lemma bitmap_test:
  assumes "bitmap_for w h S bm" "w \<le> 128" "q \<le> h" "h - q < w"
  shows "bm AND shl128 1 (h - q) \<noteq> 0 \<longleftrightarrow> q \<in> S"
proof -
  have d: "unat (h - q) < 128" using assms by (intro unat_lt_128)
  have "unat (h - s) = unat (h - q) \<longleftrightarrow> s = q" if "s \<le> h" for s
    using that assms(3) by (simp add: word_unat_eq_iff [symmetric])
  with d assms show ?thesis
    by (auto simp: and_shl128_1 bitmap_for_def word_less_nat_alt)
qed

lemma bitmap_set:
  assumes "bitmap_for w h S bm" "w \<le> 128" "q \<le> h" "h - q < w"
  shows "bitmap_for w h (insert q S) (bm OR shl128 1 (h - q))"
proof -
  have d: "unat (h - q) < 128" using assms by (intro unat_lt_128)
  show ?thesis
    using assms by (auto simp: bitmap_for_def bit_or_iff bit_shl128_1 [OF d] word_less_nat_alt)
qed

lemma bitmap_first: "0 < w \<Longrightarrow> bitmap_for w q {q} 1"
  by (auto simp: bitmap_for_def bit_1_iff word_less_nat_alt)

lemma bitmap_advance:
  assumes bm: "bitmap_for w h S bm" and w: "w \<le> 128" "0 < w" and S: "\<forall>s \<in> S. s \<le> h" and q: "h < q"
  shows "bitmap_for w q (insert q S) ((if 128 \<le> q - h then 1 else shl128 bm (q - h) OR 1) AND window_mask w)"
proof -
  define k where "k = unat (q - h)"
  have k: "0 < k" "128 \<le> q - h \<longleftrightarrow> 128 \<le> k"
    using q by (simp_all add: k_def unat_gt_0 word_le_nat_alt)
  have dist: "s \<le> q \<and> unat (q - s) = k + unat (h - s)" if "s \<in> S" for s
  proof -
    from that S q have "s \<le> h" "h < q" by auto
    then show ?thesis
      by (simp add: k_def unat_sub word_le_nat_alt word_less_nat_alt)
  qed
  have ex: "(\<exists>s \<in> insert q S. s \<le> q \<and> unat (q - s) = d) \<longleftrightarrow> d = 0 \<or> (\<exists>s \<in> S. k + unat (h - s) = d)" for d
    using dist by auto
  have old: "bit bm e \<longleftrightarrow> e < unat w \<and> (\<exists>s \<in> S. unat (h - s) = e)" if "e < 128" for e
    using bm S that by (auto simp: bitmap_for_def)
  have new: "bit (if 128 \<le> q - h then 1 else shl128 bm (q - h) OR 1) d \<longleftrightarrow> d = 0 \<or> k \<le> d \<and> bit bm (d - k)"
    if "d < 128" for d
    using that k by (auto simp: shl128_def k_def [symmetric] bit_or_iff bit_1_iff bit_push_bit_iff)
  have "bit (if 128 \<le> q - h then 1 else shl128 bm (q - h) OR 1) d \<and> d < unat w
      \<longleftrightarrow> d < unat w \<and> (d = 0 \<or> (\<exists>s \<in> S. k + unat (h - s) = d))" if d: "d < 128" for d
    using old [of "d - k"] d unfolding new [OF d]
    by (auto simp: less_imp_diff_less) (metis le_add_diff_inverse)
  then show ?thesis
    unfolding bitmap_for_def ex bit_and_iff by (simp add: bit_window_mask w)
qed

text \<open>
  The two halves of the contract, for any receiver that keeps a maximum and such a bitmap: the
  code's test and its update.
\<close>

definition window_check :: "u64 \<Rightarrow> u64 option \<Rightarrow> u128 \<Rightarrow> u64 \<Rightarrow> unit outcome" where
  "window_check w highest bm q =
     (case highest of None \<Rightarrow> Ok ()
      | Some h \<Rightarrow> if h < q then Ok () else if w \<le> h - q then Err FueraDeOrden
          else if bm AND shl128 1 (h - q) \<noteq> 0 then Err Repetido else Ok ())"

definition window_mark :: "u64 \<Rightarrow> u64 option \<Rightarrow> u128 \<Rightarrow> u64 \<Rightarrow> u64 option \<times> u128" where
  "window_mark w highest bm q =
     (case highest of None \<Rightarrow> (Some q, 1)
      | Some h \<Rightarrow> if h < q
          then (Some q, (if 128 \<le> q - h then 1 else shl128 bm (q - h) OR 1) AND window_mask w)
          else (Some h, bm OR shl128 1 (h - q)))"

lemma window_check_spec:
  assumes "window_rel w highest bm S"
  shows "window_check w highest bm q = spec_check w S q"
proof (cases highest)
  case None
  with assms show ?thesis by (simp add: window_rel_def window_check_def spec_check_def)
next
  case (Some h)
  with assms have r: "w \<le> 128" "S \<noteq> {}" "Max S = h" "bitmap_for w h S bm"
    by (auto simp: window_rel_def)
  have "bm AND shl128 1 (h - q) \<noteq> 0 \<longleftrightarrow> q \<in> S" if "\<not> h < q" "\<not> w \<le> h - q"
    using bitmap_test [OF r(4,1)] that by (simp add: not_less not_le)
  then show ?thesis
    by (simp add: window_check_def spec_check_def Some r)
qed

lemma Max_insert_above: "\<forall>s \<in> S. s \<le> h \<Longrightarrow> h < q \<Longrightarrow> Max (insert q S) = (q :: u64)"
  by (intro Max_eqI) (auto dest: order_le_less_trans)

lemma Max_insert_below: "S \<noteq> {} \<Longrightarrow> q \<le> Max S \<Longrightarrow> Max (insert q S) = (Max S :: u64)"
  by (simp add: max_absorb2)

lemma window_rel_Some:
  "window_rel w (Some h) bm S \<longleftrightarrow> 0 < w \<and> w \<le> 128 \<and> S \<noteq> {} \<and> Max S = h \<and> bitmap_for w h S bm"
  by (auto simp only: window_rel_def option.case)

lemma window_mark_rel:
  assumes "window_rel w highest bm S" "window_check w highest bm q = Ok ()" "window_mark w highest bm q = (h', bm')"
  shows "window_rel w h' bm' (insert q S)"
proof (cases highest)
  case None
  with assms have "0 < w" "w \<le> 128" "S = {}" "h' = Some q" "bm' = 1"
    by (auto simp: window_rel_def window_mark_def)
  then show ?thesis by (simp add: window_rel_Some bitmap_first)
next
  case (Some h)
  from assms(1) [unfolded Some window_rel_Some]
  have r: "0 < w" "w \<le> 128" "S \<noteq> {}" "Max S = h" "bitmap_for w h S bm" by blast+
  then have S: "\<forall>s \<in> S. s \<le> h" by (auto intro: Max_ge)
  show ?thesis
  proof (cases "h < q")
    case True
    have eqs: "h' = Some q" "bm' = (if 128 \<le> q - h then 1 else shl128 bm (q - h) OR 1) AND window_mask w"
      using assms(3) Some True by (simp_all add: window_mark_def)
    show ?thesis
      unfolding eqs window_rel_Some
      using bitmap_advance [OF r(5,2,1) S True] Max_insert_above [OF S True] r(1,2) by blast
  next
    case False
    with assms(2) Some have q: "q \<le> h" "h - q < w"
      by (auto simp: window_check_def not_le split: if_splits)
    have eqs: "h' = Some h" "bm' = bm OR shl128 1 (h - q)"
      using assms(3) Some False by (simp_all add: window_mark_def)
    show ?thesis
      unfolding eqs window_rel_Some
      using bitmap_set [OF r(5,2) q] Max_insert_below [OF r(3)] q(1) r(1,2,4) by simp
  qed
qed

end
