(* ===== verification/Seed.thy ===== *)
theory Seed
  imports Primitives StdText
begin

text \<open>
  \<open>src/seed.rs\<close>: the 32-byte master seed, its checked construction, the Base64 transfer token and
  the keys derived from it. \<open>generate\<close> takes the bytes that \<open>OsRng\<close> delivers. The redacted \<open>Debug\<close> text
  is in the theory \<open>Secrets\<close>.
\<close>

record master_seed =
  seed_bytes :: bytes

definition generate :: "bytes \<Rightarrow> master_seed" where
  "generate rnd = \<lparr>seed_bytes = rnd\<rparr>"

definition seed_from_bytes :: "bytes \<Rightarrow> master_seed outcome" where
  "seed_from_bytes bs =
     bindO (byte_at bs 0) (\<lambda>first.
       if list_all (\<lambda>b. b = 0) bs \<or> list_all (\<lambda>b. b = first) bs then Err SemillaInvalida
       else Ok \<lparr>seed_bytes = bs\<rparr>)"

definition from_transfer_token :: "crypto \<Rightarrow> string \<Rightarrow> master_seed outcome" where
  "from_transfer_token C token =
     (case b64_decode C token of
        Inl e \<Rightarrow> Err (Base64 e)
      | Inr decoded \<Rightarrow>
          (case try_into_array 32 SemillaInvalida decoded of
             Ok arr \<Rightarrow> seed_from_bytes arr
           | Err _ \<Rightarrow> Err SemillaInvalida
           | Panic \<Rightarrow> Panic))"

definition export_for_transfer :: "crypto \<Rightarrow> master_seed \<Rightarrow> string" where
  "export_for_transfer C seed = b64_encode C (seed_bytes seed)"

definition derive_subseed :: "crypto \<Rightarrow> master_seed \<Rightarrow> bytes \<Rightarrow> master_seed" where
  "derive_subseed C seed purpose =
     \<lparr>seed_bytes = hkdf C (ascii ''CryptoNugget:subseed:v1'') (seed_bytes seed) purpose 32\<rparr>"

definition derive_wrap_key :: "crypto \<Rightarrow> master_seed \<Rightarrow> bytes \<Rightarrow> bytes" where
  "derive_wrap_key C seed storage_domain =
     hkdf C (ascii ''CryptoNugget:wrap-key:v1'') (seed_bytes seed) storage_domain 32"

section \<open>Which byte strings are seeds\<close>

text \<open>The 32 bytes of a seed are not all equal.\<close>

definition seed_ok :: "bytes \<Rightarrow> bool" where
  "seed_ok bs \<longleftrightarrow> length bs = 32 \<and> (\<forall>x. bs \<noteq> replicate 32 x)"

lemma list_all_eq_replicate: "list_all (\<lambda>b. b = x) bs \<longleftrightarrow> bs = replicate (length bs) x"
  by (induction bs) auto

lemma constant_seed:
  assumes "length bs = 32"
  shows "list_all (\<lambda>b. b = 0) bs \<or> list_all (\<lambda>b. b = bs ! 0) bs \<longleftrightarrow> \<not> seed_ok bs"
proof -
  have "x = bs ! 0" if "bs = replicate 32 x" for x
    by (subst that) (simp only: nth_replicate)
  then show ?thesis
    unfolding list_all_eq_replicate assms seed_ok_def using assms by metis
qed

lemma long_list: "length bs = 32 \<Longrightarrow> bs \<noteq> []"
  by auto

lemma seed_from_bytes_eq:
  "length bs = 32 \<Longrightarrow> seed_from_bytes bs = (if seed_ok bs then Ok \<lparr>seed_bytes = bs\<rparr> else Err SemillaInvalida)"
  using long_list [of bs] by (simp add: seed_from_bytes_def byte_at_def constant_seed)

lemma from_transfer_token_eq:
  "from_transfer_token C token =
     (case b64_decode C token of Inl e \<Rightarrow> Err (Base64 e)
      | Inr d \<Rightarrow> if seed_ok d then Ok \<lparr>seed_bytes = d\<rparr> else Err SemillaInvalida)"
  by (auto simp: from_transfer_token_def try_into_array_def seed_from_bytes_eq seed_ok_def split: sum.splits)

lemma derived_lengths:
  assumes "hash_lengths C"
  shows "length (seed_bytes (derive_subseed C seed p)) = 32" "length (derive_wrap_key C seed d) = 32"
  using assms by (simp_all add: derive_subseed_def derive_wrap_key_def hash_lengthsD)

lemma seed_ok_iff: "seed_ok bs \<longleftrightarrow> length bs = 32 \<and> (\<exists>x \<in> set bs. \<exists>y \<in> set bs. x \<noteq> y)"
proof (cases "length bs = 32")
  case True
  then have hd: "hd bs \<in> set bs" by (intro hd_in_set) auto
  have "bs = replicate 32 (hd bs)" if "\<forall>x \<in> set bs. \<forall>y \<in> set bs. x = y"
  proof -
    have "\<forall>y \<in> set bs. y = hd bs" using that hd by blast
    then show ?thesis using replicate_length_same [of bs "hd bs"] True by simp
  qed
  moreover have "x = z \<and> y = z" if "bs = replicate 32 z" "x \<in> set bs" "y \<in> set bs" for x y z
    using that by simp
  ultimately show ?thesis unfolding seed_ok_def using True by blast
qed (simp add: seed_ok_def)

text \<open>
  C39: provisioning by token. A token is accepted exactly when it decodes to 32 bytes that are not
  all equal, and then yields the seed of these bytes; every other token that decodes is
  \<open>SemillaInvalida\<close>, one that does not decode is \<open>Base64\<close> with the decoder's message, and none panics. An
  exported seed is imported unchanged when its bytes are not all equal.
\<close>

theorem seed_token_transfer:
  assumes "b64_roundtrip C"
  shows "(from_transfer_token C token = Ok s \<longleftrightarrow>
      (\<exists>bs. b64_decode C token = Inr bs \<and> length bs = 32 \<and> (\<exists>x \<in> set bs. \<exists>y \<in> set bs. x \<noteq> y) \<and> s = \<lparr>seed_bytes = bs\<rparr>))
    \<and> (from_transfer_token C token = Err e \<longleftrightarrow>
         (\<exists>msg. b64_decode C token = Inl msg \<and> e = Base64 msg)
       \<or> (\<exists>bs. b64_decode C token = Inr bs \<and> (length bs \<noteq> 32 \<or> (\<forall>x \<in> set bs. \<forall>y \<in> set bs. x = y)) \<and> e = SemillaInvalida))
    \<and> from_transfer_token C token \<noteq> Panic
    \<and> (from_transfer_token C (export_for_transfer C seed) = Ok seed
         \<longleftrightarrow> length (seed_bytes seed) = 32 \<and> (\<exists>x \<in> set (seed_bytes seed). \<exists>y \<in> set (seed_bytes seed). x \<noteq> y))"
proof -
  have "b64_decode C (export_for_transfer C seed) = Inr (seed_bytes seed)"
    using assms by (simp add: b64_roundtrip_def export_for_transfer_def)
  then have "from_transfer_token C (export_for_transfer C seed) = Ok seed \<longleftrightarrow> seed_ok (seed_bytes seed)"
    by (simp add: from_transfer_token_eq)
  moreover have "from_transfer_token C token = Ok s \<longleftrightarrow> (\<exists>bs. b64_decode C token = Inr bs \<and> seed_ok bs \<and> s = \<lparr>seed_bytes = bs\<rparr>)"
    by (cases "b64_decode C token") (auto simp: from_transfer_token_eq)
  moreover have "from_transfer_token C token = Err e \<longleftrightarrow> (\<exists>msg. b64_decode C token = Inl msg \<and> e = Base64 msg)
      \<or> (\<exists>bs. b64_decode C token = Inr bs \<and> \<not> seed_ok bs \<and> e = SemillaInvalida)"
    by (cases "b64_decode C token") (auto simp: from_transfer_token_eq)
  moreover have "from_transfer_token C token \<noteq> Panic"
    by (cases "b64_decode C token") (auto simp: from_transfer_token_eq)
  moreover have bad: "\<not> seed_ok bs \<longleftrightarrow> length bs \<noteq> 32 \<or> (\<forall>x \<in> set bs. \<forall>y \<in> set bs. x = y)" for bs
    by (simp add: seed_ok_iff)
  ultimately show ?thesis unfolding bad seed_ok_iff by (simp only: conj_assoc simp_thms)
qed

definition sample_seed :: master_seed where
  "sample_seed = \<lparr>seed_bytes = [1] @ replicate 31 2\<rparr>"

lemma sample_seed_ok: "seed_ok (seed_bytes sample_seed)"
proof -
  have "x = 1 \<and> x = 2" if "1 # replicate 31 2 = replicate 32 x" for x :: u8
    using arg_cong [OF that, of "\<lambda>l. l ! 0"] arg_cong [OF that, of "\<lambda>l. l ! 1"] by simp
  then show ?thesis unfolding seed_ok_def sample_seed_def by fastforce
qed

theorem seed_token_transfer_witness:
  "b64_roundtrip toy \<and> from_transfer_token toy (export_for_transfer toy sample_seed) = Ok sample_seed"
  using seed_token_transfer [OF toy_b64_roundtrip, where seed = sample_seed] sample_seed_ok
  unfolding seed_ok_iff by simp

end
