(* ===== verification/Ordered.thy ===== *)
theory Ordered
  imports Packet Seed
begin

text \<open>
  \<open>src/modes/ordered.rs\<close>: the ordered, ratcheted channel \<open>CryptoNugget\<close>. An operation takes the
  channel and returns its result and the channel after it (errors included: what had been changed
  when the error was raised stays changed). The 12 bytes that \<open>Aes256Gcm::generate_nonce\<close> draws are
  an argument. A \<open>&str\<close> plaintext is its UTF-8 bytes.
\<close>

datatype role = Initiator | Responder

record nugget =
  n_tx_key :: bytes
  n_rx_key :: bytes
  n_tx_seq :: u64
  n_rx_seq :: u64
  n_epoch :: u64
  n_tx_transcript_hash :: bytes
  n_rx_transcript_hash :: bytes
  n_context :: bytes
  n_requires_resume_ack :: bool

definition DEFAULT_CONTEXT :: bytes where
  "DEFAULT_CONTEXT = ascii ''cryptonugget:v1''"

definition new_with_context :: "crypto \<Rightarrow> master_seed \<Rightarrow> role \<Rightarrow> bytes \<Rightarrow> nugget" where
  "new_with_context C seed role context =
     (let salt = ascii ''CryptoNugget:seed:v1'' @ [0] @ context;
          prk = hkdf_extract C salt (seed_bytes seed);
          clave_a = hkdf_expand C prk (ascii ''tx-key:a'') 32;
          clave_b = hkdf_expand C prk (ascii ''tx-key:b'') 32;
          init_hash_a = hkdf_expand C prk (ascii ''transcript:a'') 32;
          init_hash_b = hkdf_expand C prk (ascii ''transcript:b'') 32;
          (tx, rx, tx_hash, rx_hash) =
            (case role of
               Initiator \<Rightarrow> (clave_a, clave_b, init_hash_a, init_hash_b)
             | Responder \<Rightarrow> (clave_b, clave_a, init_hash_b, init_hash_a))
      in \<lparr>n_tx_key = tx, n_rx_key = rx, n_tx_seq = 0, n_rx_seq = 0, n_epoch = 0,
          n_tx_transcript_hash = tx_hash, n_rx_transcript_hash = rx_hash,
          n_context = context, n_requires_resume_ack = False\<rparr>)"

definition new_nugget :: "crypto \<Rightarrow> master_seed \<Rightarrow> role \<Rightarrow> nugget" where
  "new_nugget C seed role = new_with_context C seed role DEFAULT_CONTEXT"

definition from_persisted_state ::
    "bytes \<Rightarrow> bytes \<Rightarrow> u64 \<Rightarrow> u64 \<Rightarrow> u64 \<Rightarrow> bytes \<Rightarrow> bytes \<Rightarrow> bytes \<Rightarrow> nugget" where
  "from_persisted_state tx_key rx_key tx_seq rx_seq epoch tx_hash rx_hash context =
     \<lparr>n_tx_key = tx_key, n_rx_key = rx_key, n_tx_seq = tx_seq, n_rx_seq = rx_seq, n_epoch = epoch,
      n_tx_transcript_hash = tx_hash, n_rx_transcript_hash = rx_hash, n_context = context,
      n_requires_resume_ack = True\<rparr>"

definition update_transcript :: "crypto \<Rightarrow> bytes \<Rightarrow> u64 \<Rightarrow> u64 \<Rightarrow> bytes \<Rightarrow> bytes \<Rightarrow> bytes" where
  "update_transcript C acc epoch seq nonce ciphertext =
     sha256 C (ascii ''CryptoNugget:Transcript:v1'' @ acc @ u64_to_be epoch @ u64_to_be seq @ nonce
       @ drop (length ciphertext - TAG_LEN) ciphertext)"

definition mutar_clave :: "crypto \<Rightarrow> nugget \<Rightarrow> bool \<Rightarrow> nugget" where
  "mutar_clave C n es_tx =
     (let clave_actual = (if es_tx then n_tx_key n else n_rx_key n);
          nueva_clave = hkdf C (ascii ''CryptoNugget:ratchet:v1'') clave_actual (ascii ''ratchet-key:v1'') 32
      in if es_tx then n\<lparr>n_tx_key := nueva_clave\<rparr> else n\<lparr>n_rx_key := nueva_clave\<rparr>)"

definition cifrar_bytes_with_aad ::
    "crypto \<Rightarrow> bytes \<Rightarrow> nugget \<Rightarrow> bytes \<Rightarrow> bytes \<Rightarrow> packet outcome \<times> nugget" where
  "cifrar_bytes_with_aad C rnd n plaintext user_aad =
     (if n_requires_resume_ack n then (Err EstadoSinReanudar, n)
      else (case checked_add (n_tx_seq n) 1 of
        None \<Rightarrow> (Err Cifrado, n)
      | Some next_seq \<Rightarrow>
        (let sequence = n_tx_seq n;
             flags = (if user_aad = [] then 0 else FLAG_AAD_PRESENT)
         in case build_internal_aad_v2_with_epoch flags sequence user_aad (n_epoch n) of
              Err e \<Rightarrow> (Err e, n)
            | Panic \<Rightarrow> (Panic, n)
            | Ok internal_aad \<Rightarrow>
              (case aead_enc C (n_tx_key n) rnd internal_aad plaintext of
                 None \<Rightarrow> (Err Cifrado, n)
               | Some ciphertext \<Rightarrow>
                 (let n1 = n\<lparr>n_tx_transcript_hash :=
                         update_transcript C (n_tx_transcript_hash n) (n_epoch n) sequence rnd ciphertext\<rparr>;
                      n2 = mutar_clave C n1 True;
                      n3 = n2\<lparr>n_tx_seq := next_seq\<rparr>
                  in (Ok \<lparr>p_version = WIRE_VERSION_V2, p_flags = flags, p_node_id = 0,
                          p_epoch = n_epoch n, p_sequence = sequence, p_timestamp_ms = 0,
                          p_nonce = rnd, p_ciphertext = ciphertext\<rparr>, n3))))))"

text \<open>
  The loop over \<open>epoch_candidates\<close>: the first candidate whose associated data opens the packet,
  with the plaintext. A failure to build the data leaves the loop with its error.
\<close>

fun open_with_epochs :: "crypto \<Rightarrow> bytes \<Rightarrow> packet \<Rightarrow> bytes \<Rightarrow> u64 list \<Rightarrow> (u64 \<times> bytes) option outcome" where
  "open_with_epochs C key pkt user_aad [] = Ok None"
| "open_with_epochs C key pkt user_aad (candidate # cs) =
     bindO (build_internal_aad_v2_with_epoch (p_flags pkt) (p_sequence pkt) user_aad candidate) (\<lambda>internal_aad.
       case aead_dec C key (p_nonce pkt) internal_aad (p_ciphertext pkt) of
         Some opened \<Rightarrow> Ok (Some (candidate, opened))
       | None \<Rightarrow> open_with_epochs C key pkt user_aad cs)"

text \<open>The \<open>match packet.version\<close>: the authenticated epoch and the plaintext.\<close>

definition authenticate :: "crypto \<Rightarrow> nugget \<Rightarrow> packet \<Rightarrow> bytes \<Rightarrow> (u64 \<times> bytes) outcome" where
  "authenticate C n pkt user_aad =
     (if p_version pkt = WIRE_VERSION_V2 then
        bindO (open_with_epochs C (n_rx_key n) pkt user_aad [n_epoch n, saturating_add (n_epoch n) 1])
          (ok_or Autenticacion)
      else if p_version pkt = WIRE_VERSION_V1 then
        (if user_aad \<noteq> [] then Err Autenticacion
         else (case aead_dec C (n_rx_key n) (p_nonce pkt) (build_internal_aad_v1 (p_sequence pkt)) (p_ciphertext pkt) of
                 None \<Rightarrow> Err Autenticacion
               | Some m \<Rightarrow> Ok (n_epoch n, m)))
      else Err (VersionNoSoportada (p_version pkt)))"

definition descifrar_bytes_with_aad ::
    "crypto \<Rightarrow> nugget \<Rightarrow> packet \<Rightarrow> bytes \<Rightarrow> bytes outcome \<times> nugget" where
  "descifrar_bytes_with_aad C n pkt user_aad =
     (if n_requires_resume_ack n then (Err EstadoSinReanudar, n)
      else if p_sequence pkt \<noteq> n_rx_seq n then (Err Autenticacion, n)
      else (case checked_add (n_rx_seq n) 1 of
        None \<Rightarrow> (Err Autenticacion, n)
      | Some next_rx_seq \<Rightarrow>
        (case authenticate C n pkt user_aad of
           Err e \<Rightarrow> (Err e, n)
         | Panic \<Rightarrow> (Panic, n)
         | Ok (authenticated_epoch, plaintext) \<Rightarrow>
           (let n1 = n\<lparr>n_rx_transcript_hash :=
                   update_transcript C (n_rx_transcript_hash n) authenticated_epoch (p_sequence pkt)
                     (p_nonce pkt) (p_ciphertext pkt)\<rparr>;
                n2 = mutar_clave C n1 False;
                n3 = n2\<lparr>n_rx_seq := next_rx_seq, n_epoch := authenticated_epoch\<rparr>
            in (Ok plaintext, n3)))))"


section \<open>The text interface\<close>

definition cifrar_bytes :: "crypto \<Rightarrow> bytes \<Rightarrow> nugget \<Rightarrow> bytes \<Rightarrow> string outcome \<times> nugget" where
  "cifrar_bytes C rnd n plaintext =
     (let (r, n') = cifrar_bytes_with_aad C rnd n plaintext []
      in (bindO r (\<lambda>packet. Ok (to_base64 C packet)), n'))"

definition cifrar :: "crypto \<Rightarrow> bytes \<Rightarrow> nugget \<Rightarrow> bytes \<Rightarrow> string outcome \<times> nugget" where
  "cifrar C rnd n texto_plano = cifrar_bytes C rnd n texto_plano"

definition descifrar_bytes :: "crypto \<Rightarrow> nugget \<Rightarrow> string \<Rightarrow> bytes outcome \<times> nugget" where
  "descifrar_bytes C n paquete_base64 =
     (case from_base64 C paquete_base64 of
        Err e \<Rightarrow> (Err e, n)
      | Panic \<Rightarrow> (Panic, n)
      | Ok packet \<Rightarrow> descifrar_bytes_with_aad C n packet [])"

definition descifrar :: "crypto \<Rightarrow> nugget \<Rightarrow> string \<Rightarrow> bytes outcome \<times> nugget" where
  "descifrar C n paquete_base64 =
     (let (r, n') = descifrar_bytes C n paquete_base64
      in (bindO r (\<lambda>bytes. if utf8_valid bytes then Ok bytes else Err Utf8), n'))"

definition transcript_hashes :: "nugget \<Rightarrow> bytes \<times> bytes" where
  "transcript_hashes n = (n_tx_transcript_hash n, n_rx_transcript_hash n)"

definition fingerprint :: "crypto \<Rightarrow> bytes \<Rightarrow> bytes \<Rightarrow> bytes" where
  "fingerprint C key info = hkdf C (ascii ''CryptoNugget:fingerprint:v1'') key info 4"

definition obtener_estado_adn :: "crypto \<Rightarrow> nugget \<Rightarrow> string outcome" where
  "obtener_estado_adn C n =
     (let tx_fp = fingerprint C (n_tx_key n) (ascii ''fp:tx'');
          rx_fp = fingerprint C (n_rx_key n) (ascii ''fp:rx'')
      in bindO (byte_at tx_fp 0) (\<lambda>t0. bindO (byte_at tx_fp 1) (\<lambda>t1.
         bindO (byte_at tx_fp 2) (\<lambda>t2. bindO (byte_at tx_fp 3) (\<lambda>t3.
         bindO (byte_at rx_fp 0) (\<lambda>r0. bindO (byte_at rx_fp 1) (\<lambda>r1.
         bindO (byte_at rx_fp 2) (\<lambda>r2. bindO (byte_at rx_fp 3) (\<lambda>r3.
         bindO (byte_at (n_tx_transcript_hash n) 0) (\<lambda>th.
         bindO (byte_at (n_rx_transcript_hash n) 0) (\<lambda>rh.
           Ok (''TX:'' @ fmt_02X t0 @ fmt_02X t1 @ fmt_02X t2 @ fmt_02X t3
             @ '' RX:'' @ fmt_02X r0 @ fmt_02X r1 @ fmt_02X r2 @ fmt_02X r3
             @ '' SEQ:'' @ fmt_dec (unat (n_tx_seq n)) @ ''/'' @ fmt_dec (unat (n_rx_seq n))
             @ '' SHA:'' @ fmt_02X th @ fmt_02X rh))))))))))))"

definition generar_semilla_maestra :: "bytes \<Rightarrow> master_seed" where
  "generar_semilla_maestra rnd = generate rnd"

definition generar_enlace_invitacion :: "crypto \<Rightarrow> master_seed \<Rightarrow> string" where
  "generar_enlace_invitacion C seed = ''nugget://sincronizar?v=1&semilla='' @ export_for_transfer C seed"

definition extraer_semilla_de_enlace :: "crypto \<Rightarrow> string \<Rightarrow> master_seed outcome" where
  "extraer_semilla_de_enlace C enlace =
     (case strip_prefix ''nugget://sincronizar?v=1&semilla='' enlace of
        Some semilla \<Rightarrow> map_err_to EnlaceInvalido (from_transfer_token C semilla)
      | None \<Rightarrow> Err EnlaceInvalido)"


section \<open>What one operation does\<close>

text \<open>The channel after a packet with this nonce and ciphertext has been sent, and received.\<close>

definition ratchet :: "crypto \<Rightarrow> bytes \<Rightarrow> bytes" where
  "ratchet C k = hkdf C (ascii ''CryptoNugget:ratchet:v1'') k (ascii ''ratchet-key:v1'') 32"

definition sent :: "crypto \<Rightarrow> nugget \<Rightarrow> bytes \<Rightarrow> bytes \<Rightarrow> nugget" where
  "sent C n nonce ct = n\<lparr>n_tx_key := ratchet C (n_tx_key n), n_tx_seq := n_tx_seq n + 1,
     n_tx_transcript_hash := update_transcript C (n_tx_transcript_hash n) (n_epoch n) (n_tx_seq n) nonce ct\<rparr>"

definition received :: "crypto \<Rightarrow> nugget \<Rightarrow> u64 \<Rightarrow> packet \<Rightarrow> nugget" where
  "received C n e pkt = n\<lparr>n_rx_key := ratchet C (n_rx_key n), n_rx_seq := n_rx_seq n + 1, n_epoch := e,
     n_rx_transcript_hash :=
       update_transcript C (n_rx_transcript_hash n) e (p_sequence pkt) (p_nonce pkt) (p_ciphertext pkt)\<rparr>"

definition aad_flag :: "bytes \<Rightarrow> u8" where
  "aad_flag user_aad = (if user_aad = [] then 0 else 1)"

definition v2_packet :: "u8 \<Rightarrow> u64 \<Rightarrow> u64 \<Rightarrow> bytes \<Rightarrow> bytes \<Rightarrow> packet" where
  "v2_packet f e s nonce ct = \<lparr>p_version = 2, p_flags = f, p_node_id = 0, p_epoch = e, p_sequence = s,
     p_timestamp_ms = 0, p_nonce = nonce, p_ciphertext = ct\<rparr>"

lemma v2_packet_simps [simp]:
  "p_version (v2_packet f e s n c) = 2" "p_flags (v2_packet f e s n c) = f" "p_epoch (v2_packet f e s n c) = e"
  "p_sequence (v2_packet f e s n c) = s" "p_nonce (v2_packet f e s n c) = n" "p_ciphertext (v2_packet f e s n c) = c"
  by (simp_all add: v2_packet_def)

lemma cifrar_Ok_iff:
  "cifrar_bytes_with_aad C rnd n pt aad = (Ok p, n') \<longleftrightarrow>
     \<not> n_requires_resume_ack n \<and> n_tx_seq n \<noteq> - 1 \<and>
     (\<exists>ia ct. build_internal_aad_v2_with_epoch (aad_flag aad) (n_tx_seq n) aad (n_epoch n) = Ok ia
        \<and> aead_enc C (n_tx_key n) rnd ia pt = Some ct
        \<and> p = v2_packet (aad_flag aad) (n_epoch n) (n_tx_seq n) rnd ct \<and> n' = sent C n rnd ct)"
  by (auto simp: cifrar_bytes_with_aad_def Let_def checked_add_1_Some checked_add_1_None mutar_clave_def
      sent_def ratchet_def v2_packet_def aad_flag_def split: option.splits outcome.splits)

lemma cifrar_failed:
  "cifrar_bytes_with_aad C rnd n pt aad = (r, n') \<Longrightarrow> \<not> is_ok r \<Longrightarrow> n' = n"
  by (auto simp: cifrar_bytes_with_aad_def Let_def split: option.splits outcome.splits if_splits)

lemma descifrar_Ok_iff:
  "descifrar_bytes_with_aad C n pkt aad = (Ok m, n') \<longleftrightarrow>
     \<not> n_requires_resume_ack n \<and> p_sequence pkt = n_rx_seq n \<and> n_rx_seq n \<noteq> - 1 \<and>
     (\<exists>e. authenticate C n pkt aad = Ok (e, m) \<and> n' = received C n e pkt)"
  by (auto simp: descifrar_bytes_with_aad_def Let_def checked_add_1_Some checked_add_1_None mutar_clave_def
      received_def ratchet_def split: option.splits outcome.splits)

lemma descifrar_failed:
  "descifrar_bytes_with_aad C n pkt aad = (r, n') \<Longrightarrow> \<not> is_ok r \<Longrightarrow> n' = n"
  by (auto simp: descifrar_bytes_with_aad_def Let_def split: option.splits outcome.splits if_splits prod.splits)


lemma open_with_epochs_not_Panic: "open_with_epochs C k pkt aad es \<noteq> Panic"
  by (induction es) (auto simp: bindO_iff build_aad_outcomes split: option.splits)

text \<open>When the packet's flag is clear, the receiver's associated data does not enter.\<close>

lemma open_with_epochs_flag_clear:
  "p_flags pkt AND 1 = 0 \<Longrightarrow> length aad < 2 ^ 32 \<Longrightarrow> open_with_epochs C k pkt aad es = open_with_epochs C k pkt [] es"
  by (induction es) (simp_all add: aad_v2_flag_clear [of _ aad] cong: option.case_cong)

lemma authenticate_not_Panic: "authenticate C n pkt aad \<noteq> Panic"
  by (auto simp: authenticate_def bindO_iff build_aad_outcomes split: option.splits)

lemma operations_not_Panic:
  "fst (cifrar_bytes_with_aad C rnd n pt aad) \<noteq> Panic" "fst (descifrar_bytes_with_aad C n pkt aad) \<noteq> Panic"
  using authenticate_not_Panic
  by (auto simp: cifrar_bytes_with_aad_def descifrar_bytes_with_aad_def Let_def build_aad_outcomes
      split: option.splits outcome.splits prod.splits)

text \<open>The two places of the epoch loop: the current epoch, and the next one.\<close>

lemma authenticate_current:
  assumes "p_version pkt = 2" "build_internal_aad_v2_with_epoch (p_flags pkt) (p_sequence pkt) aad (n_epoch n) = Ok ia"
    "aead_dec C (n_rx_key n) (p_nonce pkt) ia (p_ciphertext pkt) = Some m"
  shows "authenticate C n pkt aad = Ok (n_epoch n, m)"
  using assms by (simp add: authenticate_def)

lemma authenticate_next:
  assumes "p_version pkt = 2"
    "build_internal_aad_v2_with_epoch (p_flags pkt) (p_sequence pkt) aad (n_epoch n) = Ok ia"
    "aead_dec C (n_rx_key n) (p_nonce pkt) ia (p_ciphertext pkt) = None"
    "build_internal_aad_v2_with_epoch (p_flags pkt) (p_sequence pkt) aad (saturating_add (n_epoch n) 1) = Ok ib"
    "aead_dec C (n_rx_key n) (p_nonce pkt) ib (p_ciphertext pkt) = Some m"
  shows "authenticate C n pkt aad = Ok (saturating_add (n_epoch n) 1, m)"
  using assms by (simp add: authenticate_def)

lemma authenticate_neither:
  assumes "p_version pkt = 2"
    "build_internal_aad_v2_with_epoch (p_flags pkt) (p_sequence pkt) aad (n_epoch n) = Ok ia"
    "aead_dec C (n_rx_key n) (p_nonce pkt) ia (p_ciphertext pkt) = None"
    "build_internal_aad_v2_with_epoch (p_flags pkt) (p_sequence pkt) aad (saturating_add (n_epoch n) 1) = Ok ib"
    "aead_dec C (n_rx_key n) (p_nonce pkt) ib (p_ciphertext pkt) = None"
  shows "authenticate C n pkt aad = Err Autenticacion"
  using assms by (simp add: authenticate_def)

section \<open>One direction of a channel\<close>

text \<open>
  The sender \<open>a\<close> and the receiver \<open>b\<close> agree on key, next sequence and transcript, and both may work.
\<close>

definition in_sync :: "nugget \<Rightarrow> nugget \<Rightarrow> bool" where
  "in_sync a b \<longleftrightarrow> n_tx_key a = n_rx_key b \<and> n_tx_seq a = n_rx_seq b
     \<and> n_tx_transcript_hash a = n_rx_transcript_hash b
     \<and> \<not> n_requires_resume_ack a \<and> \<not> n_requires_resume_ack b"

lemma new_in_sync:
  "in_sync (new_with_context C seed Initiator ctx) (new_with_context C seed Responder ctx)"
  "in_sync (new_with_context C seed Responder ctx) (new_with_context C seed Initiator ctx)"
  "n_epoch (new_with_context C seed r ctx) = 0"
  by (auto simp: in_sync_def new_with_context_def Let_def split: role.splits)

lemma deliver:
  assumes "aead_roundtrip C" "in_sync a b" "n_epoch a = n_epoch b"
    and "cifrar_bytes_with_aad C rnd a pt aad = (Ok p, a')"
  shows "descifrar_bytes_with_aad C b p aad = (Ok pt, received C b (n_epoch b) p)
    \<and> in_sync a' (received C b (n_epoch b) p)"
proof -
  from assms(4) obtain ia ct where s: "n_tx_seq a \<noteq> - 1"
    "build_internal_aad_v2_with_epoch (aad_flag aad) (n_tx_seq a) aad (n_epoch a) = Ok ia"
    "aead_enc C (n_tx_key a) rnd ia pt = Some ct"
    "p = v2_packet (aad_flag aad) (n_epoch a) (n_tx_seq a) rnd ct" "a' = sent C a rnd ct"
    by (auto simp: cifrar_Ok_iff)
  have "aead_dec C (n_rx_key b) rnd ia ct = Some pt"
    using s(3) assms(1,2) by (simp add: aead_roundtripD in_sync_def)
  with s assms(2,3) have "authenticate C b p aad = Ok (n_epoch b, pt)"
    by (intro authenticate_current) (simp_all add: in_sync_def)
  with s assms(2,3) show ?thesis
    by (simp add: descifrar_Ok_iff in_sync_def sent_def received_def)
qed


text \<open>The packet does not open under this key with the data of this epoch.\<close>

definition rejects :: "crypto \<Rightarrow> bytes \<Rightarrow> packet \<Rightarrow> bytes \<Rightarrow> u64 \<Rightarrow> bool" where
  "rejects C key pkt aad e \<longleftrightarrow>
     (case build_internal_aad_v2_with_epoch (p_flags pkt) (p_sequence pkt) aad e of
        Ok ia \<Rightarrow> aead_dec C key (p_nonce pkt) ia (p_ciphertext pkt) = None | _ \<Rightarrow> True)"

lemma saturating_next: "e \<noteq> - 1 \<Longrightarrow> saturating_add e 1 = (e + 1 :: u64)"
  using checked_add_1_None [of e] by (auto simp: saturating_add_def checked_add_def split: if_splits)

lemma aad_v2_ex: "length aad < 2 ^ 32 \<Longrightarrow> \<exists>ia. build_internal_aad_v2_with_epoch f s aad e = Ok ia"
  by (simp add: build_internal_aad_v2_with_epoch_def u32_try_from_def)

lemma aad_v2_Ok_length: "build_internal_aad_v2_with_epoch f s aad e = Ok ia \<Longrightarrow> length aad < 2 ^ 32"
  by (auto simp: build_internal_aad_v2_with_epoch_def u32_try_from_def bindO_Ok_iff split: if_splits)

lemma deliver_next_epoch:
  assumes "aead_roundtrip C" "in_sync a b" "n_epoch b \<noteq> - 1" "n_epoch a = n_epoch b + 1"
    and "cifrar_bytes_with_aad C rnd a pt aad = (Ok p, a')" "rejects C (n_rx_key b) p aad (n_epoch b)"
  shows "\<exists>b'. descifrar_bytes_with_aad C b p aad = (Ok pt, b') \<and> n_epoch b' = n_epoch a \<and> in_sync a' b'"
proof -
  from assms(5) obtain ib ct where s: "n_tx_seq a \<noteq> - 1"
    "build_internal_aad_v2_with_epoch (aad_flag aad) (n_tx_seq a) aad (n_epoch a) = Ok ib"
    "aead_enc C (n_tx_key a) rnd ib pt = Some ct"
    "p = v2_packet (aad_flag aad) (n_epoch a) (n_tx_seq a) rnd ct" "a' = sent C a rnd ct"
    by (auto simp: cifrar_Ok_iff)
  note next_epoch = saturating_next [OF assms(3), folded assms(4)]
  obtain ia where ia: "build_internal_aad_v2_with_epoch (p_flags p) (p_sequence p) aad (n_epoch b) = Ok ia"
    using aad_v2_ex [OF aad_v2_Ok_length [OF s(2)]] by blast
  have "aead_dec C (n_rx_key b) rnd ib ct = Some pt"
    using s(3) assms(1,2) by (simp add: aead_roundtripD in_sync_def)
  then have "authenticate C b p aad = Ok (n_epoch a, pt)"
    using authenticate_next [OF _ ia, of C ib pt] assms(6) ia s next_epoch by (simp add: rejects_def)
  with s assms(2) show ?thesis
    by (auto simp: descifrar_Ok_iff in_sync_def sent_def received_def)
qed

lemma descifrar_rejected:
  assumes "p_version p = 2" "length aad < 2 ^ 32" "\<not> n_requires_resume_ack n" "p_sequence p = n_rx_seq n"
    and "rejects C (n_rx_key n) p aad (n_epoch n)" "rejects C (n_rx_key n) p aad (saturating_add (n_epoch n) 1)"
  shows "descifrar_bytes_with_aad C n p aad = (Err Autenticacion, n)"
proof -
  obtain ia ib where i: "build_internal_aad_v2_with_epoch (p_flags p) (p_sequence p) aad (n_epoch n) = Ok ia"
    "build_internal_aad_v2_with_epoch (p_flags p) (p_sequence p) aad (saturating_add (n_epoch n) 1) = Ok ib"
    using aad_v2_ex [OF assms(2)] by blast
  then have "authenticate C n p aad = Err Autenticacion"
    using assms(5,6) by (intro authenticate_neither [OF assms(1) i(1) _ i(2)]) (simp_all add: rejects_def)
  with assms show ?thesis by (simp add: descifrar_bytes_with_aad_def split: option.splits)
qed

section \<open>Two peers and the network between them\<close>

text \<open>
  Alice and Bob with a first-in first-out queue in each direction. A queued packet is kept with
  what was put into it, for the statement only. Either side may send, take the head of its queue,
  or be offered a foreign packet (forged, replayed, or under other associated data) that it refuses.
\<close>

type_synonym flight = "(packet \<times> bytes \<times> bytes) list"

record session =
  alice :: nugget
  bob :: nugget
  to_bob :: flight
  to_alice :: flight

definition session_init :: "crypto \<Rightarrow> master_seed \<Rightarrow> bytes \<Rightarrow> session" where
  "session_init C seed ctx = \<lparr>alice = new_with_context C seed Initiator ctx,
     bob = new_with_context C seed Responder ctx, to_bob = [], to_alice = []\<rparr>"

inductive session_step :: "crypto \<Rightarrow> session \<Rightarrow> session \<Rightarrow> bool" for C where
  alice_sends: "cifrar_bytes_with_aad C rnd (alice s) pt aad = (Ok p, a') \<Longrightarrow>
     session_step C s (s\<lparr>alice := a', to_bob := to_bob s @ [(p, pt, aad)]\<rparr>)"
| bob_sends: "cifrar_bytes_with_aad C rnd (bob s) pt aad = (Ok p, b') \<Longrightarrow>
     session_step C s (s\<lparr>bob := b', to_alice := to_alice s @ [(p, pt, aad)]\<rparr>)"
| bob_takes: "to_bob s = (p, pt, aad) # q \<Longrightarrow> descifrar_bytes_with_aad C (bob s) p aad = (r, b') \<Longrightarrow>
     session_step C s (s\<lparr>bob := b', to_bob := q\<rparr>)"
| alice_takes: "to_alice s = (p, pt, aad) # q \<Longrightarrow> descifrar_bytes_with_aad C (alice s) p aad = (r, a') \<Longrightarrow>
     session_step C s (s\<lparr>alice := a', to_alice := q\<rparr>)"
| bob_refuses: "descifrar_bytes_with_aad C (bob s) p aad = (Err e, b') \<Longrightarrow> session_step C s (s\<lparr>bob := b'\<rparr>)"
| alice_refuses: "descifrar_bytes_with_aad C (alice s) p aad = (Err e, a') \<Longrightarrow> session_step C s (s\<lparr>alice := a'\<rparr>)"

inductive session_reach :: "crypto \<Rightarrow> session \<Rightarrow> session \<Rightarrow> bool" for C s0 where
  start: "session_reach C s0 s0"
| step: "session_reach C s0 s \<Longrightarrow> session_step C s t \<Longrightarrow> session_reach C s0 t"

text \<open>
  The packets in flight from \<open>a\<close> to \<open>b\<close>: received one after the other they open to what was sent,
  and leave \<open>b\<close> in step with \<open>a\<close>.
\<close>

fun pending :: "crypto \<Rightarrow> nugget \<Rightarrow> flight \<Rightarrow> nugget \<Rightarrow> bool" where
  "pending C b [] a \<longleftrightarrow> in_sync a b"
| "pending C b ((p, pt, aad) # q) a \<longleftrightarrow>
     descifrar_bytes_with_aad C b p aad = (Ok pt, received C b (n_epoch b) p)
     \<and> pending C (received C b (n_epoch b) p) q a"

lemma received_epoch [simp]: "n_epoch (received C b e p) = e"
  by (simp add: received_def)

lemma pending_send:
  assumes "aead_roundtrip C" "cifrar_bytes_with_aad C rnd a pt aad = (Ok p, a')"
  shows "pending C b q a \<Longrightarrow> n_epoch a = n_epoch b \<Longrightarrow> pending C b (q @ [(p, pt, aad)]) a'"
proof (induction q arbitrary: b)
  case Nil
  then show ?case using deliver [OF assms(1) _ _ assms(2)] by simp
next
  case (Cons x q)
  then show ?case by (cases x) simp
qed

text \<open>
  What a receiver opens depends on its receiving half only, and what a flight leads to on the
  sending half of its sender; so the two directions do not disturb each other.
\<close>

definition same_rx :: "nugget \<Rightarrow> nugget \<Rightarrow> bool" where
  "same_rx b c \<longleftrightarrow> n_rx_key b = n_rx_key c \<and> n_rx_seq b = n_rx_seq c \<and> n_epoch b = n_epoch c
     \<and> n_rx_transcript_hash b = n_rx_transcript_hash c \<and> n_requires_resume_ack b = n_requires_resume_ack c"

definition same_tx :: "nugget \<Rightarrow> nugget \<Rightarrow> bool" where
  "same_tx b c \<longleftrightarrow> n_tx_key b = n_tx_key c \<and> n_tx_seq b = n_tx_seq c
     \<and> n_tx_transcript_hash b = n_tx_transcript_hash c \<and> n_requires_resume_ack b = n_requires_resume_ack c"

lemma same_half:
  "same_rx (sent C b r ct) b" "same_tx (received C b e p) b"
  by (simp_all add: same_rx_def same_tx_def sent_def received_def)

lemma received_inject: "received C b e p = received C b e' p \<longleftrightarrow> e = e'"
  by (metis received_epoch)

lemma takes_iff:
  "descifrar_bytes_with_aad C b p aad = (Ok pt, received C b (n_epoch b) p) \<longleftrightarrow>
     \<not> n_requires_resume_ack b \<and> p_sequence p = n_rx_seq b \<and> n_rx_seq b \<noteq> - 1
     \<and> authenticate C b p aad = Ok (n_epoch b, pt)"
  by (auto simp: descifrar_Ok_iff received_inject)

lemma same_rx_takes:
  assumes "same_rx b c"
  shows "descifrar_bytes_with_aad C b p aad = (Ok pt, received C b (n_epoch b) p)
    \<longleftrightarrow> descifrar_bytes_with_aad C c p aad = (Ok pt, received C c (n_epoch c) p)"
proof -
  have "authenticate C b p aad = authenticate C c p aad"
    using assms by (simp only: authenticate_def same_rx_def)
  then show ?thesis
    using assms unfolding takes_iff by (simp only: same_rx_def)
qed

lemma pending_same_rx: "same_rx b c \<Longrightarrow> pending C b q a \<longleftrightarrow> pending C c q a"
proof (induction q arbitrary: b c)
  case Nil
  then show ?case by (auto simp: same_rx_def in_sync_def)
next
  case (Cons x q)
  obtain p pt aad where x: "x = (p, pt, aad)" by (cases x)
  have "same_rx (received C b (n_epoch b) p) (received C c (n_epoch c) p)"
    using Cons.prems by (simp add: same_rx_def received_def)
  from Cons.IH [OF this] same_rx_takes [OF Cons.prems] show ?case
    unfolding x pending.simps by blast
qed

lemma pending_same_tx: "same_tx a c \<Longrightarrow> pending C b q a \<longleftrightarrow> pending C b q c"
  by (induction q arbitrary: b) (auto simp: same_tx_def in_sync_def)

definition session_inv :: "crypto \<Rightarrow> session \<Rightarrow> bool" where
  "session_inv C s \<longleftrightarrow> n_epoch (alice s) = n_epoch (bob s)
     \<and> pending C (bob s) (to_bob s) (alice s) \<and> pending C (alice s) (to_alice s) (bob s)"

lemma session_inv_init: "session_inv C (session_init C seed ctx)"
  by (simp add: session_inv_def session_init_def new_in_sync)

lemma session_inv_step:
  assumes "aead_roundtrip C" "session_step C s t" "session_inv C s"
  shows "session_inv C t"
  using assms(2,3)
proof (induction rule: session_step.induct)
  case (alice_sends rnd s pt aad p a')
  then obtain ct where a': "a' = sent C (alice s) rnd ct" by (auto simp: cifrar_Ok_iff)
  then have "n_epoch a' = n_epoch (alice s)" by (simp add: sent_def)
  with alice_sends pending_send [OF assms(1) alice_sends.hyps] show ?case
    using pending_same_rx [OF same_half(1)] by (simp add: session_inv_def a')
next
  case (bob_sends rnd s pt aad p b')
  then obtain ct where b': "b' = sent C (bob s) rnd ct" by (auto simp: cifrar_Ok_iff)
  then have "n_epoch b' = n_epoch (bob s)" by (simp add: sent_def)
  with bob_sends pending_send [OF assms(1) bob_sends.hyps] show ?case
    using pending_same_rx [OF same_half(1)] by (simp add: session_inv_def b')
next
  case (bob_takes s p pt aad q r b')
  then have "b' = received C (bob s) (n_epoch (bob s)) p" "pending C b' q (alice s)"
    by (auto simp: session_inv_def)
  with bob_takes show ?case
    using pending_same_tx [OF same_half(2)] by (simp add: session_inv_def)
next
  case (alice_takes s p pt aad q r a')
  then have "a' = received C (alice s) (n_epoch (alice s)) p" "pending C a' q (bob s)"
    by (auto simp: session_inv_def)
  with alice_takes show ?case
    using pending_same_tx [OF same_half(2)] by (simp add: session_inv_def)
next
  case (bob_refuses s p aad e b')
  then have "b' = bob s" using descifrar_failed by fastforce
  with bob_refuses show ?case by simp
next
  case (alice_refuses s p aad e a')
  then have "a' = alice s" using descifrar_failed by fastforce
  with alice_refuses show ?case by simp
qed

lemma session_reach_inv:
  assumes "aead_roundtrip C" "session_reach C (session_init C seed ctx) s"
  shows "session_inv C s"
  using assms(2) by induction (auto intro: session_inv_init session_inv_step assms(1))


section \<open>Runs of one side\<close>

text \<open>
  A receiver offered a list of packets: those it accepts, each with the epoch it authenticated
  under, and the channel afterwards; and a sender given a list of messages and nonces.
\<close>

fun receive_run :: "crypto \<Rightarrow> nugget \<Rightarrow> (packet \<times> bytes) list \<Rightarrow> (u64 \<times> packet) list \<times> nugget" where
  "receive_run C n [] = ([], n)"
| "receive_run C n ((p, aad) # xs) =
     (let (r, n') = descifrar_bytes_with_aad C n p aad; (acc, n'') = receive_run C n' xs
      in (if is_ok r then (n_epoch n', p) # acc else acc, n''))"

fun send_run :: "crypto \<Rightarrow> nugget \<Rightarrow> (bytes \<times> bytes \<times> bytes) list \<Rightarrow> (u64 \<times> packet) list \<times> nugget" where
  "send_run C n [] = ([], n)"
| "send_run C n ((rnd, pt, aad) # xs) =
     (let (r, n') = cifrar_bytes_with_aad C rnd n pt aad; (out, n'') = send_run C n' xs
      in (case r of Ok p \<Rightarrow> (n_epoch n, p) # out | _ \<Rightarrow> out, n''))"

lemma is_ok_iff: "is_ok r \<longleftrightarrow> (\<exists>x. r = Ok x)"
  by (cases r) auto

lemma receive_step_cases:
  obtains (accepted) e m where "descifrar_bytes_with_aad C n p aad = (Ok m, received C n e p)"
      "p_sequence p = n_rx_seq n" "n_rx_seq n \<noteq> - 1"
  | (refused) r where "descifrar_bytes_with_aad C n p aad = (r, n)" "\<not> is_ok r"
proof -
  obtain r n' where d: "descifrar_bytes_with_aad C n p aad = (r, n')" by fastforce
  show thesis
  proof (cases "is_ok r")
    case True
    then obtain m where "r = Ok m" by (auto simp: is_ok_iff)
    with d accepted show thesis by (auto simp: descifrar_Ok_iff)
  next
    case False
    with d descifrar_failed refused show thesis by blast
  qed
qed

lemma send_step_cases:
  obtains (emitted) p ct where "cifrar_bytes_with_aad C rnd n pt aad = (Ok p, sent C n rnd ct)"
      "p = v2_packet (aad_flag aad) (n_epoch n) (n_tx_seq n) rnd ct" "n_tx_seq n \<noteq> - 1"
  | (failed) r where "cifrar_bytes_with_aad C rnd n pt aad = (r, n)" "\<not> is_ok r"
proof -
  obtain r n' where d: "cifrar_bytes_with_aad C rnd n pt aad = (r, n')" by fastforce
  show thesis
  proof (cases "is_ok r")
    case True
    then obtain p where "r = Ok p" by (auto simp: is_ok_iff)
    with d emitted show thesis by (auto simp: cifrar_Ok_iff)
  next
    case False
    with d cifrar_failed failed show thesis by blast
  qed
qed

text \<open>The sequences accepted, or sent, count up one by one from the channel's counter.\<close>

definition counts_from :: "u64 \<Rightarrow> (u64 \<times> packet) list \<Rightarrow> u64 \<Rightarrow> bool" where
  "counts_from s xs t \<longleftrightarrow> map (unat \<circ> p_sequence \<circ> snd) xs = [unat s..<unat s + length xs] \<and> unat t = unat s + length xs"

lemma counts_from_Nil: "counts_from s [] s"
  by (simp add: counts_from_def)

lemma counts_from_Cons: "s \<noteq> - 1 \<Longrightarrow> p_sequence p = s \<Longrightarrow> counts_from (s + 1) xs t \<Longrightarrow> counts_from s ((e, p) # xs) t"
  by (simp add: counts_from_def unat_Suc upt_conv_Cons del: upt_Suc)

lemma receive_run_counts: "receive_run C n xs = (acc, n') \<Longrightarrow> counts_from (n_rx_seq n) acc (n_rx_seq n')"
proof (induction xs arbitrary: n acc)
  case Nil
  then show ?case by (simp add: counts_from_Nil)
next
  case (Cons x xs)
  obtain p aad where x: "x = (p, aad)" by (cases x)
  show ?case
  proof (cases rule: receive_step_cases [where C = C and n = n and p = p and aad = aad])
    case (accepted e m)
    obtain acc' where r: "receive_run C (received C n e p) xs = (acc', n')" "acc = (e, p) # acc'"
      using Cons.prems accepted by (auto simp: x split: prod.splits)
    from Cons.IH [OF r(1)] accepted show ?thesis
      by (auto simp: r(2) received_def intro: counts_from_Cons)
  next
    case (refused r)
    with Cons show ?thesis by (auto simp: x split: prod.splits)
  qed
qed

lemma send_run_counts: "send_run C n xs = (out, n') \<Longrightarrow> counts_from (n_tx_seq n) out (n_tx_seq n')"
proof (induction xs arbitrary: n out)
  case Nil
  then show ?case by (simp add: counts_from_Nil)
next
  case (Cons x xs)
  obtain rnd pt aad where x: "x = (rnd, pt, aad)" by (cases x)
  show ?case
  proof (cases rule: send_step_cases [where C = C and rnd = rnd and n = n and pt = pt and aad = aad])
    case (emitted p ct)
    obtain out' where r: "send_run C (sent C n rnd ct) xs = (out', n')" "out = (n_epoch n, p) # out'"
      using Cons.prems emitted by (auto simp: x split: prod.splits)
    from Cons.IH [OF r(1)] emitted show ?thesis
      by (auto simp: r(2) sent_def intro: counts_from_Cons)
  next
    case (failed r)
    with Cons show ?thesis by (cases r) (auto simp: x split: prod.splits)
  qed
qed

section \<open>Transcripts\<close>

text \<open>The bytes hashed for one entry, the hash after a list of entries, and what an entry records.\<close>

definition entry_input :: "bytes \<Rightarrow> u64 \<times> packet \<Rightarrow> bytes" where
  "entry_input h x = ascii ''CryptoNugget:Transcript:v1'' @ h @ u64_to_be (fst x)
     @ u64_to_be (p_sequence (snd x)) @ p_nonce (snd x)
     @ drop (length (p_ciphertext (snd x)) - TAG_LEN) (p_ciphertext (snd x))"

definition transcript :: "crypto \<Rightarrow> bytes \<Rightarrow> (u64 \<times> packet) list \<Rightarrow> bytes" where
  "transcript C h xs = foldl (\<lambda>h x. sha256 C (entry_input h x)) h xs"

fun transcript_inputs :: "crypto \<Rightarrow> bytes \<Rightarrow> (u64 \<times> packet) list \<Rightarrow> bytes set" where
  "transcript_inputs C h [] = {}"
| "transcript_inputs C h (x # xs) = insert (entry_input h x) (transcript_inputs C (sha256 C (entry_input h x)) xs)"

definition entry_digest :: "u64 \<times> packet \<Rightarrow> u64 \<times> u64 \<times> bytes \<times> bytes" where
  "entry_digest x = (fst x, p_sequence (snd x), p_nonce (snd x),
     drop (length (p_ciphertext (snd x)) - TAG_LEN) (p_ciphertext (snd x)))"

lemma update_transcript_entry:
  "update_transcript C h e (p_sequence p) (p_nonce p) (p_ciphertext p) = sha256 C (entry_input h (e, p))"
  by (simp add: update_transcript_def entry_input_def)

lemma transcript_simps:
  "transcript C h [] = h" "transcript C h (x # xs) = transcript C (sha256 C (entry_input h x)) xs"
  "transcript C h (xs @ [x]) = sha256 C (entry_input (transcript C h xs) x)"
  by (simp_all add: transcript_def)

lemma transcript_inputs_snoc:
  "transcript_inputs C h (xs @ [x]) = insert (entry_input (transcript C h xs) x) (transcript_inputs C h xs)"
  by (induction xs arbitrary: h) (auto simp: transcript_simps)

lemma length_transcript: "hash_lengths C \<Longrightarrow> length h = 32 \<Longrightarrow> length (transcript C h xs) = 32"
  by (cases xs rule: rev_cases) (simp_all add: transcript_simps hash_lengthsD)

lemma entry_input_inject:
  assumes "length h = length h'" "length (p_nonce (snd x)) = length (p_nonce (snd y))" "entry_input h x = entry_input h' y"
  shows "h = h' \<and> entry_digest x = entry_digest y"
  using assms by (auto simp: entry_input_def entry_digest_def be_inject)

lemma transcript_inject:
  assumes C: "hash_lengths C" "length h = 32"
    and coll: "inj_on (sha256 C) (transcript_inputs C h xs \<union> transcript_inputs C h ys)"
    and fresh: "h \<notin> sha256 C ` (transcript_inputs C h xs \<union> transcript_inputs C h ys)"
    and wf: "\<forall>x \<in> set xs \<union> set ys. length (p_nonce (snd x)) = 12"
    and eq: "transcript C h xs = transcript C h ys"
  shows "map entry_digest xs = map entry_digest ys"
  using coll fresh wf eq
proof (induction xs arbitrary: ys rule: rev_induct)
  case Nil
  then show ?case
    by (cases ys rule: rev_cases) (auto simp: transcript_simps transcript_inputs_snoc)
next
  case (snoc x xs)
  show ?case
  proof (cases ys rule: rev_cases)
    case Nil
    with snoc.prems show ?thesis by (auto simp: transcript_simps transcript_inputs_snoc)
  next
    case ys: (snoc ys' y)
    from snoc.prems(4) have "sha256 C (entry_input (transcript C h xs) x) = sha256 C (entry_input (transcript C h ys') y)"
      by (simp add: ys transcript_simps)
    then have "entry_input (transcript C h xs) x = entry_input (transcript C h ys') y"
      by (rule inj_onD [OF snoc.prems(1)]) (simp_all add: ys transcript_inputs_snoc)
    then have "transcript C h xs = transcript C h ys' \<and> entry_digest x = entry_digest y"
      by (rule entry_input_inject [rotated 2]) (use snoc.prems(3) C in \<open>simp_all add: ys length_transcript\<close>)
    moreover have "map entry_digest xs = map entry_digest ys'"
    proof (rule snoc.IH)
      show "inj_on (sha256 C) (transcript_inputs C h xs \<union> transcript_inputs C h ys')"
        by (rule inj_on_subset [OF snoc.prems(1)]) (auto simp: ys transcript_inputs_snoc)
      show "h \<notin> sha256 C ` (transcript_inputs C h xs \<union> transcript_inputs C h ys')"
        using snoc.prems(2) by (auto simp: ys transcript_inputs_snoc)
    qed (use calculation snoc.prems(3) in \<open>auto simp: ys\<close>)
    ultimately show ?thesis by (simp add: ys)
  qed
qed


lemma receive_run_transcript:
  "receive_run C n xs = (acc, n') \<Longrightarrow> n_rx_transcript_hash n' = transcript C (n_rx_transcript_hash n) acc
     \<and> snd ` set acc \<subseteq> fst ` set xs"
proof (induction xs arbitrary: n acc)
  case Nil
  then show ?case by (simp add: transcript_simps)
next
  case (Cons x xs)
  obtain p aad where x: "x = (p, aad)" by (cases x)
  show ?case
  proof (cases rule: receive_step_cases [where C = C and n = n and p = p and aad = aad])
    case (accepted e m)
    obtain acc' where r: "receive_run C (received C n e p) xs = (acc', n')" "acc = (e, p) # acc'"
      using Cons.prems accepted by (auto simp: x split: prod.splits)
    from Cons.IH [OF r(1)] show ?thesis
      by (auto simp: r(2) x received_def transcript_simps update_transcript_entry)
  next
    case (refused r)
    then have "receive_run C n xs = (acc, n')"
      using Cons.prems by (auto simp: x split: prod.splits)
    from Cons.IH [OF this] show ?thesis by auto
  qed
qed

lemma send_run_transcript:
  "send_run C n xs = (out, n') \<Longrightarrow> n_tx_transcript_hash n' = transcript C (n_tx_transcript_hash n) out
     \<and> (p_nonce \<circ> snd) ` set out \<subseteq> fst ` set xs"
proof (induction xs arbitrary: n out)
  case Nil
  then show ?case by (simp add: transcript_simps)
next
  case (Cons x xs)
  obtain rnd pt aad where x: "x = (rnd, pt, aad)" by (cases x)
  show ?case
  proof (cases rule: send_step_cases [where C = C and rnd = rnd and n = n and pt = pt and aad = aad])
    case (emitted p ct)
    obtain out' where r: "send_run C (sent C n rnd ct) xs = (out', n')" "out = (n_epoch n, p) # out'"
      using Cons.prems emitted by (auto simp: x split: prod.splits)
    have "n_tx_transcript_hash (sent C n rnd ct) = sha256 C (entry_input (n_tx_transcript_hash n) (n_epoch n, p))"
      using update_transcript_entry [of C _ "n_epoch n" p] by (simp add: sent_def emitted(2))
    with Cons.IH [OF r(1)] emitted(2) show ?thesis
      by (auto simp: r(2) x transcript_simps)
  next
    case (failed r)
    then have "send_run C n xs = (out, n')"
      using Cons.prems by (cases r) (auto simp: x split: prod.splits)
    from Cons.IH [OF this] show ?thesis by auto
  qed
qed

section \<open>Properties\<close>

text \<open>
  C1: the ordered channel delivers. Start Alice and Bob from the same seed and context and let them
  send, receive in order and refuse foreign packets in any interleaving, both directions at once.
  In every state so reached, the packet at the head of either queue opens to exactly what was put
  into it; and when a queue is drained, the transcript hash the receiver computed equals the one
  the sender computed.
\<close>

theorem session_delivery:
  assumes "aead_roundtrip C" and "session_reach C (session_init C seed ctx) s"
  shows "(\<forall>p pt aad q. to_bob s = (p, pt, aad) # q \<longrightarrow> fst (descifrar_bytes_with_aad C (bob s) p aad) = Ok pt)
    \<and> (\<forall>p pt aad q. to_alice s = (p, pt, aad) # q \<longrightarrow> fst (descifrar_bytes_with_aad C (alice s) p aad) = Ok pt)
    \<and> (to_bob s = [] \<longrightarrow> fst (transcript_hashes (alice s)) = snd (transcript_hashes (bob s)))
    \<and> (to_alice s = [] \<longrightarrow> fst (transcript_hashes (bob s)) = snd (transcript_hashes (alice s)))"
  using session_reach_inv [OF assms] by (auto simp: session_inv_def transcript_hashes_def in_sync_def)

lemma toy_sends:
  assumes "\<not> n_requires_resume_ack n" "n_tx_seq n \<noteq> - 1" "length aad < 2 ^ 32"
  shows "\<exists>p n'. cifrar_bytes_with_aad toy rnd n pt aad = (Ok p, n')"
proof -
  obtain ia where "build_internal_aad_v2_with_epoch (aad_flag aad) (n_tx_seq n) aad (n_epoch n) = Ok ia"
    using build_aad_outcomes(1,3) assms(3) by (metis leD outcome.exhaust)
  moreover obtain ct where "aead_enc toy (n_tx_key n) rnd ia pt = Some ct"
    by (simp add: toy_def toy_enc_def)
  ultimately show ?thesis using assms by (auto simp: cifrar_Ok_iff)
qed

theorem session_delivery_witness:
  "\<exists>s p. session_reach toy (session_init toy sample_seed []) s \<and> to_bob s = [(p, [104, 105], [7])]
     \<and> fst (descifrar_bytes_with_aad toy (bob s) p [7]) = Ok [104, 105]"
proof -
  let ?s = "session_init toy sample_seed []"
  have "\<not> n_requires_resume_ack (alice ?s)" "n_tx_seq (alice ?s) \<noteq> - 1" "to_bob ?s = []"
    by (simp_all add: session_init_def new_with_context_def Let_def)
  with toy_sends [of "alice ?s" "[7]" "replicate 12 1" "[104, 105]"]
  obtain p a' where "cifrar_bytes_with_aad toy (replicate 12 1) (alice ?s) [104, 105] [7] = (Ok p, a')"
    by auto
  from session_step.alice_sends [OF this] \<open>to_bob ?s = []\<close>
  obtain s where s: "session_reach toy ?s s" "to_bob s = [(p, [104, 105], [7])]"
    using session_reach.step [OF session_reach.start] by fastforce
  with session_delivery [OF toy_aead_roundtrip s(1)] show ?thesis by auto
qed

text \<open>
  C32: a failed operation leaves the channel as it was. Whatever packet or message is offered, either
  the call succeeds or key, counters, epoch and transcripts are untouched; and neither panics.
\<close>

theorem ordered_failure_keeps_state:
  "(is_ok (fst (descifrar_bytes_with_aad C n pkt aad)) \<or> snd (descifrar_bytes_with_aad C n pkt aad) = n)
   \<and> (is_ok (fst (cifrar_bytes_with_aad C rnd n pt aad)) \<or> snd (cifrar_bytes_with_aad C rnd n pt aad) = n)
   \<and> fst (descifrar_bytes_with_aad C n pkt aad) \<noteq> Panic \<and> fst (cifrar_bytes_with_aad C rnd n pt aad) \<noteq> Panic"
  using descifrar_failed cifrar_failed operations_not_Panic by (metis prod.collapse)

text \<open>
  C19: in order, exactly once. Offered any packets whatever, a receiver accepts packets whose
  sequence numbers are consecutive from its counter, without gap or repetition, and its counter
  ends where they end; a sender's packets are numbered in the same way. No assumption on the
  cryptography is needed, and the counters do not wrap.
\<close>

theorem ordered_exactly_once:
  "map (unat \<circ> p_sequence \<circ> snd) (fst (receive_run C n xs))
     = [unat (n_rx_seq n)..<unat (n_rx_seq (snd (receive_run C n xs)))]
   \<and> map (unat \<circ> p_sequence \<circ> snd) (fst (send_run C n ys))
     = [unat (n_tx_seq n)..<unat (n_tx_seq (snd (send_run C n ys)))]"
  using receive_run_counts [of C n xs] send_run_counts [of C n ys]
  by (cases "receive_run C n xs"; cases "send_run C n ys") (auto simp: counts_from_def)


text \<open>A channel and a packet of it, for the witnesses.\<close>

definition sample_nugget :: "u64 \<Rightarrow> nugget" where
  "sample_nugget e = \<lparr>n_tx_key = replicate 32 1, n_rx_key = replicate 32 1, n_tx_seq = 4, n_rx_seq = 4, n_epoch = e,
     n_tx_transcript_hash = replicate 32 0, n_rx_transcript_hash = replicate 32 0, n_context = [],
     n_requires_resume_ack = False\<rparr>"

definition sample_packet_at :: "u64 \<Rightarrow> packet" where
  "sample_packet_at e = v2_packet 0 e 4 (replicate 12 3) (104 # replicate 16 (if e = 0 then 115 else 160 + 5 * ucast e))"

lemma sample_sync: "in_sync (sample_nugget e) (sample_nugget f)"
  by (simp add: in_sync_def sample_nugget_def)

lemma sample_seals:
  "\<exists>n'. cifrar_bytes_with_aad toy (replicate 12 3) (sample_nugget 0) [104] [] = (Ok (sample_packet_at 0), n')"
  "\<exists>n'. cifrar_bytes_with_aad toy (replicate 12 3) (sample_nugget 1) [104] [] = (Ok (sample_packet_at 1), n')"
  "\<exists>n'. cifrar_bytes_with_aad toy (replicate 12 3) (sample_nugget 2) [104] [] = (Ok (sample_packet_at 2), n')"
proof -
  have "fst (cifrar_bytes_with_aad toy (replicate 12 3) (sample_nugget 0) [104] []) = Ok (sample_packet_at 0)"
    "fst (cifrar_bytes_with_aad toy (replicate 12 3) (sample_nugget 1) [104] []) = Ok (sample_packet_at 1)"
    "fst (cifrar_bytes_with_aad toy (replicate 12 3) (sample_nugget 2) [104] []) = Ok (sample_packet_at 2)"
    by code_simp+
  then show
    "\<exists>n'. cifrar_bytes_with_aad toy (replicate 12 3) (sample_nugget 0) [104] [] = (Ok (sample_packet_at 0), n')"
    "\<exists>n'. cifrar_bytes_with_aad toy (replicate 12 3) (sample_nugget 1) [104] [] = (Ok (sample_packet_at 1), n')"
    "\<exists>n'. cifrar_bytes_with_aad toy (replicate 12 3) (sample_nugget 2) [104] [] = (Ok (sample_packet_at 2), n')"
    by (metis prod.collapse)+
qed

lemma sample_run:
  "fst (send_run toy (sample_nugget 0) [(replicate 12 3, [104], [])]) = [(0, sample_packet_at 0)]"
  "fst (receive_run toy (sample_nugget 0) [(sample_packet_at 0, [])]) = [(0, sample_packet_at 0)]"
  by code_simp+

text \<open>
  C25: What equal transcripts mean. Let Alice send and Bob receive, from channels in step. If SHA-256 has
  no collision among the strings the two runs hash, and none of them hashes to the initial value, then
  equal final hashes imply that the packets Bob accepted and the packets Alice sent agree in number and
  order and, one by one, in epoch, sequence, nonce and tag. Version, flags and the ciphertext before the
  tag are not part of the transcript.
\<close>

theorem transcript_audit:
  assumes "hash_lengths C" and "in_sync a b" and "length (n_tx_transcript_hash a) = 32"
    and "send_run C a msgs = (out, a')" and "receive_run C b pkts = (acc, b')"
    and "\<forall>m \<in> set msgs. length (fst m) = 12" and "\<forall>x \<in> set pkts. length (p_nonce (fst x)) = 12"
    and "inj_on (sha256 C) (transcript_inputs C (n_tx_transcript_hash a) out
           \<union> transcript_inputs C (n_tx_transcript_hash a) acc)"
    and "n_tx_transcript_hash a \<notin> sha256 C ` (transcript_inputs C (n_tx_transcript_hash a) out
           \<union> transcript_inputs C (n_tx_transcript_hash a) acc)"
    and "fst (transcript_hashes a') = snd (transcript_hashes b')"
  shows "map entry_digest out = map entry_digest acc"
proof (rule transcript_inject [OF assms(1,3,8,9)])
  note s = send_run_transcript [OF assms(4)] and r = receive_run_transcript [OF assms(5)]
  show "\<forall>x \<in> set out \<union> set acc. length (p_nonce (snd x)) = 12"
    using s r assms(6,7) by fastforce
  show "transcript C (n_tx_transcript_hash a) out = transcript C (n_tx_transcript_hash a) acc"
    using s r assms(2,10) by (simp add: transcript_hashes_def in_sync_def)
qed

theorem transcript_audit_witness:
  "\<exists>a' b'. send_run toy (sample_nugget 0) [(replicate 12 3, [104], [])] = ([(0, sample_packet_at 0)], a')
     \<and> receive_run toy (sample_nugget 0) [(sample_packet_at 0, [])] = ([(0, sample_packet_at 0)], b')
     \<and> map entry_digest [(0, sample_packet_at 0)] = map entry_digest [(0, sample_packet_at 0)]"
proof -
  let ?n = "sample_nugget 0" and ?x = "(0, sample_packet_at 0)"
  obtain a' b' where runs: "send_run toy ?n [(replicate 12 3, [104], [])] = ([?x], a')"
    "receive_run toy ?n [(sample_packet_at 0, [])] = ([?x], b')"
    using sample_run by (metis prod.collapse)
  have h: "n_tx_transcript_hash ?n = replicate 32 0" "n_rx_transcript_hash ?n = replicate 32 0"
    by (simp_all add: sample_nugget_def)
  have nonce: "length (p_nonce (sample_packet_at 0)) = 12" by (simp add: sample_packet_at_def)
  have ne: "replicate 32 0 \<noteq> sha256 toy (entry_input (replicate 32 0) ?x)" by code_simp
  have eq: "fst (transcript_hashes a') = snd (transcript_hashes b')"
    using send_run_transcript [OF runs(1)] receive_run_transcript [OF runs(2)] h by (simp add: transcript_hashes_def)
  have "map entry_digest [?x] = map entry_digest [?x]"
    by (rule transcript_audit [OF toy_hash_lengths sample_sync _ runs _ _ _ _ eq])
      (use nonce ne in \<open>simp_all add: h\<close>)
  with runs show ?thesis by blast
qed

text \<open>
  C20: one export of the peer is followed. A receiver at epoch \<open>e\<close> opens a packet its peer sealed at
  epoch \<open>e + 1\<close>, provided the packet does not also open under the old epoch's data, moves to the new
  epoch and stays in step; this holds at every epoch.
\<close>

theorem epoch_transition:
  assumes "aead_roundtrip C" and "in_sync a b" and "n_epoch b \<noteq> - 1" and "n_epoch a = n_epoch b + 1"
    and "cifrar_bytes_with_aad C rnd a pt aad = (Ok p, a')" and "rejects C (n_rx_key b) p aad (n_epoch b)"
  shows "\<exists>b'. descifrar_bytes_with_aad C b p aad = (Ok pt, b') \<and> n_epoch b' = n_epoch a \<and> in_sync a' b'"
  by (rule deliver_next_epoch [OF assms])

theorem epoch_transition_witness:
  "\<exists>a' b'. cifrar_bytes_with_aad toy (replicate 12 3) (sample_nugget 1) [104] [] = (Ok (sample_packet_at 1), a')
     \<and> descifrar_bytes_with_aad toy (sample_nugget 0) (sample_packet_at 1) [] = (Ok [104], b')
     \<and> n_epoch b' = 1 \<and> in_sync a' b'"
proof -
  obtain a' where a': "cifrar_bytes_with_aad toy (replicate 12 3) (sample_nugget 1) [104] [] = (Ok (sample_packet_at 1), a')"
    using sample_seals by blast
  have "rejects toy (n_rx_key (sample_nugget 0)) (sample_packet_at 1) [] (n_epoch (sample_nugget 0))" by code_simp
  from epoch_transition [OF toy_aead_roundtrip sample_sync _ _ a' this] a' show ?thesis
    by (auto simp: sample_nugget_def)
qed

text \<open>
  Associated data is bound only if the sender used some. A packet sealed with empty associated
  data opens for the receiver in step under every associated data of up to 4 GB, not only under
  the empty one: the flag that would include the receiver's data is taken from the packet.
\<close>

theorem ordered_empty_aad_opens_under_any:
  assumes "aead_roundtrip C" and "in_sync a b" and "n_epoch a = n_epoch b"
    and "cifrar_bytes_with_aad C rnd a pt [] = (Ok p, a')" and "length aad < 2 ^ 32"
  shows "fst (descifrar_bytes_with_aad C b p aad) = Ok pt"
proof -
  have "p_flags p = 0" "p_version p = 2" using assms(4) by (auto simp: cifrar_Ok_iff aad_flag_def)
  with assms(5) have "authenticate C b p aad = authenticate C b p []"
    by (simp add: authenticate_def open_with_epochs_flag_clear [of p aad] del: open_with_epochs.simps)
  then have "descifrar_bytes_with_aad C b p aad = descifrar_bytes_with_aad C b p []"
    by (simp only: descifrar_bytes_with_aad_def)
  with deliver [OF assms(1-4)] show ?thesis by simp
qed

theorem ordered_empty_aad_opens_under_any_witness:
  "fst (descifrar_bytes_with_aad toy (sample_nugget 0) (sample_packet_at 0) [9, 9]) = Ok [104]"
proof -
  obtain a' where a': "cifrar_bytes_with_aad toy (replicate 12 3) (sample_nugget 0) [104] [] = (Ok (sample_packet_at 0), a')"
    using sample_seals by blast
  show ?thesis
    by (rule ordered_empty_aad_opens_under_any [OF toy_aead_roundtrip sample_sync _ a']) simp_all
qed

end
