(* ===== verification/Envelope.thy ===== *)
theory Envelope
  imports Ordered
begin

text \<open>
  \<open>src/modes/envelope.rs\<close>: the stateless envelope. Each message is sealed under a key derived from
  the root key and the message's random nonce, which \<open>seal\<close> takes as an argument here.
\<close>

record envelope =
  e_root_key :: bytes

definition new_envelope_with_context :: "crypto \<Rightarrow> master_seed \<Rightarrow> bytes \<Rightarrow> envelope" where
  "new_envelope_with_context C seed context =
     (let salt = ascii ''CryptoNugget:envelope:v1'' @ [0] @ context
      in \<lparr>e_root_key = hkdf C salt (seed_bytes seed) (ascii ''stateless-envelope-root'') 32\<rparr>)"

definition new_envelope :: "crypto \<Rightarrow> master_seed \<Rightarrow> envelope" where
  "new_envelope C seed = new_envelope_with_context C seed DEFAULT_CONTEXT"

definition derive_message_key :: "crypto \<Rightarrow> envelope \<Rightarrow> bytes \<Rightarrow> bytes" where
  "derive_message_key C env nonce = hkdf C (ascii ''CryptoNugget:envelope:message:v1'') (e_root_key env) nonce 32"

definition envelope_seal :: "crypto \<Rightarrow> bytes \<Rightarrow> envelope \<Rightarrow> bytes \<Rightarrow> bytes \<Rightarrow> packet outcome" where
  "envelope_seal C rnd env plaintext aad =
     (let flags = (if aad = [] then 0 else FLAG_AAD_PRESENT)
      in bindO (build_internal_aad_v2 flags 0 aad) (\<lambda>internal_aad.
         bindO (ok_or Cifrado (aead_enc C (derive_message_key C env rnd) rnd internal_aad plaintext)) (\<lambda>ciphertext.
           Ok \<lparr>p_version = WIRE_VERSION_V2, p_flags = flags, p_node_id = 0, p_epoch = 0, p_sequence = 0,
               p_timestamp_ms = 0, p_nonce = rnd, p_ciphertext = ciphertext\<rparr>)))"

definition envelope_open :: "crypto \<Rightarrow> envelope \<Rightarrow> packet \<Rightarrow> bytes \<Rightarrow> bytes outcome" where
  "envelope_open C env packet aad =
     (if p_version packet \<noteq> WIRE_VERSION_V2 then Err (VersionNoSoportada (p_version packet))
      else bindO (build_internal_aad_v2 (p_flags packet) (p_sequence packet) aad) (\<lambda>internal_aad.
        ok_or Autenticacion
          (aead_dec C (derive_message_key C env (p_nonce packet)) (p_nonce packet) internal_aad (p_ciphertext packet))))"

lemma envelope_seal_Ok:
  "envelope_seal C rnd env pt aad = Ok p \<longleftrightarrow>
     (\<exists>ia ct. build_internal_aad_v2 (aad_flag aad) 0 aad = Ok ia
        \<and> aead_enc C (derive_message_key C env rnd) rnd ia pt = Some ct
        \<and> p = v2_packet (aad_flag aad) 0 0 rnd ct)"
  by (auto simp: envelope_seal_def Let_def bindO_iff aad_flag_def v2_packet_def)

lemma build_aad_v2_outcomes:
  "build_internal_aad_v2 f s a = Err e \<longleftrightarrow> 2 ^ 32 \<le> length a \<and> e = AadDemasiadoLargo"
  "build_internal_aad_v2 f s a \<noteq> Panic"
  using build_aad_outcomes by (auto simp: build_internal_aad_v2_def)

lemma envelope_open_errors:
  "envelope_open C env p aad \<noteq> Panic"
  "envelope_open C env p aad = Err e \<Longrightarrow> e = Autenticacion \<or> e = VersionNoSoportada (p_version p) \<and> p_version p \<noteq> 2
     \<or> e = AadDemasiadoLargo \<and> 2 ^ 32 \<le> length aad"
  by (auto simp: envelope_open_def bindO_Err_iff bindO_Panic_iff build_aad_v2_outcomes split: if_splits)

section \<open>Properties\<close>

text \<open>
  Envelopes open, in any order, any number of times, also after transport as bytes. Whatever is
  sealed serializes to bytes that parse back and open, under the same associated data, to exactly
  the plaintext; the envelope has no state that a lost or repeated message could disturb.
\<close>

theorem envelope_wire_roundtrip:
  assumes "aead_roundtrip C" and "aead_length C" and "length rnd = 12"
    and "envelope_seal C rnd env pt aad = Ok p"
  shows "bindO (from_bytes (to_bytes p)) (\<lambda>q. envelope_open C env q aad) = Ok pt"
proof -
  from assms(4) obtain ia ct where s: "build_internal_aad_v2 (aad_flag aad) 0 aad = Ok ia"
    "aead_enc C (derive_message_key C env rnd) rnd ia pt = Some ct" "p = v2_packet (aad_flag aad) 0 0 rnd ct"
    by (auto simp: envelope_seal_Ok)
  have "wf_packet p" "wire_view p = p"
    using s(3) assms(3) aead_lengthD [OF assms(2) s(2)] by (simp_all add: wf_packet_def wire_view_def v2_packet_def)
  then have "from_bytes (to_bytes p) = Ok p" using from_bytes_to_bytes [of p] by simp
  with s aead_roundtripD [OF assms(1) s(2)] show ?thesis by (simp add: envelope_open_def)
qed

definition sample_envelope :: envelope where
  "sample_envelope = \<lparr>e_root_key = replicate 32 6\<rparr>"

theorem envelope_wire_roundtrip_witness:
  "\<exists>p. envelope_seal toy (replicate 12 2) sample_envelope [104, 105] [7] = Ok p
     \<and> bindO (from_bytes (to_bytes p)) (\<lambda>q. envelope_open toy sample_envelope q [7]) = Ok [104, 105]"
proof -
  obtain p where p: "envelope_seal toy (replicate 12 2) sample_envelope [104, 105] [7] = Ok p"
    by (simp add: envelope_seal_def build_internal_aad_v2_def build_internal_aad_v2_with_epoch_def
        u32_try_from_def toy_def toy_enc_def)
  from envelope_wire_roundtrip [OF toy_aead_roundtrip toy_aead_length _ p] p show ?thesis by simp
qed

text \<open>The bytes of the layout, written out from the seed and the crates alone.\<close>

definition envelope_key :: "crypto \<Rightarrow> master_seed \<Rightarrow> bytes \<Rightarrow> bytes \<Rightarrow> bytes" where
  "envelope_key C seed context nonce =
     (let root = hkdf_expand C (hkdf_extract C (ascii ''CryptoNugget:envelope:v1'' @ [0] @ context) (seed_bytes seed))
            (ascii ''stateless-envelope-root'') 32
      in hkdf_expand C (hkdf_extract C (ascii ''CryptoNugget:envelope:message:v1'') root) nonce 32)"

definition envelope_bytes :: "crypto \<Rightarrow> master_seed \<Rightarrow> bytes \<Rightarrow> bytes \<Rightarrow> bytes \<Rightarrow> bytes set" where
  "envelope_bytes C seed context aad pt = {[2, flags] @ u64_to_be sequence @ nonce @ ct | flags sequence nonce ct.
     length nonce = 12 \<and> length aad < 2 ^ 32 \<and> aead_enc C (envelope_key C seed context nonce) nonce
       ([2, flags] @ u64_to_be sequence
          @ (if bit flags 0 then u32_to_be (word_of_nat (length aad)) @ aad else [])) pt = Some ct}"

lemma envelope_key_eq: "derive_message_key C (new_envelope_with_context C seed context) nonce = envelope_key C seed context nonce"
  by (simp add: derive_message_key_def new_envelope_with_context_def envelope_key_def hkdf_def Let_def)

lemma flag_bit: "(flags :: u8) AND 1 = 0 \<longleftrightarrow> \<not> bit flags 0"
  by (simp add: and_one_eq bit_0 odd_iff_mod_2_eq_one)

lemma build_v2_Ok: "build_internal_aad_v2 flags sequence aad = Ok ia \<longleftrightarrow> length aad < 2 ^ 32
    \<and> ia = [2, flags] @ u64_to_be sequence @ (if bit flags 0 then u32_to_be (word_of_nat (length aad)) @ aad else [])"
  by (auto simp: build_internal_aad_v2_def build_internal_aad_v2_with_epoch_def bindO_Ok_iff u32_try_from_Some
      flag_bit FLAG_AAD_PRESENT_def WIRE_VERSION_V2_def)

lemma envelope_opens_bytes:
  assumes "aead_sound C" "aead_roundtrip C" "aead_length C"
  shows "bindO (from_bytes bs) (\<lambda>p. envelope_open C (new_envelope_with_context C seed context) p aad) = Ok pt
    \<longleftrightarrow> bs \<in> envelope_bytes C seed context aad pt"
proof
  assume "bindO (from_bytes bs) (\<lambda>p. envelope_open C (new_envelope_with_context C seed context) p aad) = Ok pt"
  then obtain p where p: "from_bytes bs = Ok p" "envelope_open C (new_envelope_with_context C seed context) p aad = Ok pt"
    by (auto simp: bindO_Ok_iff)
  note w = from_bytes_Ok_inverse [OF p(1)]
  from p(2) have v: "p_version p = 2" by (simp add: envelope_open_def split: if_splits)
  then have "bs = [2, p_flags p] @ u64_to_be (p_sequence p) @ p_nonce p @ p_ciphertext p" "length (p_nonce p) = 12"
    using w(1,2) by (simp_all add: to_bytes_def wf_packet_def)
  moreover obtain ia where "build_internal_aad_v2 (p_flags p) (p_sequence p) aad = Ok ia"
    "aead_enc C (envelope_key C seed context (p_nonce p)) (p_nonce p) ia pt = Some (p_ciphertext p)"
    using p(2) v by (auto simp: envelope_open_def bindO_Ok_iff envelope_key_eq aead_exact [OF assms(1,2)])
  ultimately show "bs \<in> envelope_bytes C seed context aad pt"
    unfolding envelope_bytes_def build_v2_Ok by blast
next
  assume "bs \<in> envelope_bytes C seed context aad pt"
  then obtain flags sequence nonce ct ia where b: "bs = [2, flags] @ u64_to_be sequence @ nonce @ ct" "length nonce = 12"
    "build_internal_aad_v2 flags sequence aad = Ok ia" "aead_enc C (envelope_key C seed context nonce) nonce ia pt = Some ct"
    unfolding envelope_bytes_def build_v2_Ok by blast
  let ?p = "v2_packet flags 0 sequence nonce ct"
  have "wf_packet ?p" "wire_view ?p = ?p" "to_bytes ?p = bs"
    using b(1,2) aead_lengthD [OF assms(3) b(4)] by (simp_all add: wf_packet_def wire_view_def v2_packet_def to_bytes_def)
  then have "from_bytes bs = Ok ?p" using from_bytes_to_bytes [of ?p] by simp
  with b(3,4) show "bindO (from_bytes bs) (\<lambda>p. envelope_open C (new_envelope_with_context C seed context) p aad) = Ok pt"
    using aead_roundtripD [OF assms(2) b(4)] by (simp add: envelope_open_def envelope_key_eq v2_packet_def)
qed

lemma envelope_open_Err: "envelope_open C env p aad = Err e \<longleftrightarrow>
    (if p_version p \<noteq> 2 then e = VersionNoSoportada (p_version p)
     else if 2 ^ 32 \<le> length aad then e = AadDemasiadoLargo
     else e = Autenticacion \<and> (\<forall>x. envelope_open C env p aad \<noteq> Ok x))"
proof (cases "p_version p = 2 \<and> length aad < 2 ^ 32")
  case True
  then obtain ia where "build_internal_aad_v2 (p_flags p) (p_sequence p) aad = Ok ia" unfolding build_v2_Ok by blast
  with True have "envelope_open C env p aad = ok_or Autenticacion
      (aead_dec C (derive_message_key C env (p_nonce p)) (p_nonce p) ia (p_ciphertext p))"
    by (simp add: envelope_open_def)
  with True show ?thesis
    by (cases "aead_dec C (derive_message_key C env (p_nonce p)) (p_nonce p) ia (p_ciphertext p)") auto
next
  case False
  have "envelope_open C env p aad = Err AadDemasiadoLargo" if "p_version p = 2" "2 ^ 32 \<le> length aad"
  proof -
    have "build_internal_aad_v2 (p_flags p) (p_sequence p) aad = Err AadDemasiadoLargo"
      using that(2) by (simp only: build_aad_v2_outcomes(1) simp_thms)
    with that(1) show ?thesis by (simp add: envelope_open_def)
  qed
  moreover have "envelope_open C env p aad = Err (VersionNoSoportada (p_version p))" if "p_version p \<noteq> 2"
    using that by (simp add: envelope_open_def)
  ultimately show ?thesis using False by (auto simp: not_less)
qed

text \<open>
  C38: which bytes open, to what. For the envelope of a seed and a context, the bytes that parse and
  open to a plaintext under some associated data are exactly those of the layout: version 2, flags, a
  sequence, a nonce of 12 bytes, and the encryption of that plaintext under the key that HKDF gives for
  seed, context and this nonce, with version, flags, sequence and, when flagged, the length and the
  bytes of the associated data authenticated. Everything the envelope seals is of this form for the
  associated data it was sealed with. Opening never panics; a packet of another version, associated data
  of 2^32 bytes or more, and any other packet that does not open have each their own error.
\<close>

theorem envelope_open_exact:
  assumes "aead_sound C" and "aead_roundtrip C" and "aead_length C" and "env = new_envelope_with_context C seed context"
  shows "(bindO (from_bytes bs) (\<lambda>p. envelope_open C env p aad) = Ok pt \<longleftrightarrow> bs \<in> envelope_bytes C seed context aad pt)
    \<and> (length rnd = 12 \<and> envelope_seal C rnd env pt aad = Ok q \<longrightarrow> to_bytes q \<in> envelope_bytes C seed context aad pt)
    \<and> envelope_open C env p aad \<noteq> Panic
    \<and> (envelope_open C env p aad = Err e \<longleftrightarrow>
         (if p_version p \<noteq> 2 then e = VersionNoSoportada (p_version p)
          else if 2 ^ 32 \<le> length aad then e = AadDemasiadoLargo
          else e = Autenticacion \<and> (\<forall>x. envelope_open C env p aad \<noteq> Ok x)))"
proof (intro conjI impI)
  show opens: "bindO (from_bytes bs) (\<lambda>p. envelope_open C env p aad) = Ok pt \<longleftrightarrow> bs \<in> envelope_bytes C seed context aad pt" for bs
    unfolding assms(4) by (rule envelope_opens_bytes [OF assms(1-3)])
  show "to_bytes q \<in> envelope_bytes C seed context aad pt" if "length rnd = 12 \<and> envelope_seal C rnd env pt aad = Ok q"
    using envelope_wire_roundtrip [OF assms(2,3), of rnd env pt aad q] that unfolding opens [symmetric] by blast
  show "envelope_open C env p aad \<noteq> Panic" by (rule envelope_open_errors)
  show "envelope_open C env p aad = Err e \<longleftrightarrow>
      (if p_version p \<noteq> 2 then e = VersionNoSoportada (p_version p)
       else if 2 ^ 32 \<le> length aad then e = AadDemasiadoLargo
       else e = Autenticacion \<and> (\<forall>x. envelope_open C env p aad \<noteq> Ok x))"
    by (rule envelope_open_Err)
qed

theorem envelope_open_exact_witness:
  "\<exists>q. envelope_seal toy (replicate 12 2) (new_envelope_with_context toy sample_seed []) [104, 105] [7] = Ok q
     \<and> to_bytes q \<in> envelope_bytes toy sample_seed [] [7] [104, 105]"
proof -
  obtain q where q: "envelope_seal toy (replicate 12 2) (new_envelope_with_context toy sample_seed []) [104, 105] [7] = Ok q"
    by (simp add: envelope_seal_def build_internal_aad_v2_def build_internal_aad_v2_with_epoch_def
        u32_try_from_def toy_def toy_enc_def)
  from envelope_open_exact [OF toy_aead_sound toy_aead_roundtrip toy_aead_length refl, of "[]" sample_seed "[]" "[7]" "[104, 105]"
      "replicate 12 2" q q Autenticacion] q show ?thesis by auto
qed

end
