(* ===== verification/Replay.thy ===== *)
theory Replay
  imports Ordered Window
begin

text \<open>
  \<open>src/modes/replay.rs\<close>: the channel with an anti-replay window. Sequence numbers select the nonce,
  a packet is opened once, in any order inside the window. \<open>ReplayWindowChannel\<close> is the first of the
  two receivers that implement the interface \<open>window_impl\<close>.
\<close>

definition MAX_WINDOW :: u64 where "MAX_WINDOW = 128"

record replay_channel =
  rw_tx_key :: bytes
  rw_rx_key :: bytes
  rw_tx_nonce_mask :: bytes
  rw_rx_nonce_mask :: bytes
  rw_tx_seq :: u64
  rw_highest_seen :: "u64 option"
  rw_seen_bitmap :: u128
  rw_window :: u64

definition new_replay_with_context ::
    "crypto \<Rightarrow> master_seed \<Rightarrow> role \<Rightarrow> bytes \<Rightarrow> u64 \<Rightarrow> replay_channel outcome" where
  "new_replay_with_context C seed role context window =
     (if window = 0 \<or> MAX_WINDOW < window then Err ModoInvalido
      else
        (let salt = ascii ''CryptoNugget:replay-window:v1'' @ [0] @ context;
             prk = hkdf_extract C salt (seed_bytes seed);
             key_a = hkdf_expand C prk (ascii ''window-key:a'') 32;
             key_b = hkdf_expand C prk (ascii ''window-key:b'') 32;
             mask_a = hkdf_expand C prk (ascii ''window-mask:a'') NONCE_LEN;
             mask_b = hkdf_expand C prk (ascii ''window-mask:b'') NONCE_LEN;
             (tx_key, rx_key, tx_nonce_mask, rx_nonce_mask) =
               (case role of
                  Initiator \<Rightarrow> (key_a, key_b, mask_a, mask_b)
                | Responder \<Rightarrow> (key_b, key_a, mask_b, mask_a))
         in Ok \<lparr>rw_tx_key = tx_key, rw_rx_key = rx_key, rw_tx_nonce_mask = tx_nonce_mask,
                rw_rx_nonce_mask = rx_nonce_mask, rw_tx_seq = 0, rw_highest_seen = None,
                rw_seen_bitmap = 0, rw_window = window\<rparr>))"

definition new_replay :: "crypto \<Rightarrow> master_seed \<Rightarrow> role \<Rightarrow> u64 \<Rightarrow> replay_channel outcome" where
  "new_replay C seed role window = new_replay_with_context C seed role DEFAULT_CONTEXT window"

definition compute_nonce :: "bytes \<Rightarrow> u64 \<Rightarrow> bytes" where
  "compute_nonce nonce_mask seq =
     (let seq_bytes = u64_to_be seq
      in foldl (\<lambda>nonce i. nonce[4 + i := nonce ! (4 + i) XOR seq_bytes ! i]) nonce_mask [0..<8])"

definition ensure_sequence_is_new :: "replay_channel \<Rightarrow> u64 \<Rightarrow> unit outcome" where
  "ensure_sequence_is_new ch sequence =
     (case rw_highest_seen ch of
        None \<Rightarrow> Ok ()
      | Some highest \<Rightarrow>
          if highest < sequence then Ok ()
          else (let delta = highest - sequence
                in if rw_window ch \<le> delta then Err FueraDeOrden
                   else if rw_seen_bitmap ch AND shl128 1 delta \<noteq> 0 then Err Repetido
                   else Ok ()))"

definition mark_seen :: "replay_channel \<Rightarrow> u64 \<Rightarrow> replay_channel" where
  "mark_seen ch sequence =
     (case rw_highest_seen ch of
        None \<Rightarrow> ch\<lparr>rw_highest_seen := Some sequence, rw_seen_bitmap := 1\<rparr>
      | Some highest \<Rightarrow>
          if highest < sequence then
            (let shift = sequence - highest;
                 bitmap = (if 128 \<le> shift then 1 else shl128 (rw_seen_bitmap ch) shift OR 1);
                 mask = (if rw_window ch = 128 then - 1 else shl128 1 (rw_window ch) - 1)
             in ch\<lparr>rw_seen_bitmap := bitmap AND mask, rw_highest_seen := Some sequence\<rparr>)
          else
            (let delta = highest - sequence
             in ch\<lparr>rw_seen_bitmap := rw_seen_bitmap ch OR shl128 1 delta\<rparr>))"

definition replay_seal :: "crypto \<Rightarrow> replay_channel \<Rightarrow> bytes \<Rightarrow> bytes \<Rightarrow> packet outcome \<times> replay_channel" where
  "replay_seal C ch plaintext aad =
     (let sequence = rw_tx_seq ch
      in case checked_add (rw_tx_seq ch) 1 of
           None \<Rightarrow> (Err Cifrado, ch)
         | Some next_seq \<Rightarrow>
           (let flags = (if aad = [] then 0 else FLAG_AAD_PRESENT)
            in case build_internal_aad_v2 flags sequence aad of
                 Err e \<Rightarrow> (Err e, ch)
               | Panic \<Rightarrow> (Panic, ch)
               | Ok internal_aad \<Rightarrow>
                 (let nonce = compute_nonce (rw_tx_nonce_mask ch) sequence
                  in case aead_enc C (rw_tx_key ch) nonce internal_aad plaintext of
                       None \<Rightarrow> (Err Cifrado, ch)
                     | Some ciphertext \<Rightarrow>
                       (Ok \<lparr>p_version = WIRE_VERSION_V2, p_flags = flags, p_node_id = 0, p_epoch = 0,
                            p_sequence = sequence, p_timestamp_ms = 0, p_nonce = nonce,
                            p_ciphertext = ciphertext\<rparr>, ch\<lparr>rw_tx_seq := next_seq\<rparr>))))"

text \<open>\<open>open\<close> up to the decryption, which reads the channel only, and then the update.\<close>

definition replay_decrypt :: "crypto \<Rightarrow> replay_channel \<Rightarrow> packet \<Rightarrow> bytes \<Rightarrow> bytes outcome" where
  "replay_decrypt C ch packet aad =
     (let expected_nonce = compute_nonce (rw_rx_nonce_mask ch) (p_sequence packet)
      in if p_nonce packet \<noteq> expected_nonce then Err Autenticacion
         else bindO (build_internal_aad_v2 (p_flags packet) (p_sequence packet) aad) (\<lambda>internal_aad.
           ok_or Autenticacion (aead_dec C (rw_rx_key ch) (p_nonce packet) internal_aad (p_ciphertext packet))))"

definition replay_open :: "crypto \<Rightarrow> replay_channel \<Rightarrow> packet \<Rightarrow> bytes \<Rightarrow> bytes outcome \<times> replay_channel" where
  "replay_open C ch packet aad =
     (if p_version packet \<noteq> WIRE_VERSION_V2 then (Err (VersionNoSoportada (p_version packet)), ch)
      else case ensure_sequence_is_new ch (p_sequence packet) of
        Err e \<Rightarrow> (Err e, ch)
      | Panic \<Rightarrow> (Panic, ch)
      | Ok _ \<Rightarrow>
        (case replay_decrypt C ch packet aad of
           Err e \<Rightarrow> (Err e, ch)
         | Panic \<Rightarrow> (Panic, ch)
         | Ok plaintext \<Rightarrow> (Ok plaintext, mark_seen ch (p_sequence packet))))"

text \<open>
  \<open>highest + 1\<close> is checked in a build with overflow checks (a panic) and wraps without them; the
  first argument says which build. \<open>count_ones\<close> is the number of set bits.
\<close>

definition count_ones :: "u128 \<Rightarrow> nat" where
  "count_ones bm = length (filter (bit bm) [0..<128])"

definition missing_in_window_count :: "bool \<Rightarrow> replay_channel \<Rightarrow> nat outcome" where
  "missing_in_window_count overflow_checks ch =
     (case rw_highest_seen ch of
        None \<Rightarrow> Ok 0
      | Some highest \<Rightarrow>
          if overflow_checks \<and> highest = - 1 then Panic
          else (let expected_bits = (ucast (min (highest + 1) (rw_window ch)) :: u32)
                in Ok (unat expected_bits - count_ones (rw_seen_bitmap ch))))"

section \<open>The window\<close>

definition replay_rel :: "u64 \<Rightarrow> replay_channel \<Rightarrow> u64 set \<Rightarrow> bool" where
  "replay_rel w ch S \<longleftrightarrow> rw_window ch = w \<and> window_rel w (rw_highest_seen ch) (rw_seen_bitmap ch) S"

lemma ensure_is_window_check:
  "ensure_sequence_is_new ch q = window_check (rw_window ch) (rw_highest_seen ch) (rw_seen_bitmap ch) q"
  by (simp add: ensure_sequence_is_new_def window_check_def Let_def split: option.splits)

lemma mark_is_window_mark:
  "mark_seen ch q = (let (h, bm) = window_mark (rw_window ch) (rw_highest_seen ch) (rw_seen_bitmap ch) q
     in ch\<lparr>rw_highest_seen := h, rw_seen_bitmap := bm\<rparr>)"
  by (simp add: mark_seen_def window_mark_def window_mask_def Let_def split: option.splits)

interpretation rw: window_impl ensure_sequence_is_new mark_seen "replay_rel w" w for w
proof
  fix s S q
  assume r: "replay_rel w s S"
  then show spec: "ensure_sequence_is_new s q = spec_check w S q"
    using window_check_spec by (simp add: replay_rel_def ensure_is_window_check)
  assume "ensure_sequence_is_new s q = Ok ()"
  with r show "replay_rel w (mark_seen s q) (insert q S)"
    using window_mark_rel [of w "rw_highest_seen s" "rw_seen_bitmap s" S q]
    by (auto simp: replay_rel_def ensure_is_window_check mark_is_window_mark split: prod.splits)
qed

lemma mark_seen_fields [simp]:
  "rw_tx_key (mark_seen ch q) = rw_tx_key ch" "rw_rx_key (mark_seen ch q) = rw_rx_key ch"
  "rw_tx_nonce_mask (mark_seen ch q) = rw_tx_nonce_mask ch" "rw_rx_nonce_mask (mark_seen ch q) = rw_rx_nonce_mask ch"
  "rw_tx_seq (mark_seen ch q) = rw_tx_seq ch" "rw_window (mark_seen ch q) = rw_window ch"
  by (simp_all add: mark_is_window_mark Let_def split: prod.splits)

lemma replay_decrypt_mark [simp]: "replay_decrypt C (mark_seen ch q) p aad = replay_decrypt C ch p aad"
  by (simp add: replay_decrypt_def)

section \<open>Nonces\<close>

lemma length_foldl_update: "length (foldl (\<lambda>n i. n[f i := g n i]) xs is) = length xs"
  by (induction "is" arbitrary: xs) simp_all

lemma length_compute_nonce [simp]: "length (compute_nonce m s) = length m"
  by (simp add: compute_nonce_def Let_def length_foldl_update)

lemma compute_nonce_eq:
  assumes "length m = 12"
  shows "compute_nonce m s = take 4 m @ map2 (XOR) (drop 4 m) (u64_to_be s)"
proof (rule nth_equalityI)
  have upt: "[0..<8] = [0, 1, 2, 3, 4, 5, 6, 7]" by (simp add: upt_conv_Cons)
  fix i assume "i < length (compute_nonce m s)"
  with assms consider "i < 4" | j where "i = 4 + j" "j \<in> {0, 1, 2, 3, 4, 5, 6, 7}"
    using le_Suc_ex [of 4 i] by fastforce
  then show "compute_nonce m s ! i = (take 4 m @ map2 (XOR) (drop 4 m) (u64_to_be s)) ! i"
    using assms by cases (auto simp: compute_nonce_def Let_def upt nth_append)
qed (simp add: assms)

lemma map2_xor_inject:
  "length xs = length ys \<Longrightarrow> length ys = length zs \<Longrightarrow> map2 (XOR) xs ys = map2 (XOR) xs zs \<longleftrightarrow> ys = (zs :: bytes)"
proof (induction xs ys zs rule: list_induct3)
  case (Cons x xs y ys z zs)
  have "x XOR y = x XOR z \<longleftrightarrow> y = z" by (auto simp: bit_eq_iff bit_xor_iff)
  with Cons show ?case by simp
qed simp

text \<open>Under one mask, different sequences have different nonces.\<close>

lemma compute_nonce_inject: "length m = 12 \<Longrightarrow> compute_nonce m s = compute_nonce m t \<longleftrightarrow> s = t"
  by (simp add: compute_nonce_eq map2_xor_inject u64_be.enc_inject)

lemma new_replay_Ok:
  assumes "new_replay_with_context C seed r ctx w = Ok ch"
  shows "0 < w \<and> w \<le> 128 \<and> rw_window ch = w \<and> rw_highest_seen ch = None \<and> rw_tx_seq ch = 0
    \<and> (hash_lengths C \<longrightarrow> length (rw_tx_nonce_mask ch) = 12 \<and> length (rw_rx_nonce_mask ch) = 12)"
  using assms by (auto simp: new_replay_with_context_def Let_def MAX_WINDOW_def NONCE_LEN_def hash_lengthsD
      word_gt_0 not_less split: if_splits role.splits)

section \<open>What one operation does, and runs\<close>

lemma replay_seal_Ok_iff:
  "replay_seal C ch pt aad = (Ok p, ch') \<longleftrightarrow> rw_tx_seq ch \<noteq> - 1 \<and>
     (\<exists>ia ct. build_internal_aad_v2 (aad_flag aad) (rw_tx_seq ch) aad = Ok ia
        \<and> aead_enc C (rw_tx_key ch) (compute_nonce (rw_tx_nonce_mask ch) (rw_tx_seq ch)) ia pt = Some ct
        \<and> p = v2_packet (aad_flag aad) 0 (rw_tx_seq ch) (compute_nonce (rw_tx_nonce_mask ch) (rw_tx_seq ch)) ct
        \<and> ch' = ch\<lparr>rw_tx_seq := rw_tx_seq ch + 1\<rparr>)"
  by (auto simp: replay_seal_def Let_def checked_add_1_Some checked_add_1_None v2_packet_def aad_flag_def
      split: option.splits outcome.splits)

lemma replay_seal_failed: "replay_seal C ch pt aad = (r, ch') \<Longrightarrow> \<not> is_ok r \<Longrightarrow> ch' = ch"
  by (auto simp: replay_seal_def Let_def split: option.splits outcome.splits if_splits)

definition replay_genuine :: "crypto \<Rightarrow> replay_channel \<Rightarrow> packet \<times> bytes \<Rightarrow> bool" where
  "replay_genuine C ch = (\<lambda>(p, aad). p_version p = WIRE_VERSION_V2 \<and> is_ok (replay_decrypt C ch p aad))"

lemma replay_genuine_mark [simp]: "replay_genuine C (mark_seen ch q) = replay_genuine C ch"
  by (auto simp: replay_genuine_def)

lemma replay_open_Ok_iff:
  "replay_open C ch p aad = (Ok m, ch') \<longleftrightarrow> p_version p = 2 \<and> ensure_sequence_is_new ch (p_sequence p) = Ok ()
     \<and> replay_decrypt C ch p aad = Ok m \<and> ch' = mark_seen ch (p_sequence p)"
  by (auto simp: replay_open_def split: outcome.splits)

lemma replay_open_failed: "replay_open C ch p aad = (r, ch') \<Longrightarrow> \<not> is_ok r \<Longrightarrow> ch' = ch"
  by (auto simp: replay_open_def split: outcome.splits if_splits) (metis is_ok.simps(1))

lemma replay_not_Panic:
  "fst (replay_seal C ch pt aad) \<noteq> Panic" "fst (replay_open C ch p aad) \<noteq> Panic"
  by (auto simp: replay_seal_def replay_open_def replay_decrypt_def ensure_sequence_is_new_def Let_def bindO_Panic_iff
      build_internal_aad_v2_def build_aad_outcomes split: option.splits outcome.splits if_splits)

lemma replay_open_genuine:
  "is_ok (fst (replay_open C ch p aad)) \<longleftrightarrow> ensure_sequence_is_new ch (p_sequence p) = Ok () \<and> replay_genuine C ch (p, aad)"
  by (auto simp: replay_open_def replay_genuine_def split: outcome.splits)

text \<open>A receiver offered a list of packets, and a sender given a list of messages.\<close>

fun replay_run :: "crypto \<Rightarrow> replay_channel \<Rightarrow> (packet \<times> bytes) list \<Rightarrow> packet list \<times> replay_channel" where
  "replay_run C ch [] = ([], ch)"
| "replay_run C ch ((p, aad) # xs) =
     (let (r, ch') = replay_open C ch p aad; (acc, ch'') = replay_run C ch' xs
      in (if is_ok r then p # acc else acc, ch''))"

fun replay_seal_run :: "crypto \<Rightarrow> replay_channel \<Rightarrow> (bytes \<times> bytes) list
    \<Rightarrow> (packet \<times> bytes \<times> bytes) list \<times> replay_channel" where
  "replay_seal_run C ch [] = ([], ch)"
| "replay_seal_run C ch ((pt, aad) # xs) =
     (let (r, ch') = replay_seal C ch pt aad; (out, ch'') = replay_seal_run C ch' xs
      in (case r of Ok p \<Rightarrow> (p, pt, aad) # out | _ \<Rightarrow> out, ch''))"

definition arrivals :: "crypto \<Rightarrow> replay_channel \<Rightarrow> (packet \<times> bytes) list \<Rightarrow> (u64 \<times> bool) list" where
  "arrivals C ch xs = map (\<lambda>x. (p_sequence (fst x), replay_genuine C ch x)) xs"

lemma replay_run_arrive:
  "rw.arrive ch (arrivals C ch xs) = (snd (replay_run C ch xs), map p_sequence (fst (replay_run C ch xs)))"
proof (induction xs arbitrary: ch)
  case Nil
  then show ?case by (simp add: arrivals_def)
next
  case (Cons x xs)
  obtain p aad where x: "x = (p, aad)" by (cases x)
  obtain r ch' where o: "replay_open C ch p aad = (r, ch')" by fastforce
  show ?case
  proof (cases "is_ok r")
    case True
    then obtain m where "r = Ok m" by (auto simp: is_ok_iff)
    with o have ch': "ch' = mark_seen ch (p_sequence p)" by (auto simp: replay_open_Ok_iff)
    from True o have "ensure_sequence_is_new ch (p_sequence p) = Ok () \<and> replay_genuine C ch (p, aad)"
      using replay_open_genuine [of C ch p aad] by simp
    with True o ch' Cons.IH [of ch'] show ?thesis
      by (simp add: x arrivals_def split: prod.splits)
  next
    case False
    then have "ch' = ch" using o replay_open_failed by blast
    moreover have "\<not> (ensure_sequence_is_new ch (p_sequence p) = Ok () \<and> replay_genuine C ch (p, aad))"
      using False o replay_open_genuine [of C ch p aad] by simp
    ultimately show ?thesis
      using False o Cons.IH [of ch] by (auto simp add: x arrivals_def split: prod.splits)
  qed
qed

lemma replay_run_keys:
  "replay_run C ch xs = (acc, ch') \<Longrightarrow> rw_rx_key ch' = rw_rx_key ch \<and> rw_rx_nonce_mask ch' = rw_rx_nonce_mask ch"
proof (induction xs arbitrary: ch acc)
  case (Cons x xs)
  obtain p aad where x: "x = (p, aad)" by (cases x)
  obtain r c where o: "replay_open C ch p aad = (r, c)" by fastforce
  then have "rw_rx_key c = rw_rx_key ch \<and> rw_rx_nonce_mask c = rw_rx_nonce_mask ch"
    using replay_open_failed [OF o] by (cases r) (auto simp: replay_open_Ok_iff)
  with Cons o show ?case by (auto simp: x split: prod.splits)
qed simp

lemma replay_seal_step_cases:
  obtains (emitted) ia ct where "replay_seal C ch pt aad =
        (Ok (v2_packet (aad_flag aad) 0 (rw_tx_seq ch) (compute_nonce (rw_tx_nonce_mask ch) (rw_tx_seq ch)) ct),
         ch\<lparr>rw_tx_seq := rw_tx_seq ch + 1\<rparr>)" "rw_tx_seq ch \<noteq> - 1"
      "build_internal_aad_v2 (aad_flag aad) (rw_tx_seq ch) aad = Ok ia"
      "aead_enc C (rw_tx_key ch) (compute_nonce (rw_tx_nonce_mask ch) (rw_tx_seq ch)) ia pt = Some ct"
  | (failed) r where "replay_seal C ch pt aad = (r, ch)" "\<not> is_ok r"
proof -
  obtain r ch' where d: "replay_seal C ch pt aad = (r, ch')" by fastforce
  show thesis
  proof (cases "is_ok r")
    case True
    then obtain p where "r = Ok p" by (auto simp: is_ok_iff)
    with d emitted show thesis by (auto simp: replay_seal_Ok_iff)
  next
    case False
    with d replay_seal_failed failed show thesis by blast
  qed
qed

text \<open>What a sender emits: consecutive sequences, each packet the encryption it should be.\<close>

lemma replay_seal_run_out:
  assumes "replay_seal_run C ch msgs = (out, ch')"
  shows "map (unat \<circ> p_sequence \<circ> fst) out = [unat (rw_tx_seq ch)..<unat (rw_tx_seq ch')]
    \<and> unat (rw_tx_seq ch) \<le> unat (rw_tx_seq ch')
    \<and> (\<forall>(p, pt, aad) \<in> set out. p_version p = 2 \<and> p_nonce p = compute_nonce (rw_tx_nonce_mask ch) (p_sequence p)
        \<and> (\<exists>ia. build_internal_aad_v2 (p_flags p) (p_sequence p) aad = Ok ia
            \<and> aead_enc C (rw_tx_key ch) (p_nonce p) ia pt = Some (p_ciphertext p)))"
  using assms
proof (induction msgs arbitrary: ch out)
  case Nil
  then show ?case by simp
next
  case (Cons x msgs)
  obtain pt aad where x: "x = (pt, aad)" by (cases x)
  show ?case
  proof (cases rule: replay_seal_step_cases [where C = C and ch = ch and pt = pt and aad = aad])
    case (emitted ia ct)
    obtain out' where r: "replay_seal_run C (ch\<lparr>rw_tx_seq := rw_tx_seq ch + 1\<rparr>) msgs = (out', ch')"
      "out = (v2_packet (aad_flag aad) 0 (rw_tx_seq ch) (compute_nonce (rw_tx_nonce_mask ch) (rw_tx_seq ch)) ct, pt, aad) # out'"
      using Cons.prems emitted by (auto simp: x split: prod.splits)
    from Cons.IH [OF r(1)] emitted show ?thesis
      by (auto simp: r(2) unat_Suc upt_conv_Cons simp del: upt_Suc)
  next
    case (failed r)
    with Cons show ?thesis by (cases r) (auto simp: x split: prod.splits)
  qed
qed

lemma replay_pair_keys:
  assumes "new_replay_with_context C seed r ctx w = Ok a" "new_replay_with_context C seed r' ctx w' = Ok b" "r \<noteq> r'"
  shows "rw_tx_key a = rw_rx_key b \<and> rw_tx_nonce_mask a = rw_rx_nonce_mask b"
  using assms by (auto simp: new_replay_with_context_def Let_def split: if_splits role.splits)

lemma replay_run_rel:
  assumes "new_replay_with_context C seed r ctx w = Ok b" "replay_run C b xs = (acc, b')"
  shows "replay_rel w b' (set (map p_sequence acc))"
proof -
  have "replay_rel w b {}" using new_replay_Ok [OF assms(1)] by (simp add: replay_rel_def window_rel_def)
  from conjunct2 [OF rw.arrive_refines [OF this, of "arrivals C b xs"]] show ?thesis
    by (simp add: replay_run_arrive assms(2))
qed

lemma replay_opens_sealed:
  assumes "aead_roundtrip C" "replay_seal_run C a msgs = (out, a')" "(p, pt, aad) \<in> set out"
    and "rw_tx_key a = rw_rx_key b" "rw_tx_nonce_mask a = rw_rx_nonce_mask b"
    and "ensure_sequence_is_new b (p_sequence p) = Ok ()"
  shows "replay_open C b p aad = (Ok pt, mark_seen b (p_sequence p))"
proof -
  obtain ia where s: "p_version p = 2" "p_nonce p = compute_nonce (rw_tx_nonce_mask a) (p_sequence p)"
    "build_internal_aad_v2 (p_flags p) (p_sequence p) aad = Ok ia"
    "aead_enc C (rw_tx_key a) (p_nonce p) ia pt = Some (p_ciphertext p)"
    using replay_seal_run_out [OF assms(2)] assms(3) by fastforce
  then have "replay_decrypt C b p aad = Ok pt"
    using assms(4,5) aead_roundtripD [OF assms(1) s(4)] by (simp add: replay_decrypt_def Let_def)
  with assms(6) s(1) show ?thesis by (simp add: replay_open_def)
qed

text \<open>Instances for the witnesses.\<close>

lemma new_replay_ex: "\<exists>ch. new_replay_with_context C seed r ctx 8 = Ok ch"
  by (cases r) (simp_all add: new_replay_with_context_def MAX_WINDOW_def Let_def)

lemma toy_replay_seals:
  assumes "rw_tx_seq ch = 0"
  obtains p ch' where "replay_seal_run toy ch [([104], [7])] = ([(p, [104], [7])], ch')" "p_sequence p = 0"
proof -
  obtain p ch' where "replay_seal toy ch [104] [7] = (Ok p, ch')" "p_sequence p = 0"
    using assms by (simp add: replay_seal_def Let_def checked_add_def build_internal_aad_v2_def
        build_internal_aad_v2_with_epoch_def u32_try_from_def toy_def toy_enc_def)
  with that show thesis by simp
qed

lemma fresh_is_new: "new_replay_with_context C seed r ctx w = Ok b \<Longrightarrow> ensure_sequence_is_new b q = Ok ()"
  using new_replay_Ok [of C seed r ctx w b] by (simp add: ensure_sequence_is_new_def)

section \<open>Properties\<close>

text \<open>
  C17: The receiver is the set-based window. From a new channel, offered any packets in any order
  (forged and repeated ones included), the sequences it accepts are exactly those that the
  specification accepts which remembers every accepted sequence and counts the authentic arrivals:
  the highest number and 128 bits lose nothing. No sequence is accepted twice.
\<close>

theorem replay_refines_set_spec:
  assumes "new_replay_with_context C seed r ctx w = Ok ch"
  shows "map p_sequence (fst (replay_run C ch xs)) = spec_arrive w {} (arrivals C ch xs)
    \<and> distinct (map p_sequence (fst (replay_run C ch xs)))"
proof -
  have "replay_rel w ch {}" using new_replay_Ok [OF assms] by (simp add: replay_rel_def window_rel_def)
  from rw.arrive_refines [OF this] rw.accepted_distinct [OF this] show ?thesis
    by (metis replay_run_arrive snd_conv)
qed

theorem replay_refines_set_spec_witness:
  "\<exists>ch. new_replay_with_context toy sample_seed Initiator [] 8 = Ok ch
     \<and> map p_sequence (fst (replay_run toy ch [(sample_packet, []), (sample_packet, [1])]))
       = spec_arrive 8 {} (arrivals toy ch [(sample_packet, []), (sample_packet, [1])])"
  using new_replay_ex [of toy sample_seed Initiator "[]"] replay_refines_set_spec by blast

text \<open>
  Late delivery. Two new channels of the two roles from one seed and context; one seals any
  messages, the other has been offered anything at all. A sealed packet that it has not accepted
  yet, and that is less than a window behind every accepted sequence, opens to its plaintext.
\<close>

theorem replay_late_delivery:
  assumes "aead_roundtrip C" and "r \<noteq> r'"
    and "new_replay_with_context C seed r ctx w = Ok a" and "new_replay_with_context C seed r' ctx w' = Ok b"
    and "replay_seal_run C a msgs = (out, a')" and "(p, pt, aad) \<in> set out"
    and "replay_run C b xs = (acc, b')"
    and "\<forall>q \<in> set acc. p_sequence q \<noteq> p_sequence p \<and> (p_sequence q \<le> p_sequence p \<or> p_sequence q - p_sequence p < w')"
  shows "fst (replay_open C b' p aad) = Ok pt"
proof -
  have rel: "replay_rel w' b' (set (map p_sequence acc))" by (rule replay_run_rel [OF assms(4,7)])
  have fresh: "ensure_sequence_is_new b' (p_sequence p) = Ok ()"
    by (rule rw.fresh_accepted [OF rel]) (use assms(8) in fastforce)+
  have "rw_tx_key a = rw_rx_key b'" "rw_tx_nonce_mask a = rw_rx_nonce_mask b'"
    using replay_run_keys [OF assms(7)] replay_pair_keys [OF assms(3,4,2)] by simp_all
  from replay_opens_sealed [OF assms(1,5,6) this fresh] show ?thesis by simp
qed

theorem replay_late_delivery_witness:
  "\<exists>b p. new_replay_with_context toy sample_seed Responder [] 8 = Ok b \<and> fst (replay_open toy b p [7]) = Ok [104]"
proof -
  obtain a b where n: "new_replay_with_context toy sample_seed Initiator [] 8 = Ok a"
    "new_replay_with_context toy sample_seed Responder [] 8 = Ok b"
    using new_replay_ex by blast
  obtain p a' where s: "replay_seal_run toy a [([104], [7])] = ([(p, [104], [7])], a')"
    using toy_replay_seals [of a] new_replay_Ok [OF n(1)] by blast
  have "replay_run toy b [] = ([], b)" by simp
  from replay_late_delivery [OF toy_aead_roundtrip _ n s _ this, of p "[104]" "[7]"] n show ?thesis by auto
qed

text \<open>
  No nonce is used twice. All packets that a new channel seals, whatever the messages and the
  failures in between, carry different sequences and different nonces; the counter stops with an
  error instead of wrapping.
\<close>

theorem replay_nonces_distinct:
  assumes "hash_lengths C" and "new_replay_with_context C seed r ctx w = Ok ch"
    and "replay_seal_run C ch msgs = (out, ch')"
  shows "distinct (map (p_nonce \<circ> fst) out) \<and> map (unat \<circ> p_sequence \<circ> fst) out = [0..<length out]"
proof -
  note o = replay_seal_run_out [OF assms(3)]
  have m: "length (rw_tx_nonce_mask ch) = 12" "rw_tx_seq ch = 0" using new_replay_Ok [OF assms(2)] assms(1) by simp_all
  have seqs: "map (unat \<circ> p_sequence \<circ> fst) out = [0..<length out]"
  proof -
    have "length out = unat (rw_tx_seq ch')" using arg_cong [OF conjunct1 [OF o], of length] m(2) by simp
    then show ?thesis using conjunct1 [OF o] m(2) by simp
  qed
  then have "distinct (map (unat \<circ> p_sequence \<circ> fst) out)" by simp
  then have "distinct (map p_sequence (map fst out))"
    by (simp add: distinct_map inj_on_def)
  moreover have "map (p_nonce \<circ> fst) out = map (compute_nonce (rw_tx_nonce_mask ch)) (map p_sequence (map fst out))"
    using o by auto
  moreover have "inj (compute_nonce (rw_tx_nonce_mask ch))" using compute_nonce_inject [OF m(1)] by (auto intro: injI)
  ultimately have "distinct (map (p_nonce \<circ> fst) out)"
    by (simp only: distinct_map [of "compute_nonce (rw_tx_nonce_mask ch)"]) (blast intro: inj_on_subset)
  with seqs show ?thesis by blast
qed

theorem replay_nonces_distinct_witness:
  "\<exists>ch out ch'. new_replay_with_context toy sample_seed Initiator [] 8 = Ok ch
     \<and> replay_seal_run toy ch [([104], [7])] = (out, ch') \<and> length out = 1 \<and> distinct (map (p_nonce \<circ> fst) out)"
proof -
  obtain a where n: "new_replay_with_context toy sample_seed Initiator [] 8 = Ok a"
    using new_replay_ex by blast
  obtain p a' where s: "replay_seal_run toy a [([104], [7])] = ([(p, [104], [7])], a')"
    using toy_replay_seals [of a] new_replay_Ok [OF n] by blast
  from replay_nonces_distinct [OF toy_hash_lengths n s] n s show ?thesis by fastforce
qed

text \<open>
  A failed operation changes nothing, and none panics: a forged, repeated or too old packet
  leaves window and counters as they were, and a failed seal consumes no sequence.
\<close>

theorem replay_failure_keeps_state:
  "(is_ok (fst (replay_open C ch p aad)) \<or> snd (replay_open C ch p aad) = ch)
   \<and> (is_ok (fst (replay_seal C ch pt aad)) \<or> snd (replay_seal C ch pt aad) = ch)
   \<and> fst (replay_open C ch p aad) \<noteq> Panic \<and> fst (replay_seal C ch pt aad) \<noteq> Panic"
  using replay_open_failed replay_seal_failed replay_not_Panic by (metis prod.collapse)

lemma count_ones_card: "count_ones bm = card {d. d < 128 \<and> bit bm d}"
proof -
  have "{d. d < 128 \<and> bit bm d} = set (filter (bit bm) [0..<128])" by auto
  then show ?thesis by (simp only: distinct_card count_ones_def distinct_filter distinct_upt)
qed

lemma bitmap_count:
  assumes "bitmap_for w h S bm" "w \<le> 128"
  shows "count_ones bm = card {q \<in> S. q \<le> h \<and> h - q < w}"
proof -
  have "{d. d < 128 \<and> bit bm d} = (\<lambda>q. unat (h - q)) ` {q \<in> S. q \<le> h \<and> h - q < w}"
    using assms unat_lt_128 [OF assms(2)] by (auto simp: bitmap_for_def word_less_nat_alt image_iff)
  moreover have "inj_on (\<lambda>q. unat (h - q)) {q \<in> S. q \<le> h \<and> h - q < w}"
    by (auto simp: inj_on_def simp flip: word_unat_eq_iff)
  ultimately show ?thesis by (simp add: count_ones_card card_image)
qed

lemma window_span:
  assumes "0 < w"
  shows "card {q :: u64. q \<le> h \<and> h - q < w} = min (unat h + 1) (unat w)"
proof -
  let ?f = "\<lambda>q. unat (h - q)" and ?I = "{q. q \<le> h \<and> h - q < w}"
  have "?f ` ?I \<subseteq> {..<min (unat h + 1) (unat w)}"
    by (auto simp: word_less_nat_alt unat_sub word_le_nat_alt)
  moreover have "d \<in> ?f ` ?I" if d: "d < min (unat h + 1) (unat w)" for d
  proof -
    have "unat h < 2 ^ LENGTH(64)" by (rule unsigned_less)
    with d have n: "unat (word_of_nat d :: u64) = d" by (simp add: unat_of_nat)
    have "word_of_nat d \<le> h" using d n by (simp add: word_le_nat_alt)
    then have "h - word_of_nat d \<le> h" by (rule word_sub_le)
    moreover have "h - (h - word_of_nat d) = word_of_nat d" by simp
    ultimately have "h - word_of_nat d \<in> ?I" using d n by (simp add: word_less_nat_alt)
    then show ?thesis using n by (intro image_eqI [of _ _ "h - word_of_nat d"]) simp_all
  qed
  ultimately have "?f ` ?I = {..<min (unat h + 1) (unat w)}" by blast
  moreover have "inj_on ?f ?I" by (simp add: inj_on_def flip: word_unat_eq_iff)
  ultimately show ?thesis using card_image [of ?f ?I] by (simp del: card_image)
qed

lemma expected_bits:
  assumes "0 < w" "w \<le> 128" "(h :: u64) \<noteq> - 1"
  shows "unat (ucast (min (h + 1) w) :: u32) = min (unat h + 1) (unat w)"
proof -
  have m: "unat (min (h + 1) w) = min (unat h + 1) (unat w)"
    using unat_Suc [OF assms(3)] by (simp add: min_def word_le_nat_alt)
  moreover have "unat w \<le> 128" using assms(2) by (simp add: word_le_nat_alt)
  ultimately have "unat (min (h + 1) w) \<le> 128" by simp
  then have "unat (ucast (min (h + 1) w) :: u32) = unat (min (h + 1) w)"
    by (simp add: unsigned_ucast_eq take_bit_eq_mod)
  then show ?thesis using m by simp
qed

lemma missing_count_rel:
  assumes "replay_rel w ch S" "S \<noteq> {}" "Max S \<noteq> - 1"
  shows "missing_in_window_count oc ch = Ok (card {q. q \<le> Max S \<and> Max S - q < w \<and> q \<notin> S})"
proof -
  let ?I = "{q. q \<le> Max S \<and> Max S - q < w}"
  from assms have h: "rw_highest_seen ch = Some (Max S)" "0 < w" "w \<le> 128" "rw_window ch = w"
    "bitmap_for w (Max S) S (rw_seen_bitmap ch)"
    by (auto simp: replay_rel_def window_rel_def split: option.splits)
  have "{q. q \<le> Max S \<and> Max S - q < w \<and> q \<notin> S} = ?I - {q \<in> S. q \<le> Max S \<and> Max S - q < w}" by auto
  then have "card {q. q \<le> Max S \<and> Max S - q < w \<and> q \<notin> S} = card ?I - card {q \<in> S. q \<le> Max S \<and> Max S - q < w}"
    by (simp only:) (rule card_Diff_subset, auto)
  then show ?thesis
    using assms(3) expected_bits [OF h(2,3) assms(3)] bitmap_count [OF h(5,3)] window_span [OF h(2), of "Max S"]
    by (simp add: missing_in_window_count_def h(1,4) Let_def)
qed

text \<open>
  The loss counter counts losses. After any history, \<open>missing_in_window_count\<close> is the number
  of sequences inside the window, from the highest accepted one down, that were never accepted;
  in builds with and without overflow checks, as long as the sequence 2^64 - 1 was not accepted.
\<close>

theorem missing_count_exact:
  assumes "new_replay_with_context C seed r ctx w = Ok b" and "replay_run C b xs = (acc, b')"
    and "acc \<noteq> []" and "- 1 \<notin> p_sequence ` set acc"
  shows "missing_in_window_count overflow_checks b' = Ok (card
    {q. q \<le> Max (p_sequence ` set acc) \<and> Max (p_sequence ` set acc) - q < w \<and> q \<notin> p_sequence ` set acc})"
proof -
  have "replay_rel w b' (p_sequence ` set acc)" using replay_run_rel [OF assms(1,2)] by simp
  moreover have "Max (p_sequence ` set acc) \<in> p_sequence ` set acc"
    using assms(3) by (intro Max_in) simp_all
  then have "Max (p_sequence ` set acc) \<noteq> - 1" using assms(4) by metis
  moreover have "p_sequence ` set acc \<noteq> {}" using assms(3) by simp
  ultimately show ?thesis by (intro missing_count_rel)
qed

theorem missing_count_exact_witness:
  "\<exists>b p b'. new_replay_with_context toy sample_seed Responder [] 8 = Ok b
     \<and> replay_run toy b [(p, [7])] = ([p], b') \<and> missing_in_window_count True b' = Ok 0"
proof -
  obtain a b where n: "new_replay_with_context toy sample_seed Initiator [] 8 = Ok a"
    "new_replay_with_context toy sample_seed Responder [] 8 = Ok b"
    using new_replay_ex by blast
  obtain p a' where s: "replay_seal_run toy a [([104], [7])] = ([(p, [104], [7])], a')" "p_sequence p = 0"
    using toy_replay_seals [of a] new_replay_Ok [OF n(1)] by blast
  have "replay_open toy b p [7] = (Ok [104], mark_seen b (p_sequence p))"
    by (rule replay_opens_sealed [OF toy_aead_roundtrip s(1)])
      (use replay_pair_keys [OF n] fresh_is_new [OF n(2)] in auto)
  then have r: "replay_run toy b [(p, [7])] = ([p], mark_seen b (p_sequence p))" by simp
  from missing_count_exact [OF n(2) r] have "missing_in_window_count True (mark_seen b (p_sequence p)) = Ok 0"
    by (auto simp: s(2) card_eq_0_iff)
  with n r show ?thesis by blast
qed

end
