(* ===== verification/PeerMap.thy ===== *)
theory PeerMap
  imports Prelude
begin

text \<open>
  \<open>BTreeMap<(u32, u64), V>\<close> as \<open>modes/chrono.rs\<close> uses it: \<open>get\<close>, \<open>entry\<close>/\<open>insert\<close>, \<open>len\<close> and
  iteration in key order. The map is an association list kept sorted by key. \<open>ordered_map\<close> is the
  interface the checkpoint code relies on: lookups after insertions, sorted entries, and that a map
  is determined by its lookups; from it follows that inserting the entries one by one, in whatever
  order, rebuilds the map.
\<close>

section \<open>Keys\<close>

datatype peer_key = PeerKey (pk_node: u32) (pk_epoch: u64)

text \<open>Tuples compare lexicographically.\<close>

instantiation peer_key :: linorder
begin

definition less_eq_peer_key :: "peer_key \<Rightarrow> peer_key \<Rightarrow> bool" where
  "less_eq_peer_key a b \<longleftrightarrow> pk_node a < pk_node b \<or> pk_node a = pk_node b \<and> pk_epoch a \<le> pk_epoch b"

definition less_peer_key :: "peer_key \<Rightarrow> peer_key \<Rightarrow> bool" where
  "less_peer_key a b \<longleftrightarrow> pk_node a < pk_node b \<or> pk_node a = pk_node b \<and> pk_epoch a < pk_epoch b"

instance
  by standard (auto simp: less_eq_peer_key_def less_peer_key_def peer_key.expand)

end

section \<open>The interface\<close>

locale ordered_map =
  fixes empty :: 'm and get :: "'m \<Rightarrow> 'k::linorder \<Rightarrow> 'v option" and ins :: "'m \<Rightarrow> 'k \<Rightarrow> 'v \<Rightarrow> 'm"
    and entries :: "'m \<Rightarrow> ('k \<times> 'v) list" and inv :: "'m \<Rightarrow> bool"
  assumes inv_empty: "inv empty" and get_empty: "get empty k = None"
    and inv_ins: "inv m \<Longrightarrow> inv (ins m k v)"
    and get_ins: "inv m \<Longrightarrow> get (ins m k v) k' = (if k' = k then Some v else get m k')"
    and entries_get: "inv m \<Longrightarrow> map_of (entries m) k = get m k"
    and entries_sorted: "inv m \<Longrightarrow> sorted (map fst (entries m)) \<and> distinct (map fst (entries m))"
    and map_ext: "inv m \<Longrightarrow> inv m' \<Longrightarrow> (\<And>k. get m k = get m' k) \<Longrightarrow> m = m'"
begin

definition insert_all :: "'m \<Rightarrow> ('k \<times> 'v) list \<Rightarrow> 'm" where
  "insert_all m kvs = foldl (\<lambda>m kv. ins m (fst kv) (snd kv)) m kvs"

lemma insert_all_get:
  "inv m \<Longrightarrow> distinct (map fst kvs) \<Longrightarrow> inv (insert_all m kvs)
    \<and> get (insert_all m kvs) k = (case map_of kvs k of None \<Rightarrow> get m k | Some v \<Rightarrow> Some v)"
proof (induction kvs arbitrary: m)
  case Nil
  then show ?case by (simp add: insert_all_def)
next
  case (Cons kv kvs)
  then have ih: "inv (insert_all (ins m (fst kv) (snd kv)) kvs)"
    "get (insert_all (ins m (fst kv) (snd kv)) kvs) k =
      (case map_of kvs k of None \<Rightarrow> get (ins m (fst kv) (snd kv)) k | Some v \<Rightarrow> Some v)"
    by (simp_all add: inv_ins)
  have all: "insert_all m (kv # kvs) = insert_all (ins m (fst kv) (snd kv)) kvs" by (simp add: insert_all_def)
  show ?case
  proof (cases "k = fst kv")
    case True
    then have "map_of kvs k = None" using Cons.prems by (simp add: map_of_eq_None_iff)
    with ih True Cons.prems show ?thesis by (cases kv) (simp add: all [unfolded prod.collapse] insert_all_def get_ins)
  next
    case False
    with ih Cons.prems show ?thesis
      by (cases kv) (simp add: all [unfolded prod.collapse] insert_all_def get_ins cong: option.case_cong)
  qed
qed

lemma rebuild: "inv m \<Longrightarrow> insert_all empty (entries m) = m"
  using insert_all_get [OF inv_empty, of "entries m"] entries_sorted [of m]
  by (intro map_ext) (auto simp: entries_get get_empty split: option.splits)

lemma rebuild_permuted: "inv m \<Longrightarrow> distinct (map fst kvs) \<Longrightarrow> set kvs = set (entries m) \<Longrightarrow> insert_all empty kvs = m"
  using insert_all_get [OF inv_empty, of kvs] entries_sorted [of m] map_of_inject_set [of kvs "entries m"]
  by (intro map_ext) (auto simp: entries_get [symmetric] get_empty split: option.splits)

lemma ins_get_same: "inv m \<Longrightarrow> get m k = Some v \<Longrightarrow> ins m k v = m"
  by (intro map_ext) (auto simp: inv_ins get_ins)

end

section \<open>Sorted association lists\<close>

type_synonym ('k, 'v) btree = "('k \<times> 'v) list"

definition btree_get :: "('k, 'v) btree \<Rightarrow> 'k \<Rightarrow> 'v option" where
  "btree_get m k = map_of m k"

fun btree_insert :: "('k::linorder, 'v) btree \<Rightarrow> 'k \<Rightarrow> 'v \<Rightarrow> ('k, 'v) btree" where
  "btree_insert [] k v = [(k, v)]"
| "btree_insert ((k', v') # m) k v =
     (if k < k' then (k, v) # (k', v') # m
      else if k = k' then (k, v) # m else (k', v') # btree_insert m k v)"

definition btree_ok :: "('k::linorder, 'v) btree \<Rightarrow> bool" where
  "btree_ok m \<longleftrightarrow> sorted_wrt (<) (map fst m)"

lemma btree_insert_keys: "fst ` set (btree_insert m k v) = insert k (fst ` set m)"
  by (induction m k v rule: btree_insert.induct) auto

lemma btree_ok_Cons: "btree_ok ((k, v) # m) \<longleftrightarrow> (\<forall>x \<in> fst ` set m. k < x) \<and> btree_ok m"
  by (auto simp: btree_ok_def)

lemma btree_insert_ok: "btree_ok m \<Longrightarrow> btree_ok (btree_insert m k v)"
proof (induction m k v rule: btree_insert.induct)
  case (1 k v)
  then show ?case by (simp add: btree_ok_def)
next
  case (2 k' v' m k v)
  show ?case
  proof (cases k k' rule: linorder_cases)
    case less
    with 2(2) show ?thesis by (simp add: btree_ok_Cons) (meson less_trans)
  next
    case equal
    with 2(2) show ?thesis by (simp add: btree_ok_Cons)
  next
    case greater
    then have "\<not> k < k'" "k \<noteq> k'" by auto
    with 2 greater show ?thesis by (simp add: btree_ok_Cons btree_insert_keys)
  qed
qed

lemma btree_insert_get: "btree_ok m \<Longrightarrow> btree_get (btree_insert m k v) k' = (if k' = k then Some v else btree_get m k')"
  by (induction m k v rule: btree_insert.induct) (auto simp: btree_ok_Cons btree_get_def)

lemma btree_ok_sorted: "btree_ok m \<Longrightarrow> sorted (map fst m) \<and> distinct (map fst m)"
  using strict_sorted_iff by (auto simp: btree_ok_def)

lemma btree_ext:
  assumes "btree_ok m" "btree_ok m'" "\<And>k. btree_get m k = btree_get m' k"
  shows "m = m'"
proof -
  have "set m = set m'"
    using assms btree_ok_sorted [of m] btree_ok_sorted [of m'] by (intro map_of_inject_set [THEN iffD1]) (auto simp: btree_get_def)
  moreover have "inj_on fst (set m)" using assms btree_ok_sorted [of m] by (simp add: distinct_map)
  ultimately show ?thesis
    using assms btree_ok_sorted by (intro map_sorted_distinct_set_unique [of fst]) auto
qed

interpretation btree: ordered_map "[]" btree_get btree_insert "\<lambda>m. m" btree_ok
  by unfold_locales (auto simp: btree_ok_def [of "[]"] btree_get_def [of "[]"] btree_insert_ok btree_insert_get
      btree_ok_sorted [THEN conjunct1] btree_ok_sorted [THEN conjunct2] btree_get_def [symmetric] intro: btree_ext)

end
