(* ===== verification/Chrono.thy ===== *)
theory Chrono
  imports Ordered Window PeerMap "HOL-Library.Multiset"
begin

text \<open>
  \<open>src/modes/chrono.rs\<close>: the mesh node. It seals under a key and nonce derived per packet, keeps one
  anti-replay window per sending node and epoch, folds every packet it sealed or accepted into an
  integrity hash, and exports its state as an encrypted checkpoint. Each method runs here as one
  step on the node's state; the theory \<open>Concurrency\<close> interleaves the accesses of concurrent calls.
  \<open>m_rx_state\<close> is behind a mutex, and \<open>m_poisoned\<close> tells that a thread panicked holding it, in
  which case \<open>lock\<close> fails.
\<close>

record peer_state =
  highest_seen :: "u64 option"
  seen_bitmap :: u128
  received_count :: u64

definition peer_default :: peer_state where
  "peer_default = \<lparr>highest_seen = None, seen_bitmap = 0, received_count = 0\<rparr>"

definition MESH_WINDOW :: u64 where "MESH_WINDOW = 128"
definition MESH_STATE_MAGIC :: bytes where "MESH_STATE_MAGIC = ascii ''CNMS''"
definition MESH_STATE_VERSION :: u8 where "MESH_STATE_VERSION = 1"

definition peer_check :: "peer_state \<Rightarrow> u64 \<Rightarrow> u64 \<Rightarrow> unit outcome" where
  "peer_check s seq window =
     (case highest_seen s of
        None \<Rightarrow> Ok ()
      | Some highest \<Rightarrow>
          if highest < seq then Ok ()
          else (let delta = highest - seq
                in if window \<le> delta then Err FueraDeOrden
                   else if seen_bitmap s AND shl128 1 delta \<noteq> 0 then Err Repetido
                   else Ok ()))"

definition peer_record :: "peer_state \<Rightarrow> u64 \<Rightarrow> u64 \<Rightarrow> peer_state" where
  "peer_record s0 seq window =
     (let s = s0\<lparr>received_count := saturating_add (received_count s0) 1\<rparr>
      in case highest_seen s of
           None \<Rightarrow> s\<lparr>highest_seen := Some seq, seen_bitmap := 1\<rparr>
         | Some highest \<Rightarrow>
             if highest < seq then
               (let shift = seq - highest;
                    bitmap = (if 128 \<le> shift then 1 else shl128 (seen_bitmap s) shift OR 1);
                    bits = (if 128 \<le> window then - 1 else shl128 1 window - 1)
                in s\<lparr>seen_bitmap := bitmap AND bits, highest_seen := Some seq\<rparr>)
             else
               (let delta = highest - seq
                in s\<lparr>seen_bitmap := seen_bitmap s OR shl128 1 delta\<rparr>))"

record rx_tracker =
  peers :: "(peer_key, peer_state) btree"
  multiset_integrity_hash :: bytes

record mesh_node =
  mesh_root_key :: bytes
  context_domain_hash :: bytes
  packet_prk :: bytes
  m_node_id :: u32
  m_epoch :: u64
  m_tx_seq :: u64
  max_time_drift_ms :: u64
  replay_window :: u64
  m_rx_state :: rx_tracker
  m_poisoned :: bool

definition new_mesh :: "crypto \<Rightarrow> master_seed \<Rightarrow> bytes \<Rightarrow> u32 \<Rightarrow> u64 \<Rightarrow> u64 \<Rightarrow> mesh_node" where
  "new_mesh C seed context node_id boot_epoch drift =
     (let salt = ascii ''CryptoNugget:ChronoMesh:v3:'' @ context;
          prk = hkdf_extract C salt (seed_bytes seed);
          root = hkdf_expand C prk (ascii ''mesh-root-key'') 32;
          ctx_hash = hkdf_expand C prk (ascii ''mesh-context-hash'') 32
      in \<lparr>mesh_root_key = root, context_domain_hash = ctx_hash, packet_prk = hkdf_extract C ctx_hash root,
          m_node_id = node_id, m_epoch = boot_epoch, m_tx_seq = 0, max_time_drift_ms = drift,
          replay_window = MESH_WINDOW,
          m_rx_state = \<lparr>peers = [], multiset_integrity_hash = replicate 32 0\<rparr>, m_poisoned = False\<rparr>)"

definition node_id :: "mesh_node \<Rightarrow> u32" where "node_id n = m_node_id n"
definition current_epoch :: "mesh_node \<Rightarrow> u64" where "current_epoch n = m_epoch n"
definition current_tx_seq :: "mesh_node \<Rightarrow> u64" where "current_tx_seq n = m_tx_seq n"

text \<open>\<open>rx_state.lock()\<close>\<close>

definition lock_rx :: "mesh_node \<Rightarrow> rx_tracker option" where
  "lock_rx n = (if m_poisoned n then None else Some (m_rx_state n))"

definition derive_packet_crypto :: "crypto \<Rightarrow> mesh_node \<Rightarrow> u32 \<Rightarrow> u64 \<Rightarrow> u64 \<Rightarrow> u64 \<Rightarrow> bytes \<times> bytes" where
  "derive_packet_crypto C n nid epoch seq timestamp_ms =
     (let info = u32_to_be nid @ u64_to_be epoch @ u64_to_be seq @ u64_to_be timestamp_ms;
          okm = hkdf_expand C (packet_prk n) info (32 + NONCE_LEN)
      in (take 32 okm, drop 32 okm))"

text \<open>\<open>for (a, b) in acc.iter_mut().zip(digest) { *a ^= *b }\<close>\<close>

definition xor_into :: "bytes \<Rightarrow> bytes \<Rightarrow> bytes" where
  "xor_into acc digest = map2 (XOR) acc digest @ drop (length digest) acc"

definition packet_digest :: "crypto \<Rightarrow> packet \<Rightarrow> bytes" where
  "packet_digest C p = sha256 C (ascii ''ChronoMesh:PacketDigest:v3'' @ u32_to_be (p_node_id p)
     @ u64_to_be (p_epoch p) @ u64_to_be (p_sequence p) @ u64_to_be (p_timestamp_ms p) @ p_nonce p
     @ drop (length (p_ciphertext p) - TAG_LEN) (p_ciphertext p))"

definition fold_packet_into_integrity_hash :: "crypto \<Rightarrow> bytes \<Rightarrow> packet \<Rightarrow> bytes" where
  "fold_packet_into_integrity_hash C acc p = xor_into acc (packet_digest C p)"

definition fold_in :: "crypto \<Rightarrow> packet \<Rightarrow> rx_tracker \<Rightarrow> rx_tracker" where
  "fold_in C p rx = rx\<lparr>multiset_integrity_hash :=
     fold_packet_into_integrity_hash C (multiset_integrity_hash rx) p\<rparr>"

text \<open>The part of \<open>seal_realtime\<close> after the sequence has been drawn; it reads the keys only.\<close>

definition seal_at :: "crypto \<Rightarrow> mesh_node \<Rightarrow> u64 \<Rightarrow> u64 \<Rightarrow> bytes \<Rightarrow> bytes \<Rightarrow> u64 \<Rightarrow> packet outcome" where
  "seal_at C n epoch seq plaintext user_aad now_ms =
     (if seq = - 1 then Err Cifrado
      else (let flags = (if user_aad = [] then 0 else FLAG_AAD_PRESENT)
            in bindO (build_internal_aad_v3 flags (m_node_id n) epoch seq now_ms (context_domain_hash n) user_aad) (\<lambda>internal_aad.
                 let (msg_key, nonce) = derive_packet_crypto C n (m_node_id n) epoch seq now_ms
                 in bindO (ok_or Cifrado (aead_enc C msg_key nonce internal_aad plaintext)) (\<lambda>ciphertext.
                      Ok \<lparr>p_version = WIRE_VERSION_V3, p_flags = flags, p_node_id = m_node_id n,
                          p_epoch = epoch, p_sequence = seq, p_timestamp_ms = now_ms, p_nonce = nonce,
                          p_ciphertext = ciphertext\<rparr>))))"

definition seal_realtime :: "crypto \<Rightarrow> mesh_node \<Rightarrow> bytes \<Rightarrow> bytes \<Rightarrow> u64 \<Rightarrow> packet outcome \<times> mesh_node" where
  "seal_realtime C n plaintext user_aad now_ms =
     (let epoch = m_epoch n;
          seq = m_tx_seq n;
          n1 = n\<lparr>m_tx_seq := m_tx_seq n + 1\<rparr>   \<comment> \<open>\<open>fetch_add\<close> wraps\<close>
      in case seal_at C n epoch seq plaintext user_aad now_ms of
           Err e \<Rightarrow> (Err e, n1)
         | Panic \<Rightarrow> (Panic, n1)
         | Ok packet \<Rightarrow>
           (Ok packet, (case lock_rx n1 of
              None \<Rightarrow> n1
            | Some rx \<Rightarrow> n1\<lparr>m_rx_state := fold_in C packet rx\<rparr>)))"

text \<open>Associated data, expected nonce and decryption, the same lines in both opening methods.\<close>

definition decrypt_v3 :: "crypto \<Rightarrow> mesh_node \<Rightarrow> packet \<Rightarrow> bytes \<Rightarrow> bytes outcome" where
  "decrypt_v3 C n packet user_aad =
     bindO (build_internal_aad_v3 (p_flags packet) (p_node_id packet) (p_epoch packet) (p_sequence packet)
              (p_timestamp_ms packet) (context_domain_hash n) user_aad) (\<lambda>internal_aad.
       let (msg_key, expected_nonce) =
             derive_packet_crypto C n (p_node_id packet) (p_epoch packet) (p_sequence packet) (p_timestamp_ms packet)
       in if expected_nonce \<noteq> p_nonce packet then Err Autenticacion
          else ok_or Autenticacion (aead_dec C msg_key (p_nonce packet) internal_aad (p_ciphertext packet)))"

definition peer_key_of :: "packet \<Rightarrow> peer_key" where
  "peer_key_of p = PeerKey (p_node_id p) (p_epoch p)"

definition open_realtime :: "crypto \<Rightarrow> mesh_node \<Rightarrow> packet \<Rightarrow> bytes \<Rightarrow> u64 \<Rightarrow> bytes outcome \<times> mesh_node" where
  "open_realtime C n packet user_aad now_ms =
     (if p_version packet \<noteq> WIRE_VERSION_V3 then (Err (VersionNoSoportada (p_version packet)), n)
      else if max_time_drift_ms n < abs_diff now_ms (p_timestamp_ms packet) then (Err TiempoExpiradoOInvalido, n)
      else case lock_rx n of
        None \<Rightarrow> (Err Autenticacion, n)
      | Some guard \<Rightarrow>
        (case (case btree_get (peers guard) (peer_key_of packet) of
                 Some peer \<Rightarrow> peer_check peer (p_sequence packet) (replay_window n)
               | None \<Rightarrow> Ok ()) of
           Err e \<Rightarrow> (Err e, n)
         | Panic \<Rightarrow> (Panic, n)
         | Ok _ \<Rightarrow>
           (case decrypt_v3 C n packet user_aad of
              Err e \<Rightarrow> (Err e, n)
            | Panic \<Rightarrow> (Panic, n)
            | Ok plaintext \<Rightarrow>
              (case lock_rx n of
                 None \<Rightarrow> (Err Autenticacion, n)
               | Some guard2 \<Rightarrow>
                 (let peer = (case btree_get (peers guard2) (peer_key_of packet) of Some s \<Rightarrow> s | None \<Rightarrow> peer_default)
                  in case peer_check peer (p_sequence packet) (replay_window n) of
                       Err e \<Rightarrow> (Err e, n\<lparr>m_rx_state := guard2\<lparr>peers := btree_insert (peers guard2) (peer_key_of packet) peer\<rparr>\<rparr>)
                     | Panic \<Rightarrow> (Panic, n\<lparr>m_poisoned := True\<rparr>)
                     | Ok _ \<Rightarrow>
                       (let peer' = peer_record peer (p_sequence packet) (replay_window n);
                            guard3 = guard2\<lparr>peers := btree_insert (peers guard2) (peer_key_of packet) peer'\<rparr>
                        in (Ok plaintext, n\<lparr>m_rx_state := fold_in C packet guard3\<rparr>)))))))"

definition open_persisted_record :: "crypto \<Rightarrow> mesh_node \<Rightarrow> packet \<Rightarrow> bytes \<Rightarrow> bytes outcome" where
  "open_persisted_record C n packet user_aad =
     (if p_version packet \<noteq> WIRE_VERSION_V3 then Err (VersionNoSoportada (p_version packet))
      else decrypt_v3 C n packet user_aad)"

section \<open>Checkpoints\<close>

definition encode_peer :: "peer_key \<times> peer_state \<Rightarrow> bytes" where
  "encode_peer = (\<lambda>(k, s). u32_to_be (pk_node k) @ u64_to_be (pk_epoch k)
     @ u64_to_be (case highest_seen s of Some h \<Rightarrow> h | None \<Rightarrow> - 1) @ u128_to_be (seen_bitmap s))"

definition mesh_aad :: "mesh_node \<Rightarrow> bytes" where
  "mesh_aad n = MESH_STATE_MAGIC @ [MESH_STATE_VERSION] @ context_domain_hash n"

definition export_checkpoint :: "crypto \<Rightarrow> bytes \<Rightarrow> mesh_node \<Rightarrow> bytes \<Rightarrow> bytes outcome" where
  "export_checkpoint C rnd n wrap_key =
     bindO (ok_or Cifrado (lock_rx n)) (\<lambda>guard.
     bindO (ok_or AadDemasiadoLargo (u32_try_from (length (peers guard)))) (\<lambda>peer_count.
       let raw = u32_to_be (m_node_id n) @ u64_to_be (m_epoch n) @ u64_to_be (m_tx_seq n)
             @ multiset_integrity_hash guard @ u32_to_be peer_count @ concat (map encode_peer (peers guard))
       in bindO (ok_or Cifrado (aead_enc C wrap_key rnd (mesh_aad n) raw)) (\<lambda>ciphertext.
            Ok (MESH_STATE_MAGIC @ [MESH_STATE_VERSION] @ rnd @ ciphertext))))"

text \<open>The loop \<open>for _ in 0..peer_count\<close>.\<close>

fun parse_peers :: "bytes \<Rightarrow> nat \<Rightarrow> nat \<Rightarrow> (peer_key, peer_state) btree \<Rightarrow> (peer_key, peer_state) btree outcome" where
  "parse_peers raw 0 offset m = Ok m"
| "parse_peers raw (Suc k) offset m =
     bindO (unwrap_u32 raw offset) (\<lambda>p_node.
     bindO (unwrap_u64 raw (offset + 4)) (\<lambda>p_epoch.
     bindO (unwrap_u64 raw (offset + 12)) (\<lambda>highest_raw.
     bindO (unwrap_u128 raw (offset + 20)) (\<lambda>bitmap.
       parse_peers raw k (offset + 36)
         (btree_insert m (PeerKey p_node p_epoch)
            \<lparr>highest_seen = (if highest_raw = - 1 then None else Some highest_raw),
             seen_bitmap = bitmap, received_count = 0\<rparr>)))))"

record saved_state =
  saved_epoch :: u64
  saved_tx_seq :: u64
  saved_hash :: bytes
  saved_peers :: "(peer_key, peer_state) btree"

text \<open>
  \<open>restore_checkpoint\<close> up to the point where it starts to change the node: the decrypted state, and
  before it the frame around the ciphertext.
\<close>

definition decode_checkpoint :: "mesh_node \<Rightarrow> bytes \<Rightarrow> saved_state outcome" where
  "decode_checkpoint n raw =
     (if length raw < 56 then Err PaqueteCorrupto else
      bindO (unwrap_u32 raw 0) (\<lambda>saved_node_id.
      if saved_node_id \<noteq> m_node_id n then Err Autenticacion else
      bindO (unwrap_u64 raw 4) (\<lambda>epoch.
      bindO (unwrap_u64 raw 12) (\<lambda>tx_seq.
      bindO (copy_slice 32 raw 20 52) (\<lambda>hash.
      bindO (unwrap_u32 raw 52) (\<lambda>count.
      bindO (ok_or PaqueteCorrupto (usize_checked_mul (unat count) 36)) (\<lambda>body.
      bindO (ok_or PaqueteCorrupto (usize_checked_add 56 body)) (\<lambda>expected_len.
      if length raw \<noteq> expected_len then Err PaqueteCorrupto else
      bindO (parse_peers raw (unat count) 56 []) (\<lambda>ps.
        Ok \<lparr>saved_epoch = epoch, saved_tx_seq = tx_seq, saved_hash = hash, saved_peers = ps\<rparr>)))))))))"

definition read_checkpoint :: "crypto \<Rightarrow> mesh_node \<Rightarrow> bytes \<Rightarrow> bytes \<Rightarrow> saved_state outcome" where
  "read_checkpoint C n bs wrap_key =
     (if length bs < 4 + 1 + NONCE_LEN + TAG_LEN then Err PaqueteCorrupto else
      bindO (slice bs 0 4) (\<lambda>magic. bindO (byte_at bs 4) (\<lambda>version.
      if magic \<noteq> MESH_STATE_MAGIC \<or> version \<noteq> MESH_STATE_VERSION then Err PaqueteCorrupto else
      bindO (copy_slice NONCE_LEN bs 5 (5 + NONCE_LEN)) (\<lambda>nonce.
      bindO (slice_from bs (5 + NONCE_LEN)) (\<lambda>ciphertext.
      bindO (ok_or Autenticacion (aead_dec C wrap_key nonce (mesh_aad n) ciphertext)) (decode_checkpoint n))))))"

definition restore_checkpoint :: "crypto \<Rightarrow> mesh_node \<Rightarrow> bytes \<Rightarrow> bytes \<Rightarrow> unit outcome \<times> mesh_node" where
  "restore_checkpoint C n bs wrap_key =
     (case read_checkpoint C n bs wrap_key of
        Err e \<Rightarrow> (Err e, n)
      | Panic \<Rightarrow> (Panic, n)
      | Ok st \<Rightarrow>
        (let new_epoch = max (m_epoch n) (saturating_add (saved_epoch st) 1);
             n1 = n\<lparr>m_epoch := new_epoch, m_tx_seq := saved_tx_seq st\<rparr>
         in case lock_rx n1 of
              None \<Rightarrow> (Err Cifrado, n1)
            | Some guard \<Rightarrow>
              (Ok (), n1\<lparr>m_rx_state := guard\<lparr>peers := saved_peers st, multiset_integrity_hash := saved_hash st\<rparr>\<rparr>)))"

definition current_integrity_sha256 :: "mesh_node \<Rightarrow> bytes" where
  "current_integrity_sha256 n =
     (case lock_rx n of Some g \<Rightarrow> multiset_integrity_hash g | None \<Rightarrow> replicate 32 0)"

definition verify_integrity_checkpoint :: "mesh_node \<Rightarrow> bytes \<Rightarrow> unit outcome" where
  "verify_integrity_checkpoint n expected =
     (let current = current_integrity_sha256 n
      in if xor_diff current expected = 0 then Ok () else Err IntegridadContextoCorrupta)"

section \<open>The windows of a node\<close>

definition peer_rel :: "u64 \<Rightarrow> peer_state \<Rightarrow> u64 set \<Rightarrow> bool" where
  "peer_rel w s S \<longleftrightarrow> window_rel w (highest_seen s) (seen_bitmap s) S"

lemma peer_check_window: "peer_check s q w = window_check w (highest_seen s) (seen_bitmap s) q"
  by (simp add: peer_check_def window_check_def Let_def split: option.splits)

lemma peer_record_window:
  assumes "w \<le> 128"
  shows "(highest_seen (peer_record s q w), seen_bitmap (peer_record s q w)) = window_mark w (highest_seen s) (seen_bitmap s) q"
proof -
  have "128 \<le> w \<longleftrightarrow> w = 128" using assms by auto
  then show ?thesis
    by (simp add: peer_record_def window_mark_def window_mask_def Let_def split: option.splits)
qed

interpretation pw: window_impl "\<lambda>s q. peer_check s q w" "\<lambda>s q. peer_record s q w" "peer_rel w" w for w
proof
  fix s S q
  assume r: "peer_rel w s S"
  then show "peer_check s q w = spec_check w S q"
    using window_check_spec by (simp add: peer_rel_def peer_check_window)
  assume "peer_check s q w = Ok ()"
  with r show "peer_rel w (peer_record s q w) (insert q S)"
    using window_mark_rel [of w "highest_seen s" "seen_bitmap s" S q] peer_record_window [of w s q]
    by (simp add: peer_rel_def peer_check_window) (metis window_rel_def)
qed

text \<open>
  The node's windows stand for the accepted sequences of each sender and epoch; a sender without an
  entry has none.
\<close>

definition peer_of :: "mesh_node \<Rightarrow> peer_key \<Rightarrow> peer_state" where
  "peer_of n k = (case btree_get (peers (m_rx_state n)) k of Some s \<Rightarrow> s | None \<Rightarrow> peer_default)"

definition node_rel :: "mesh_node \<Rightarrow> (peer_key \<Rightarrow> u64 set) \<Rightarrow> bool" where
  "node_rel n A \<longleftrightarrow> btree_ok (peers (m_rx_state n)) \<and> replay_window n = 128
     \<and> (\<forall>k. peer_rel 128 (peer_of n k) (A k))"

lemma peer_default_rel: "peer_rel 128 peer_default {}"
  by (simp add: peer_rel_def peer_default_def window_rel_def)

lemma new_mesh_rel: "node_rel (new_mesh C seed ctx nid ep d) (\<lambda>k. {})"
  by (simp add: node_rel_def new_mesh_def Let_def MESH_WINDOW_def peer_of_def btree_get_def btree_ok_def peer_default_rel)

lemma peer_check_default: "peer_check peer_default q w = Ok ()"
  by (simp add: peer_check_def peer_default_def)

lemma peer_check_not_Panic: "peer_check s q w \<noteq> Panic"
  by (simp add: peer_check_def Let_def split: option.splits)

section \<open>What one operation does\<close>

definition accepted_node :: "crypto \<Rightarrow> mesh_node \<Rightarrow> packet \<Rightarrow> mesh_node" where
  "accepted_node C n p =
     (let rx = m_rx_state n; k = peer_key_of p
      in n\<lparr>m_rx_state := fold_in C p (rx\<lparr>peers :=
           btree_insert (peers rx) k (peer_record (peer_of n k) (p_sequence p) (replay_window n))\<rparr>)\<rparr>)"

definition chrono_genuine :: "crypto \<Rightarrow> mesh_node \<Rightarrow> packet \<times> bytes \<times> u64 \<Rightarrow> bool" where
  "chrono_genuine C n = (\<lambda>(p, aad, now). p_version p = WIRE_VERSION_V3
     \<and> abs_diff now (p_timestamp_ms p) \<le> max_time_drift_ms n \<and> \<not> m_poisoned n \<and> is_ok (decrypt_v3 C n p aad))"

lemma decrypt_v3_not_Panic: "decrypt_v3 C n p aad \<noteq> Panic"
  by (auto simp: decrypt_v3_def bindO_Panic_iff build_aad_outcomes Let_def split: prod.splits if_splits)

lemma open_realtime_cases:
  obtains (accepted) m where "open_realtime C n p aad now = (Ok m, accepted_node C n p)"
      "chrono_genuine C n (p, aad, now)" "peer_check (peer_of n (peer_key_of p)) (p_sequence p) (replay_window n) = Ok ()"
      "decrypt_v3 C n p aad = Ok m"
  | (refused) e where "open_realtime C n p aad now = (Err e, n)"
      "\<not> (chrono_genuine C n (p, aad, now) \<and> peer_check (peer_of n (peer_key_of p)) (p_sequence p) (replay_window n) = Ok ())"
proof -
  let ?chk = "peer_check (peer_of n (peer_key_of p)) (p_sequence p) (replay_window n)"
  have first: "(case btree_get (peers (m_rx_state n)) (peer_key_of p) of
      Some peer \<Rightarrow> peer_check peer (p_sequence p) (replay_window n) | None \<Rightarrow> Ok ()) = ?chk"
    by (simp add: peer_of_def peer_check_default split: option.splits)
  consider (version) "p_version p \<noteq> 3"
    | (time) "p_version p = 3" "max_time_drift_ms n < abs_diff now (p_timestamp_ms p)"
    | (poisoned) "p_version p = 3" "\<not> max_time_drift_ms n < abs_diff now (p_timestamp_ms p)" "m_poisoned n"
    | (window) e where "p_version p = 3" "\<not> max_time_drift_ms n < abs_diff now (p_timestamp_ms p)" "\<not> m_poisoned n" "?chk = Err e"
    | (crypto) e where "p_version p = 3" "\<not> max_time_drift_ms n < abs_diff now (p_timestamp_ms p)" "\<not> m_poisoned n"
        "?chk = Ok ()" "decrypt_v3 C n p aad = Err e"
    | (good) m where "p_version p = 3" "\<not> max_time_drift_ms n < abs_diff now (p_timestamp_ms p)" "\<not> m_poisoned n"
        "?chk = Ok ()" "decrypt_v3 C n p aad = Ok m"
    using peer_check_not_Panic decrypt_v3_not_Panic by (metis outcome.exhaust old.unit.exhaust)
  then show thesis
  proof cases
    case good
    then show thesis
      by (intro accepted)
        (simp_all add: open_realtime_def lock_rx_def first accepted_node_def Let_def chrono_genuine_def
          peer_of_def [symmetric] not_less)
  qed (rule refused; auto simp: open_realtime_def lock_rx_def first chrono_genuine_def)+
qed

text \<open>What the operations leave alone.\<close>

definition same_keys :: "mesh_node \<Rightarrow> mesh_node \<Rightarrow> bool" where
  "same_keys a b \<longleftrightarrow> context_domain_hash a = context_domain_hash b \<and> packet_prk a = packet_prk b"

definition same_config :: "mesh_node \<Rightarrow> mesh_node \<Rightarrow> bool" where
  "same_config a b \<longleftrightarrow> same_keys a b \<and> m_node_id a = m_node_id b \<and> max_time_drift_ms a = max_time_drift_ms b
     \<and> replay_window a = replay_window b \<and> m_poisoned a = m_poisoned b"

lemma same_config_trans: "same_config a b \<Longrightarrow> same_config b c \<Longrightarrow> same_config a c"
  by (simp add: same_config_def same_keys_def)

lemma accepted_node_fields [simp]:
  "m_tx_seq (accepted_node C n p) = m_tx_seq n" "m_epoch (accepted_node C n p) = m_epoch n"
  "m_node_id (accepted_node C n p) = m_node_id n" "m_poisoned (accepted_node C n p) = m_poisoned n"
  "replay_window (accepted_node C n p) = replay_window n"
  "multiset_integrity_hash (m_rx_state (accepted_node C n p)) =
     fold_packet_into_integrity_hash C (multiset_integrity_hash (m_rx_state n)) p"
  by (simp_all add: accepted_node_def Let_def fold_in_def)

lemma accepted_node_config: "same_config n (accepted_node C n p)"
  by (simp add: same_config_def same_keys_def accepted_node_def Let_def)

lemma derive_same_keys: "same_keys a b \<Longrightarrow> derive_packet_crypto C a = derive_packet_crypto C b"
  by (intro ext) (simp add: derive_packet_crypto_def same_keys_def)

lemma decrypt_same_keys: "same_keys a b \<Longrightarrow> decrypt_v3 C a p aad = decrypt_v3 C b p aad"
  using derive_same_keys [of a b C] by (simp add: decrypt_v3_def same_keys_def)

lemma genuine_same_config: "same_config a b \<Longrightarrow> chrono_genuine C a = chrono_genuine C b"
  using decrypt_same_keys [of a b C] by (auto simp: chrono_genuine_def same_config_def)

lemma new_mesh_keys: "same_keys (new_mesh C seed ctx i e d) (new_mesh C seed ctx i' e' d')"
  by (simp add: same_keys_def new_mesh_def Let_def)

definition v3_packet :: "mesh_node \<Rightarrow> bytes \<Rightarrow> u64 \<Rightarrow> u64 \<Rightarrow> u64 \<Rightarrow> bytes \<Rightarrow> bytes \<Rightarrow> packet" where
  "v3_packet n aad e s now nonce ct = \<lparr>p_version = 3, p_flags = aad_flag aad, p_node_id = m_node_id n, p_epoch = e,
     p_sequence = s, p_timestamp_ms = now, p_nonce = nonce, p_ciphertext = ct\<rparr>"

lemma v3_packet_simps [simp]:
  "p_version (v3_packet n aad e s now nc ct) = 3" "p_flags (v3_packet n aad e s now nc ct) = aad_flag aad"
  "p_node_id (v3_packet n aad e s now nc ct) = m_node_id n" "p_epoch (v3_packet n aad e s now nc ct) = e"
  "p_sequence (v3_packet n aad e s now nc ct) = s" "p_timestamp_ms (v3_packet n aad e s now nc ct) = now"
  "p_nonce (v3_packet n aad e s now nc ct) = nc" "p_ciphertext (v3_packet n aad e s now nc ct) = ct"
  by (simp_all add: v3_packet_def)

lemma seal_at_Ok_iff:
  "seal_at C n e s pt aad now = Ok p \<longleftrightarrow> s \<noteq> - 1 \<and>
     (\<exists>ia key nonce ct. build_internal_aad_v3 (aad_flag aad) (m_node_id n) e s now (context_domain_hash n) aad = Ok ia
        \<and> derive_packet_crypto C n (m_node_id n) e s now = (key, nonce)
        \<and> aead_enc C key nonce ia pt = Some ct \<and> p = v3_packet n aad e s now nonce ct)"
  by (cases "derive_packet_crypto C n (m_node_id n) e s now")
    (auto simp: seal_at_def Let_def bindO_Ok_iff v3_packet_def aad_flag_def)

lemma seal_at_header:
  "seal_at C n e s pt aad now = Ok p \<Longrightarrow> p_sequence p = s \<and> p_epoch p = e \<and> p_node_id p = m_node_id n
     \<and> p_timestamp_ms p = now \<and> p_version p = 3"
  by (auto simp: seal_at_Ok_iff)

lemma seal_at_not_Panic: "seal_at C n e s pt aad now \<noteq> Panic"
  by (auto simp: seal_at_def bindO_Panic_iff build_aad_outcomes Let_def split: prod.splits)

lemma seal_at_opens:
  assumes "aead_roundtrip C" "same_keys n m" "seal_at C n e s pt aad now = Ok p"
  shows "decrypt_v3 C m p aad = Ok pt"
proof -
  obtain ia key nonce ct where s: "build_internal_aad_v3 (aad_flag aad) (m_node_id n) e s now (context_domain_hash n) aad = Ok ia"
    "derive_packet_crypto C n (m_node_id n) e s now = (key, nonce)" "aead_enc C key nonce ia pt = Some ct"
    "p = v3_packet n aad e s now nonce ct"
    using assms(3) by (auto simp: seal_at_Ok_iff)
  moreover have "derive_packet_crypto C m = derive_packet_crypto C n" "context_domain_hash m = context_domain_hash n"
    using assms(2) derive_same_keys [of n m] by (simp_all add: same_keys_def)
  ultimately show ?thesis
    using aead_roundtripD [OF assms(1) s(3)] by (simp add: decrypt_v3_def)
qed

definition sealed_node :: "crypto \<Rightarrow> mesh_node \<Rightarrow> packet \<Rightarrow> mesh_node" where
  "sealed_node C n p = (let n1 = n\<lparr>m_tx_seq := m_tx_seq n + 1\<rparr>
     in if m_poisoned n then n1 else n1\<lparr>m_rx_state := fold_in C p (m_rx_state n)\<rparr>)"

lemma seal_realtime_cases:
  obtains (sealed) p where "seal_realtime C n pt aad now = (Ok p, sealed_node C n p)"
      "seal_at C n (m_epoch n) (m_tx_seq n) pt aad now = Ok p"
  | (failed) e where "seal_realtime C n pt aad now = (Err e, n\<lparr>m_tx_seq := m_tx_seq n + 1\<rparr>)"
      "seal_at C n (m_epoch n) (m_tx_seq n) pt aad now = Err e"
  using seal_at_not_Panic [of C n "m_epoch n" "m_tx_seq n" pt aad now]
  by (cases "seal_at C n (m_epoch n) (m_tx_seq n) pt aad now")
    (auto simp: seal_realtime_def sealed_node_def Let_def lock_rx_def)

lemma sealed_node_fields [simp]:
  "m_tx_seq (sealed_node C n p) = m_tx_seq n + 1" "m_epoch (sealed_node C n p) = m_epoch n"
  "m_node_id (sealed_node C n p) = m_node_id n" "m_poisoned (sealed_node C n p) = m_poisoned n"
  "peers (m_rx_state (sealed_node C n p)) = peers (m_rx_state n)"
  "\<not> m_poisoned n \<Longrightarrow> multiset_integrity_hash (m_rx_state (sealed_node C n p)) =
     fold_packet_into_integrity_hash C (multiset_integrity_hash (m_rx_state n)) p"
  by (simp_all add: sealed_node_def Let_def fold_in_def)

lemma sealed_node_config: "same_config n (sealed_node C n p)"
  by (simp add: same_config_def same_keys_def sealed_node_def Let_def)

lemma node_rel_frame:
  "peers (m_rx_state n') = peers (m_rx_state n) \<Longrightarrow> replay_window n' = replay_window n \<Longrightarrow> node_rel n' A = node_rel n A"
  by (simp add: node_rel_def peer_of_def)

lemma node_rel_accept:
  assumes "node_rel n A" "peer_check (peer_of n (peer_key_of p)) (p_sequence p) (replay_window n) = Ok ()"
  shows "node_rel (accepted_node C n p) (A(peer_key_of p := insert (p_sequence p) (A (peer_key_of p))))"
proof -
  let ?k = "peer_key_of p"
  let ?s = "peer_record (peer_of n ?k) (p_sequence p) (replay_window n)"
  have ok: "btree_ok (peers (m_rx_state n))" "replay_window n = 128" "\<forall>k. peer_rel 128 (peer_of n k) (A k)"
    using assms(1) by (simp_all add: node_rel_def)
  have ps: "peers (m_rx_state (accepted_node C n p)) = btree_insert (peers (m_rx_state n)) ?k ?s"
    by (simp add: accepted_node_def Let_def fold_in_def)
  have "peer_of (accepted_node C n p) k = (if k = ?k then ?s else peer_of n k)" for k
    using btree.get_ins [OF ok(1)] by (simp add: peer_of_def ps)
  moreover have "peer_rel 128 ?s (insert (p_sequence p) (A ?k))"
    using pw.mark_rel [of 128 "peer_of n ?k" "A ?k"] ok assms(2) by simp
  ultimately show ?thesis
    using ok by (simp add: node_rel_def ps btree.inv_ins)
qed

section \<open>Histories of a node\<close>

text \<open>
  Any sequence of calls: the packets sealed, the packets accepted, in order, and the node after.
  The specification of the receiving side remembers the accepted sequences of each sender.
\<close>

datatype mesh_call = Seal bytes bytes u64 | Open packet bytes u64

fun mesh_run :: "crypto \<Rightarrow> mesh_node \<Rightarrow> mesh_call list \<Rightarrow> (packet list \<times> packet list) \<times> mesh_node" where
  "mesh_run C n [] = (([], []), n)"
| "mesh_run C n (Seal pt aad now # cs) =
     (let (r, n') = seal_realtime C n pt aad now; ((out, acc), n'') = mesh_run C n' cs
      in ((case r of Ok p \<Rightarrow> p # out | _ \<Rightarrow> out, acc), n''))"
| "mesh_run C n (Open p aad now # cs) =
     (let (r, n') = open_realtime C n p aad now; ((out, acc), n'') = mesh_run C n' cs
      in ((out, if is_ok r then p # acc else acc), n''))"

fun mesh_spec :: "u64 \<Rightarrow> (peer_key \<Rightarrow> u64 set) \<Rightarrow> (peer_key \<times> u64 \<times> bool) list \<Rightarrow> (peer_key \<times> u64) list" where
  "mesh_spec w A [] = []"
| "mesh_spec w A ((k, q, genuine) # xs) =
     (if spec_check w (A k) q = Ok () \<and> genuine then (k, q) # mesh_spec w (A(k := insert q (A k))) xs
      else mesh_spec w A xs)"

fun mesh_arrivals :: "crypto \<Rightarrow> mesh_node \<Rightarrow> mesh_call list \<Rightarrow> (peer_key \<times> u64 \<times> bool) list" where
  "mesh_arrivals C n [] = []"
| "mesh_arrivals C n (Seal pt aad now # cs) = mesh_arrivals C n cs"
| "mesh_arrivals C n (Open p aad now # cs) =
     (peer_key_of p, p_sequence p, chrono_genuine C n (p, aad, now)) # mesh_arrivals C n cs"

definition mesh_id :: "packet \<Rightarrow> peer_key \<times> u64" where
  "mesh_id p = (peer_key_of p, p_sequence p)"

definition after :: "(peer_key \<Rightarrow> u64 set) \<Rightarrow> packet list \<Rightarrow> peer_key \<Rightarrow> u64 set" where
  "after A acc k = A k \<union> {q. (k, q) \<in> mesh_id ` set acc}"

lemma mesh_spec_fresh:
  "distinct (mesh_spec w A xs) \<and> (\<forall>(k, q) \<in> set (mesh_spec w A xs). q \<notin> A k)"
proof (induction w A xs rule: mesh_spec.induct)
  case (1 w A)
  then show ?case by simp
next
  case (2 w A k q genuine xs)
  show ?case
  proof (cases "spec_check w (A k) q = Ok () \<and> genuine")
    case True
    then have "q \<notin> A k" using spec_check_seen by blast
    moreover define A' where "A' = A(k := insert q (A k))"
    then have "q \<in> A' k" "\<And>j. A j \<subseteq> A' j" by auto
    moreover have "mesh_spec w A ((k, q, genuine) # xs) = (k, q) # mesh_spec w A' xs"
      using True by (simp add: A'_def)
    ultimately show ?thesis using 2(1) [OF True, folded A'_def] by fastforce
  next
    case False
    with 2(2) [OF False] show ?thesis by auto
  qed
qed

lemma mesh_arrivals_config: "same_config a b \<Longrightarrow> mesh_arrivals C a cs = mesh_arrivals C b cs"
proof (induction cs)
  case (Cons c cs)
  then show ?case by (cases c) (simp_all add: genuine_same_config)
qed simp

lemma after_Cons: "after (A(peer_key_of p := insert (p_sequence p) (A (peer_key_of p)))) acc = after A (p # acc)"
  by (intro ext) (auto simp: after_def mesh_id_def)

lemma tick_config: "same_config n (n\<lparr>m_tx_seq := s\<rparr>)"
  by (simp add: same_config_def same_keys_def)

lemma mesh_run_refines:
  assumes "node_rel n A" "mesh_run C n cs = ((out, acc), n')"
  shows "map mesh_id acc = mesh_spec 128 A (mesh_arrivals C n cs) \<and> node_rel n' (after A acc) \<and> same_config n n'"
  using assms
proof (induction cs arbitrary: n A out acc)
  case Nil
  then show ?case by (simp add: after_def same_config_def same_keys_def)
next
  case (Cons c cs)
  show ?case
  proof (cases c)
    case c: (Seal pt aad now)
    obtain r m where s: "seal_realtime C n pt aad now = (r, m)" by fastforce
    then have m: "same_config n m" "peers (m_rx_state m) = peers (m_rx_state n)"
      by (cases rule: seal_realtime_cases [where C = C and n = n and pt = pt and aad = aad and now = now];
          auto simp: sealed_node_config tick_config)+
    then have "node_rel m A" using Cons.prems(1) node_rel_frame [of m n A] by (simp add: same_config_def)
    moreover obtain out' where "mesh_run C m cs = ((out', acc), n')"
      using Cons.prems(2) s by (auto simp: c split: prod.splits)
    ultimately show ?thesis
      using Cons.IH [of m A out' acc] m(1) mesh_arrivals_config [OF m(1)] by (auto simp: c intro: same_config_trans)
  next
    case c: (Open p aad now)
    note w = Cons.prems(1) [unfolded node_rel_def]
    have spec: "peer_check (peer_of n (peer_key_of p)) (p_sequence p) (replay_window n) = spec_check 128 (A (peer_key_of p)) (p_sequence p)"
      using pw.check_spec [of 128 "peer_of n (peer_key_of p)" "A (peer_key_of p)"] w by simp
    show ?thesis
    proof (cases rule: open_realtime_cases [where C = C and n = n and p = p and aad = aad and now = now])
      case (accepted m)
      obtain acc' where r: "mesh_run C (accepted_node C n p) cs = ((out, acc'), n')" "acc = p # acc'"
        using Cons.prems(2) accepted by (auto simp: c split: prod.splits)
      define A' where "A' = A(peer_key_of p := insert (p_sequence p) (A (peer_key_of p)))"
      note ih = Cons.IH [OF node_rel_accept [OF Cons.prems(1) accepted(3), folded A'_def] r(1)]
      have "mesh_spec 128 A (mesh_arrivals C n (c # cs)) = mesh_id p # mesh_spec 128 A' (mesh_arrivals C n cs)"
        using accepted spec by (simp add: c mesh_id_def A'_def)
      moreover have "after A' acc' = after A acc" unfolding A'_def r(2) by (rule after_Cons)
      ultimately show ?thesis
        using ih mesh_arrivals_config [OF accepted_node_config, of C n cs C p] accepted_node_config [of n C p]
        by (auto simp: r(2) intro: same_config_trans)
    next
      case (refused e)
      then have "mesh_run C n cs = ((out, acc), n')"
        using Cons.prems(2) by (auto simp: c split: prod.splits)
      from Cons.IH [OF Cons.prems(1) this] refused spec show ?thesis by (auto simp: c)
    qed
  qed
qed

text \<open>The packets sealed: numbered upwards, each the sealing of one of the calls.\<close>

fun seals :: "mesh_call list \<Rightarrow> nat" where
  "seals [] = 0"
| "seals (Seal pt aad now # cs) = Suc (seals cs)"
| "seals (Open p aad now # cs) = seals cs"

lemma seal_at_config: "same_config a b \<Longrightarrow> seal_at C a e s pt aad now = seal_at C b e s pt aad now"
  using derive_same_keys [of a b C] by (simp add: seal_at_def same_config_def same_keys_def)

lemma open_realtime_frame:
  assumes "open_realtime C n p aad now = (r, n')"
  shows "same_config n n' \<and> m_epoch n' = m_epoch n \<and> m_tx_seq n' = m_tx_seq n"
  by (rule open_realtime_cases [of C n p aad now])
    (use assms accepted_node_config [of n C p] in \<open>auto simp: same_config_def same_keys_def\<close>)

definition sealed_by :: "crypto \<Rightarrow> mesh_node \<Rightarrow> mesh_call list \<Rightarrow> packet \<Rightarrow> bool" where
  "sealed_by C n cs p \<longleftrightarrow>
     (\<exists>pt aad now. Seal pt aad now \<in> set cs \<and> seal_at C n (m_epoch n) (p_sequence p) pt aad now = Ok p)"

lemma sealed_by_Cons: "sealed_by C n cs p \<Longrightarrow> sealed_by C n (c # cs) p"
  by (auto simp: sealed_by_def)

lemma sealed_by_config: "same_config n m \<Longrightarrow> m_epoch m = m_epoch n \<Longrightarrow> sealed_by C m cs p = sealed_by C n cs p"
  using seal_at_config [of n m C] by (simp add: sealed_by_def)

lemma mesh_run_sealed:
  assumes "mesh_run C n cs = ((out, acc), n')" "unat (m_tx_seq n) + seals cs \<le> 2 ^ 64"
  shows "sorted_wrt (<) (map (unat \<circ> p_sequence) out)
    \<and> (\<forall>p \<in> set out. unat (m_tx_seq n) \<le> unat (p_sequence p) \<and> unat (p_sequence p) < unat (m_tx_seq n) + seals cs
         \<and> sealed_by C n cs p)
    \<and> m_epoch n' = m_epoch n"
  using assms
proof (induction cs arbitrary: n out acc)
  case Nil
  then show ?case by simp
next
  case (Cons c cs)
  show ?case
  proof (cases c)
    case c: (Open p aad now)
    obtain r m where o: "open_realtime C n p aad now = (r, m)" by fastforce
    obtain acc' where "mesh_run C m cs = ((out, acc'), n')"
      using Cons.prems(1) o by (auto simp: c split: prod.splits)
    from Cons.IH [OF this] open_realtime_frame [OF o] Cons.prems(2) show ?thesis
      by (auto simp: c sealed_by_config intro: sealed_by_Cons)
  next
    case c: (Seal pt aad now)
    let ?t = "m_tx_seq n + 1"
    have step: "unat ?t = Suc (unat (m_tx_seq n)) \<or> unat ?t = 0 \<and> seals cs = 0"
    proof (cases "m_tx_seq n = - 1")
      case True
      with Cons.prems(2) show ?thesis by (simp add: c unsigned_minus_1_eq_mask mask_eq_exp_minus_1)
    qed (simp add: unat_Suc)
    obtain r m where s: "seal_realtime C n pt aad now = (r, m)" by fastforce
    have m: "same_config n m" "m_epoch m = m_epoch n" "m_tx_seq m = ?t"
      using s by (cases rule: seal_realtime_cases [where C = C and n = n and pt = pt and aad = aad and now = now];
          auto simp: sealed_node_config tick_config)+
    obtain out' where r: "mesh_run C m cs = ((out', acc), n')" "out = (case r of Ok p \<Rightarrow> p # out' | _ \<Rightarrow> out')"
      using Cons.prems(1) s by (auto simp: c split: prod.splits)
    have "unat (m_tx_seq m) + seals cs \<le> 2 ^ 64" using step Cons.prems(2) by (auto simp: c m(3))
    note ih = Cons.IH [OF r(1) this, unfolded m(2,3)]
    have later: "\<forall>p \<in> set out'. unat (m_tx_seq n) < unat (p_sequence p)
        \<and> unat (p_sequence p) < unat (m_tx_seq n) + Suc (seals cs) \<and> sealed_by C n (c # cs) p"
      using ih step by (fastforce simp: sealed_by_config [OF m(1,2)] intro: sealed_by_Cons)
    have first: "p_sequence p = m_tx_seq n \<and> sealed_by C n (c # cs) p" if "r = Ok p" for p
    proof -
      have sa: "seal_at C n (m_epoch n) (m_tx_seq n) pt aad now = Ok p"
        using s that by (cases rule: seal_realtime_cases [where C = C and n = n and pt = pt and aad = aad and now = now]) auto
      with seal_at_header [OF sa] show ?thesis unfolding sealed_by_def c by auto
    qed
    show ?thesis
      using ih later first by (cases r) (auto simp: r(2) c less_imp_le)
  qed
qed

section \<open>The integrity hash\<close>

lemma length_xor_into [simp]: "length (xor_into a d) = length a"
  by (simp add: xor_into_def)

lemma nth_xor_into: "i < length a \<Longrightarrow> xor_into a d ! i = (if i < length d then a ! i XOR d ! i else a ! i)"
  by (auto simp: xor_into_def nth_append min_def not_less)

lemma xor_into_commute: "xor_into (xor_into a d) e = xor_into (xor_into a e) d"
  by (rule nth_equalityI) (auto simp: nth_xor_into xor.assoc xor.commute xor.left_commute)

lemma xor_into_cancel: "xor_into (xor_into a d) d = a"
  by (rule nth_equalityI) (auto simp: nth_xor_into xor.assoc)

definition integrity :: "crypto \<Rightarrow> packet list \<Rightarrow> bytes \<Rightarrow> bytes" where
  "integrity C ps h = fold (\<lambda>p a. fold_packet_into_integrity_hash C a p) ps h"

lemma integrity_mset: "mset ps = mset qs \<Longrightarrow> integrity C ps = integrity C qs"
  unfolding integrity_def
  by (rule fold_multiset_equiv) (simp_all add: fun_eq_iff fold_packet_into_integrity_hash_def xor_into_commute)

lemma mesh_run_integrity:
  assumes "mesh_run C n cs = ((out, acc), n')" "\<not> m_poisoned n"
  shows "multiset_integrity_hash (m_rx_state n') = integrity C (out @ acc) (multiset_integrity_hash (m_rx_state n))
    \<and> \<not> m_poisoned n'"
  using assms
proof (induction cs arbitrary: n out acc)
  case Nil
  then show ?case by (simp add: integrity_def)
next
  case (Cons c cs)
  show ?case
  proof (cases c)
    case c: (Seal pt aad now)
    show ?thesis
    proof (cases rule: seal_realtime_cases [where C = C and n = n and pt = pt and aad = aad and now = now])
      case (sealed p)
      obtain out' where "mesh_run C (sealed_node C n p) cs = ((out', acc), n')" "out = p # out'"
        using Cons.prems(1) sealed by (auto simp: c split: prod.splits)
      with Cons.IH Cons.prems(2) show ?thesis by (simp add: integrity_def)
    next
      case (failed e)
      then have "mesh_run C (n\<lparr>m_tx_seq := m_tx_seq n + 1\<rparr>) cs = ((out, acc), n')"
        using Cons.prems(1) by (auto simp: c split: prod.splits)
      from Cons.IH [OF this] Cons.prems(2) show ?thesis by simp
    qed
  next
    case c: (Open p aad now)
    show ?thesis
    proof (cases rule: open_realtime_cases [where C = C and n = n and p = p and aad = aad and now = now])
      case (accepted m)
      obtain acc' where r: "mesh_run C (accepted_node C n p) cs = ((out, acc'), n')" "acc = p # acc'"
        using Cons.prems(1) accepted by (auto simp: c split: prod.splits)
      have "integrity C (out @ acc) = integrity C (p # out @ acc')"
        by (rule integrity_mset) (simp add: r(2))
      with Cons.IH [OF r(1)] Cons.prems(2) show ?thesis by (simp add: integrity_def)
    next
      case (refused e)
      then have "mesh_run C n cs = ((out, acc), n')"
        using Cons.prems(1) by (auto simp: c split: prod.splits)
      from Cons.IH [OF this] Cons.prems(2) show ?thesis by simp
    qed
  qed
qed

lemma unat_abs_diff: "unat (abs_diff a b) = (if unat a < unat b then unat b - unat a else unat a - unat b)"
  by (auto simp: abs_diff_def unat_sub word_less_nat_alt word_le_nat_alt)

lemma drift_iff: "d < abs_diff a b \<longleftrightarrow> int (unat d) < \<bar>int (unat a) - int (unat b)\<bar>"
  unfolding word_less_nat_alt unat_abs_diff by (split if_split) linarith

lemma open_realtime_accepts:
  assumes "chrono_genuine C n (p, aad, now)" "decrypt_v3 C n p aad = Ok m"
    "peer_check (peer_of n (peer_key_of p)) (p_sequence p) (replay_window n) = Ok ()"
  shows "open_realtime C n p aad now = (Ok m, accepted_node C n p)"
  using assms by (cases rule: open_realtime_cases [where C = C and n = n and p = p and aad = aad and now = now]) auto

lemma mesh_window_open:
  assumes "mesh_run C (new_mesh C seed ctx i e d) cs = ((out, acc), n)"
    and "\<forall>q \<in> set acc. peer_key_of q = peer_key_of p \<longrightarrow>
           p_sequence q \<noteq> p_sequence p \<and> (p_sequence q \<le> p_sequence p \<or> p_sequence q - p_sequence p < 128)"
  shows "peer_check (peer_of n (peer_key_of p)) (p_sequence p) (replay_window n) = Ok ()"
proof -
  let ?S = "after (\<lambda>k. {}) acc (peer_key_of p)"
  have "node_rel n (after (\<lambda>k. {}) acc)" using mesh_run_refines [OF new_mesh_rel assms(1)] by blast
  then have "peer_rel 128 (peer_of n (peer_key_of p)) ?S" "replay_window n = 128" by (simp_all add: node_rel_def)
  moreover have "p_sequence p \<notin> ?S" "m \<le> p_sequence p \<or> m - p_sequence p < 128" if "m \<in> ?S" for m
    using assms(2) that by (auto simp: after_def mesh_id_def)
  moreover have "p_sequence p \<notin> ?S" using assms(2) by (auto simp: after_def mesh_id_def)
  ultimately show ?thesis using pw.fresh_accepted [of 128 _ ?S] by simp
qed

section \<open>Properties\<close>

text \<open>
  C2: No packet is accepted twice. From a new node, after any calls in any order with any packets,
  what has been accepted is exactly what the specification accepts that keeps, for each sending
  node and epoch, the set of accepted sequences; so the triples (node, epoch, sequence) of the
  accepted packets are all different.
\<close>

theorem mesh_replay_refines_spec:
  "map mesh_id (snd (fst (mesh_run C (new_mesh C seed ctx i e d) cs)))
     = mesh_spec 128 (\<lambda>k. {}) (mesh_arrivals C (new_mesh C seed ctx i e d) cs)
   \<and> distinct (map mesh_id (snd (fst (mesh_run C (new_mesh C seed ctx i e d) cs))))"
proof -
  obtain out acc n where r: "mesh_run C (new_mesh C seed ctx i e d) cs = ((out, acc), n)" by (metis prod.collapse)
  from conjunct1 [OF mesh_run_refines [OF new_mesh_rel r]] mesh_spec_fresh [of 128 "\<lambda>k. {}"] show ?thesis
    by (simp add: r)
qed

text \<open>
  C18: Delivery in the mesh. Whatever one node seals in its first 2^64 calls, every other node of the
  same seed and context opens to the original plaintext: at any time from its archive, and live
  whenever the clocks differ by at most its drift, it has not accepted the packet before, and it
  has not accepted one of the same sender and epoch that is 128 or more ahead.
\<close>

theorem mesh_delivery:
  assumes "aead_roundtrip C" and "mesh_run C (new_mesh C seed ctx i e d) cs = ((out, acc), a)" and "seals cs \<le> 2 ^ 64"
    and "mesh_run C (new_mesh C seed ctx i' e' d') cs' = ((out', acc'), b)" and "p \<in> set out"
  shows "\<exists>pt aad. Seal pt aad (p_timestamp_ms p) \<in> set cs
    \<and> open_persisted_record C b p aad = Ok pt
    \<and> (\<forall>now. \<bar>int (unat now) - int (unat (p_timestamp_ms p))\<bar> \<le> int (unat d')
        \<and> (\<forall>q \<in> set acc'. peer_key_of q = peer_key_of p \<longrightarrow>
             p_sequence q \<noteq> p_sequence p \<and> (p_sequence q \<le> p_sequence p \<or> p_sequence q - p_sequence p < 128))
        \<longrightarrow> fst (open_realtime C b p aad now) = Ok pt)"
proof -
  let ?a = "new_mesh C seed ctx i e d" and ?b = "new_mesh C seed ctx i' e' d'"
  have cfg: "same_config ?b b" using mesh_run_refines [OF new_mesh_rel assms(4)] by blast
  have "m_tx_seq ?a = 0" by (simp add: new_mesh_def Let_def)
  with mesh_run_sealed [OF assms(2)] assms(3,5) have "sealed_by C ?a cs p" by simp
  then obtain pt aad now0 where s: "Seal pt aad now0 \<in> set cs" "seal_at C ?a (m_epoch ?a) (p_sequence p) pt aad now0 = Ok p"
    by (auto simp: sealed_by_def)
  have "same_keys ?a b" using cfg new_mesh_keys [of C seed ctx i e d i' e' d'] by (simp add: same_config_def same_keys_def)
  then have dec: "decrypt_v3 C b p aad = Ok pt" using seal_at_opens [OF assms(1) _ s(2)] by blast
  note h = seal_at_header [OF s(2)]
  have b: "\<not> m_poisoned b" "max_time_drift_ms b = d'" using cfg by (simp_all add: same_config_def new_mesh_def Let_def)
  have "fst (open_realtime C b p aad now) = Ok pt"
    if "\<bar>int (unat now) - int (unat (p_timestamp_ms p))\<bar> \<le> int (unat d')"
      "\<forall>q \<in> set acc'. peer_key_of q = peer_key_of p \<longrightarrow>
         p_sequence q \<noteq> p_sequence p \<and> (p_sequence q \<le> p_sequence p \<or> p_sequence q - p_sequence p < 128)" for now
  proof -
    have "chrono_genuine C b (p, aad, now)"
      using that(1) dec h b drift_iff [of d' now "p_timestamp_ms p"] by (auto simp: chrono_genuine_def not_less [symmetric])
    with open_realtime_accepts [OF this dec mesh_window_open [OF assms(4) that(2)]] show ?thesis by simp
  qed
  with s(1) dec h show ?thesis by (auto simp: open_persisted_record_def)
qed

text \<open>One seal on a concrete node, for the witnesses.\<close>

lemma toy_seal_at:
  assumes "s \<noteq> - 1" "length aad < 2 ^ 32"
  shows "\<exists>p. seal_at toy n e s pt aad now = Ok p"
proof -
  obtain ia where "build_internal_aad_v3 (aad_flag aad) (m_node_id n) e s now (context_domain_hash n) aad = Ok ia"
    using assms(2) by (auto simp: build_internal_aad_v3_def u32_try_from_def)
  moreover obtain key nonce where "derive_packet_crypto toy n (m_node_id n) e s now = (key, nonce)" by fastforce
  moreover have "aead_enc toy key nonce ia pt = Some (pt @ toy_tag key nonce ia pt)" for ia
    by (simp add: toy_def toy_enc_def)
  ultimately show ?thesis using assms(1) by (auto simp: seal_at_Ok_iff)
qed

lemma toy_seal:
  assumes "m_tx_seq n \<noteq> - 1"
  obtains p where "seal_realtime toy n [104] [7] now = (Ok p, sealed_node toy n p)"
    "seal_at toy n (m_epoch n) (m_tx_seq n) [104] [7] now = Ok p"
  using toy_seal_at [of "m_tx_seq n" "[7]" n "m_epoch n" "[104]" now] assms
  by (cases rule: seal_realtime_cases [where C = toy and n = n and pt = "[104]" and aad = "[7]" and now = now]) auto

definition sample_mesh :: "u32 \<Rightarrow> u64 \<Rightarrow> mesh_node" where
  "sample_mesh i e = new_mesh toy sample_seed [] i e 1000"

lemma sample_mesh_fields [simp]:
  "m_tx_seq (sample_mesh i e) = 0" "m_epoch (sample_mesh i e) = e" "m_node_id (sample_mesh i e) = i"
  "m_poisoned (sample_mesh i e) = False" "max_time_drift_ms (sample_mesh i e) = 1000"
  "multiset_integrity_hash (m_rx_state (sample_mesh i e)) = replicate 32 0" "peers (m_rx_state (sample_mesh i e)) = []"
  by (simp_all add: sample_mesh_def new_mesh_def Let_def)

theorem mesh_delivery_witness:
  "\<exists>p a. mesh_run toy (sample_mesh 1 5) [Seal [104] [7] 50] = (([p], []), a)
     \<and> open_persisted_record toy (sample_mesh 2 0) p [7] = Ok [104]
     \<and> fst (open_realtime toy (sample_mesh 2 0) p [7] 60) = Ok [104]"
proof -
  have "m_tx_seq (sample_mesh 1 5) \<noteq> - 1" by simp
  then obtain p where p: "seal_realtime toy (sample_mesh 1 5) [104] [7] 50 = (Ok p, sealed_node toy (sample_mesh 1 5) p)"
    "seal_at toy (sample_mesh 1 5) 5 0 [104] [7] 50 = Ok p"
    using toy_seal [of "sample_mesh 1 5" 50] by auto
  then have r: "mesh_run toy (sample_mesh 1 5) [Seal [104] [7] 50] = (([p], []), sealed_node toy (sample_mesh 1 5) p)"
    by simp
  have t: "p_timestamp_ms p = 50" using seal_at_header [OF p(2)] by blast
  have "mesh_run toy (sample_mesh 2 0) [] = (([], []), sample_mesh 2 0)" by simp
  from mesh_delivery [OF toy_aead_roundtrip r [unfolded sample_mesh_def] _ this [unfolded sample_mesh_def], of p] r t
  show ?thesis by (auto simp: sample_mesh_def [symmetric])
qed

text \<open>
  Sequence numbers of a node are unique, up to 2^64 calls of \<open>seal_realtime\<close>. All packets it
  seals carry its own identity and epoch and strictly increasing sequences, failed calls in between
  only leave gaps; so no two packets of the mesh have the same (node, epoch, sequence), from which
  with the time the key and nonce are derived, as long as no two nodes share identity and epoch.
\<close>

theorem mesh_sequences_unique:
  assumes "mesh_run C (new_mesh C seed ctx i e d) cs = ((out, acc), n)" and "seals cs \<le> 2 ^ 64"
  shows "sorted_wrt (<) (map p_sequence out) \<and> (\<forall>p \<in> set out. p_node_id p = i \<and> p_epoch p = e \<and> p_version p = 3)"
proof -
  have new: "m_tx_seq (new_mesh C seed ctx i e d) = 0" "m_epoch (new_mesh C seed ctx i e d) = e"
    "m_node_id (new_mesh C seed ctx i e d) = i"
    by (simp_all add: new_mesh_def Let_def)
  have "unat (m_tx_seq (new_mesh C seed ctx i e d)) + seals cs \<le> 2 ^ 64" using assms(2) by (simp add: new)
  note s = mesh_run_sealed [OF assms(1) this]
  have "p_node_id p = i \<and> p_epoch p = e \<and> p_version p = 3" if "p \<in> set out" for p
  proof -
    from s that have "sealed_by C (new_mesh C seed ctx i e d) cs p" by blast
    then obtain pt aad now where "seal_at C (new_mesh C seed ctx i e d) e (p_sequence p) pt aad now = Ok p"
      unfolding sealed_by_def new by blast
    from seal_at_header [OF this] show ?thesis by (simp add: new)
  qed
  moreover have "sorted_wrt (<) (map p_sequence out)"
    using conjunct1 [OF s] by (simp add: sorted_wrt_map word_less_nat_alt)
  ultimately show ?thesis by blast
qed

lemma toy_two_seals:
  obtains p q n where "mesh_run toy (sample_mesh 1 5) [Seal [104] [7] 50, Seal [104] [7] 50] = (([p, q], []), n)"
    "seal_at toy (sample_mesh 1 5) 5 0 [104] [7] 50 = Ok p" "seal_at toy (sample_mesh 1 5) 5 1 [104] [7] 50 = Ok q"
proof -
  have "m_tx_seq (sample_mesh 1 5) \<noteq> - 1" by simp
  then obtain p where p: "seal_realtime toy (sample_mesh 1 5) [104] [7] 50 = (Ok p, sealed_node toy (sample_mesh 1 5) p)"
    "seal_at toy (sample_mesh 1 5) 5 0 [104] [7] 50 = Ok p"
    using toy_seal [of "sample_mesh 1 5" 50] by auto
  let ?n = "sealed_node toy (sample_mesh 1 5) p"
  have "m_tx_seq ?n \<noteq> - 1" by simp
  then obtain q where q: "seal_realtime toy ?n [104] [7] 50 = (Ok q, sealed_node toy ?n q)"
    "seal_at toy ?n 5 1 [104] [7] 50 = Ok q"
    using toy_seal [of ?n 50] by auto
  have "mesh_run toy (sample_mesh 1 5) [Seal [104] [7] 50, Seal [104] [7] 50] = (([p, q], []), sealed_node toy ?n q)"
    using p(1) q(1) by simp
  moreover have "seal_at toy (sample_mesh 1 5) 5 1 [104] [7] 50 = Ok q"
    using q(2) seal_at_config [OF sealed_node_config] by metis
  ultimately show thesis using p(2) by (intro that)
qed

lemma toy_accepts:
  assumes "same_config (sample_mesh i e) n" "seal_at toy (sample_mesh 1 5) 5 s [104] [7] 50 = Ok p"
    and "peer_check (peer_of n (peer_key_of p)) (p_sequence p) (replay_window n) = Ok ()"
  shows "open_realtime toy n p [7] 60 = (Ok [104], accepted_node toy n p)"
proof (rule open_realtime_accepts [OF _ _ assms(3)])
  show dec: "decrypt_v3 toy n p [7] = Ok [104]"
    by (rule seal_at_opens [OF toy_aead_roundtrip _ assms(2)])
      (use assms(1) new_mesh_keys [of toy sample_seed "[]" 1 5 1000 i e 1000] in \<open>simp add: same_config_def same_keys_def sample_mesh_def\<close>)
  have "max_time_drift_ms n = 1000" "\<not> m_poisoned n"
    using assms(1) sample_mesh_fields(4,5) [of i e] by (auto simp only: same_config_def)
  then show "chrono_genuine toy n (p, [7], 60)"
    using seal_at_header [OF assms(2)] dec by (simp add: chrono_genuine_def abs_diff_def)
qed

lemma toy_accepts_first:
  assumes "peers (m_rx_state n) = []" "same_config (sample_mesh i e) n" "seal_at toy (sample_mesh 1 5) 5 s [104] [7] 50 = Ok p"
  shows "open_realtime toy n p [7] 60 = (Ok [104], accepted_node toy n p)"
  by (rule toy_accepts [OF assms(2,3)]) (simp add: peer_of_def btree_get_def assms(1) peer_check_default)

theorem mesh_sequences_unique_witness:
  "\<exists>p q n. mesh_run toy (sample_mesh 1 5) [Seal [104] [7] 50, Seal [104] [7] 50] = (([p, q], []), n)
     \<and> p_sequence p < p_sequence q \<and> p_node_id p = 1 \<and> p_epoch q = 5"
proof -
  obtain p q n where r: "mesh_run toy (sample_mesh 1 5) [Seal [104] [7] 50, Seal [104] [7] 50] = (([p, q], []), n)"
    using toy_two_seals by blast
  have "seals [Seal [104] [7] 50, Seal [104] [7] 50] \<le> 2 ^ 64" by simp
  from mesh_sequences_unique [OF r [unfolded sample_mesh_def] this]
  have "p_sequence p < p_sequence q \<and> p_node_id p = 1 \<and> p_epoch q = 5" by simp
  with r show ?thesis by blast
qed

text \<open>
  The bound is sharp. The call that draws the sequence 2^64 - 1 reports an error, but the atomic
  counter has wrapped to 0 by then, and from the next call on the node repeats the sequences of the
  epoch: sealing at the time of its first packet, it uses that packet's key and nonce again.
\<close>

theorem mesh_counter_wraps:
  assumes "m_tx_seq n = - 1"
  shows "fst (seal_realtime C n x y t) = Err Cifrado
    \<and> fst (seal_realtime C (snd (seal_realtime C n x y t)) pt aad now)
      = fst (seal_realtime C (n\<lparr>m_tx_seq := 0\<rparr>) pt aad now)"
proof -
  have "seal_realtime C n x y t = (Err Cifrado, n\<lparr>m_tx_seq := 0\<rparr>)"
    using assms by (simp add: seal_realtime_def seal_at_def Let_def)
  then show ?thesis by simp
qed

theorem mesh_counter_wraps_witness:
  "fst (seal_realtime toy (sample_mesh 1 5\<lparr>m_tx_seq := - 1\<rparr>) [104] [7] 50) = Err Cifrado"
  using mesh_counter_wraps [of "sample_mesh 1 5\<lparr>m_tx_seq := - 1\<rparr>"] by simp

text \<open>
  Time window. A v3 packet whose timestamp is further from the clock than the drift, in either
  direction, is refused with \<open>TiempoExpiradoOInvalido\<close> before anything else is looked at; any other
  result means that it is inside, and acceptance implies that as well. The distance is the true
  one: the unsigned arithmetic does not wrap.
\<close>

theorem mesh_time_window:
  "(fst (open_realtime C n p aad now) = Err TiempoExpiradoOInvalido \<longleftrightarrow> p_version p = 3 \<and>
      int (unat (max_time_drift_ms n)) < \<bar>int (unat now) - int (unat (p_timestamp_ms p))\<bar>)
   \<and> (is_ok (fst (open_realtime C n p aad now)) \<longrightarrow>
      \<bar>int (unat now) - int (unat (p_timestamp_ms p))\<bar> \<le> int (unat (max_time_drift_ms n)))"
proof -
  have "decrypt_v3 C n p aad \<noteq> Err TiempoExpiradoOInvalido"
    by (auto simp: decrypt_v3_def bindO_Err_iff build_aad_outcomes Let_def split: prod.splits if_splits)
  moreover have "peer_check s q w \<noteq> Err TiempoExpiradoOInvalido" for s q w
    by (simp add: peer_check_def Let_def split: option.splits)
  ultimately have "fst (open_realtime C n p aad now) = Err TiempoExpiradoOInvalido \<longleftrightarrow>
      p_version p = 3 \<and> max_time_drift_ms n < abs_diff now (p_timestamp_ms p)"
    by (auto simp: open_realtime_def Let_def split: option.splits outcome.splits)
  moreover have "\<not> max_time_drift_ms n < abs_diff now (p_timestamp_ms p)" if "is_ok (fst (open_realtime C n p aad now))"
    using that by (auto simp: open_realtime_def split: if_splits)
  ultimately show ?thesis unfolding drift_iff not_less by blast
qed

theorem mesh_time_window_witness:
  "\<exists>p. is_ok (fst (open_realtime toy (sample_mesh 2 0) p [7] 60))
     \<and> \<bar>int (unat (60 :: u64)) - int (unat (p_timestamp_ms p))\<bar> \<le> 1000"
proof -
  have "m_tx_seq (sample_mesh 1 5) \<noteq> - 1" by simp
  then obtain p where p: "seal_at toy (sample_mesh 1 5) 5 0 [104] [7] 50 = Ok p"
    using toy_seal [of "sample_mesh 1 5" 50] by auto
  have "is_ok (fst (open_realtime toy (sample_mesh 2 0) p [7] 60))"
    using toy_accepts_first [OF _ _ p, of "sample_mesh 2 0" 2 0] by (simp add: same_config_def same_keys_def)
  with mesh_time_window [of toy "sample_mesh 2 0" p "[7]" 60] show ?thesis by auto
qed

text \<open>
  Failures. No operation of the node panics. A refused packet changes nothing at all; a failed
  seal consumes one sequence number and changes nothing else.
\<close>

theorem mesh_failure_keeps_state:
  "fst (open_realtime C n p aad now) \<noteq> Panic \<and> fst (seal_realtime C n pt aad now) \<noteq> Panic
   \<and> open_persisted_record C n p aad \<noteq> Panic
   \<and> (is_ok (fst (open_realtime C n p aad now)) \<or> snd (open_realtime C n p aad now) = n)
   \<and> (is_ok (fst (seal_realtime C n pt aad now)) \<or> snd (seal_realtime C n pt aad now) = n\<lparr>m_tx_seq := m_tx_seq n + 1\<rparr>)"
proof -
  have "fst (open_realtime C n p aad now) \<noteq> Panic
      \<and> (is_ok (fst (open_realtime C n p aad now)) \<or> snd (open_realtime C n p aad now) = n)"
    by (cases rule: open_realtime_cases [where C = C and n = n and p = p and aad = aad and now = now]) simp_all
  moreover have "fst (seal_realtime C n pt aad now) \<noteq> Panic
      \<and> (is_ok (fst (seal_realtime C n pt aad now)) \<or> snd (seal_realtime C n pt aad now) = n\<lparr>m_tx_seq := m_tx_seq n + 1\<rparr>)"
    by (cases rule: seal_realtime_cases [where C = C and n = n and pt = pt and aad = aad and now = now]) simp_all
  moreover have "open_persisted_record C n p aad \<noteq> Panic"
    by (simp add: open_persisted_record_def decrypt_v3_not_Panic)
  ultimately show ?thesis by blast
qed

text \<open>
  C26: The integrity hash does not depend on the order. If the packets that one node sealed and
  accepted are, in whatever order, those that another sealed and accepted, then their integrity
  hashes agree and each verifies against the other.
\<close>

theorem integrity_order_independent:
  assumes "mesh_run C (new_mesh C seed ctx i e d) cs = ((out, acc), a)"
    and "mesh_run C (new_mesh C seed' ctx' i' e' d') cs' = ((out', acc'), b)"
    and "mset (out @ acc) = mset (out' @ acc')"
  shows "current_integrity_sha256 a = current_integrity_sha256 b
    \<and> verify_integrity_checkpoint b (current_integrity_sha256 a) = Ok ()"
proof -
  have new: "\<not> m_poisoned (new_mesh C s c i e d)"
    "multiset_integrity_hash (m_rx_state (new_mesh C s c i e d)) = replicate 32 0" for s c i e d
    by (simp_all add: new_mesh_def Let_def)
  have "current_integrity_sha256 a = current_integrity_sha256 b"
    using mesh_run_integrity [OF assms(1) new(1)] mesh_run_integrity [OF assms(2) new(1)]
      integrity_mset [OF assms(3), of C] by (simp add: current_integrity_sha256_def lock_rx_def new)
  then show ?thesis by (simp add: verify_integrity_checkpoint_def xor_diff_0_iff)
qed

theorem integrity_order_independent_witness:
  "\<exists>p q a b. mesh_run toy (sample_mesh 1 5) [Seal [104] [7] 50, Seal [104] [7] 50] = (([p, q], []), a)
     \<and> mesh_run toy (sample_mesh 2 0) [Open q [7] 60, Open p [7] 60] = (([], [q, p]), b)
     \<and> verify_integrity_checkpoint b (current_integrity_sha256 a) = Ok ()"
proof -
  obtain p q a where a: "mesh_run toy (sample_mesh 1 5) [Seal [104] [7] 50, Seal [104] [7] 50] = (([p, q], []), a)"
    "seal_at toy (sample_mesh 1 5) 5 0 [104] [7] 50 = Ok p" "seal_at toy (sample_mesh 1 5) 5 1 [104] [7] 50 = Ok q"
    by (rule toy_two_seals)
  let ?b = "sample_mesh 2 0" and ?c = "accepted_node toy (sample_mesh 2 0) q"
  have q: "open_realtime toy ?b q [7] 60 = (Ok [104], ?c)"
    by (rule toy_accepts_first [OF _ _ a(3), of _ 2 0]) (simp_all add: same_config_def same_keys_def)
  then have "mesh_run toy ?b [Open q [7] 60] = (([], [q]), ?c)" by simp
  from mesh_window_open [OF this [unfolded sample_mesh_def], of p] seal_at_header [OF a(2)] seal_at_header [OF a(3)]
  have "peer_check (peer_of ?c (peer_key_of p)) (p_sequence p) (replay_window ?c) = Ok ()"
    by (simp add: sample_mesh_def)
  from toy_accepts [OF accepted_node_config a(2) this]
  have "mesh_run toy ?b [Open q [7] 60, Open p [7] 60] = (([], [q, p]), accepted_node toy ?c p)"
    using q by simp
  with integrity_order_independent [OF a(1) [unfolded sample_mesh_def] this [unfolded sample_mesh_def]] a(1) this
  show ?thesis by (auto simp: sample_mesh_def)
qed

text \<open>
  But it is an exclusive or, not a count: a node that accepts its own packet, say from a
  broadcast, is left with the integrity hash from before it sealed the packet, as if the packet had
  never existed.
\<close>

theorem integrity_loopback_cancels:
  assumes "\<not> m_poisoned n" and "seal_realtime C n pt aad now = (Ok p, n1)"
    and "open_realtime C n1 p aad now' = (Ok m, n2)"
  shows "current_integrity_sha256 n2 = current_integrity_sha256 n"
proof -
  have n1: "n1 = sealed_node C n p"
    using assms(2) by (cases rule: seal_realtime_cases [where C = C and n = n and pt = pt and aad = aad and now = now]) auto
  have n2: "n2 = accepted_node C n1 p"
    using assms(3) by (cases rule: open_realtime_cases [where C = C and n = n1 and p = p and aad = aad and now = now']) auto
  show ?thesis
    using assms(1) by (simp add: n1 n2 current_integrity_sha256_def lock_rx_def fold_packet_into_integrity_hash_def xor_into_cancel)
qed

theorem integrity_loopback_cancels_witness:
  "\<exists>p n1 n2. seal_realtime toy (sample_mesh 1 5) [104] [7] 50 = (Ok p, n1)
     \<and> open_realtime toy n1 p [7] 60 = (Ok [104], n2)
     \<and> current_integrity_sha256 n2 = current_integrity_sha256 (sample_mesh 1 5)"
proof -
  let ?n = "sample_mesh 1 5"
  have "m_tx_seq ?n \<noteq> - 1" by simp
  then obtain p where p: "seal_realtime toy ?n [104] [7] 50 = (Ok p, sealed_node toy ?n p)"
    "seal_at toy ?n 5 0 [104] [7] 50 = Ok p"
    using toy_seal [of ?n 50] by auto
  have o: "open_realtime toy (sealed_node toy ?n p) p [7] 60 = (Ok [104], accepted_node toy (sealed_node toy ?n p) p)"
    by (rule toy_accepts_first [OF _ sealed_node_config p(2)]) simp
  have "\<not> m_poisoned ?n" by simp
  from integrity_loopback_cancels [OF this p(1) o] p(1) o show ?thesis by blast
qed

end
