(* ===== verification/Checkpoint.thy ===== *)
theory Checkpoint
  imports Chrono
begin

text \<open>
  What \<open>export_checkpoint\<close> and \<open>restore_checkpoint\<close> of \<open>src/modes/chrono.rs\<close> (defined in \<open>Chrono\<close>)
  guarantee together: reading a checkpoint back, replay protection across a crash, the sequences
  of a restored node, and the behaviour on arbitrary bytes.
\<close>

section \<open>Reading back\<close>

text \<open>What a checkpoint keeps of a peer's state: no counter, and 2^64 - 1 reads as nothing seen.\<close>

definition stored_peer :: "peer_state \<Rightarrow> peer_state" where
  "stored_peer s = \<lparr>highest_seen = (if highest_seen s = Some (- 1) then None else highest_seen s),
     seen_bitmap = seen_bitmap s, received_count = 0\<rparr>"

definition stored_peers :: "(peer_key, peer_state) btree \<Rightarrow> (peer_key, peer_state) btree" where
  "stored_peers ps = map (\<lambda>(k, s). (k, stored_peer s)) ps"

lemma length_encode_peer [simp]: "length (encode_peer x) = 36"
  by (simp add: encode_peer_def split: prod.splits)

lemma length_encode_peers [simp]: "length (concat (map encode_peer ps)) = 36 * length ps"
  by (induction ps) simp_all

lemma parse_peers_encoded:
  assumes "length pre = k"
  shows "parse_peers (pre @ concat (map encode_peer ps) @ post) (length ps) k m = Ok (btree.insert_all m (stored_peers ps))"
  using assms
proof (induction ps arbitrary: pre k m)
  case Nil
  then show ?case by (simp add: btree.insert_all_def stored_peers_def)
next
  case (Cons x ps)
  obtain key s where x: "x = (key, s)" by (cases x)
  let ?raw = "pre @ concat (map encode_peer (x # ps)) @ post"
  let ?h = "case highest_seen s of Some h \<Rightarrow> h | None \<Rightarrow> - 1"
  have raw: "?raw = pre @ u32_to_be (pk_node key) @ u64_to_be (pk_epoch key) @ u64_to_be ?h @ u128_to_be (seen_bitmap s)
      @ concat (map encode_peer ps) @ post"
    by (simp add: x encode_peer_def)
  have reads: "unwrap_u32 ?raw k = Ok (pk_node key)" "unwrap_u64 ?raw (k + 4) = Ok (pk_epoch key)"
    "unwrap_u64 ?raw (k + 12) = Ok ?h" "unwrap_u128 ?raw (k + 20) = Ok (seen_bitmap s)"
    unfolding raw using Cons.prems by simp_all
  have st: "\<lparr>highest_seen = (if ?h = - 1 then None else Some ?h), seen_bitmap = seen_bitmap s, received_count = 0\<rparr> = stored_peer s"
    by (auto simp: stored_peer_def split: option.splits)
  have "?raw = (pre @ encode_peer x) @ concat (map encode_peer ps) @ post" by simp
  then have "parse_peers ?raw (length ps) (k + 36) (btree_insert m key (stored_peer s))
      = Ok (btree.insert_all (btree_insert m key (stored_peer s)) (stored_peers ps))"
    using Cons.IH [of "pre @ encode_peer x" "k + 36"] Cons.prems by simp
  then show ?case
    by (simp only: length_Cons parse_peers.simps reads bindO.simps peer_key.collapse st)
      (simp add: x btree.insert_all_def stored_peers_def)
qed

lemma stored_peers_ok: "btree_ok ps \<Longrightarrow> btree_ok (stored_peers ps)"
  by (simp add: btree_ok_def stored_peers_def o_def split_def)

lemma parse_stored: "btree_ok ps \<Longrightarrow> btree.insert_all [] (stored_peers ps) = stored_peers ps"
  using btree.rebuild [OF stored_peers_ok] by simp

text \<open>The nodes whose checkpoints are considered: well-formed maps, hashes and keys.\<close>

definition node_ok :: "mesh_node \<Rightarrow> bool" where
  "node_ok n \<longleftrightarrow> btree_ok (peers (m_rx_state n)) \<and> length (multiset_integrity_hash (m_rx_state n)) = 32"

lemma new_mesh_ok: "node_ok (new_mesh C seed ctx i e d)"
  by (simp add: node_ok_def new_mesh_def Let_def btree_ok_def)

lemma read_exported:
  assumes "aead_roundtrip C" "aead_length C" "length rnd = 12" "node_ok n"
    and "export_checkpoint C rnd n wrap = Ok bs" "same_keys n m" "m_node_id n = m_node_id m"
  shows "read_checkpoint C m bs wrap = Ok \<lparr>saved_epoch = m_epoch n, saved_tx_seq = m_tx_seq n,
    saved_hash = multiset_integrity_hash (m_rx_state n), saved_peers = stored_peers (peers (m_rx_state n))\<rparr>"
proof -
  let ?ps = "peers (m_rx_state n)" and ?hash = "multiset_integrity_hash (m_rx_state n)"
  let ?c = "word_of_nat (length ?ps) :: u32"
  let ?head = "u32_to_be (m_node_id n) @ u64_to_be (m_epoch n) @ u64_to_be (m_tx_seq n) @ ?hash @ u32_to_be ?c"
  let ?raw = "?head @ concat (map encode_peer ?ps)"
  from assms(4) have ok: "btree_ok ?ps" "length ?hash = 32" by (simp_all add: node_ok_def)
  from assms(5) obtain ct where e: "length ?ps < 2 ^ 32" "aead_enc C wrap rnd (mesh_aad n) ?raw = Some ct"
    "bs = MESH_STATE_MAGIC @ [MESH_STATE_VERSION] @ rnd @ ct"
    by (auto simp: export_checkpoint_def bindO_Ok_iff lock_rx_def u32_try_from_Some Let_def split: if_splits)
  have magic: "length MESH_STATE_MAGIC = 4" by (simp add: MESH_STATE_MAGIC_def)
  have len: "length ct = length ?raw + 16" using aead_lengthD [OF assms(2) e(2)] .
  have dec: "aead_dec C wrap rnd (mesh_aad m) ct = Some ?raw"
    using aead_roundtripD [OF assms(1) e(2)] assms(6) by (simp add: mesh_aad_def same_keys_def)
  have frame: "slice bs 0 4 = Ok MESH_STATE_MAGIC" "byte_at bs 4 = Ok MESH_STATE_VERSION"
    "copy_slice NONCE_LEN bs 5 (5 + NONCE_LEN) = Ok rnd" "slice_from bs (5 + NONCE_LEN) = Ok ct"
    "\<not> length bs < 4 + 1 + NONCE_LEN + TAG_LEN"
    using assms(3) len magic by (simp_all add: e(3) NONCE_LEN_def TAG_LEN_def byte_at_def nth_append)
  have cnt: "unat ?c = length ?ps" using e(1) by (simp add: unat_u32_len)
  have lr: "length ?head = 56" "length ?raw = 56 + 36 * length ?ps" using ok by simp_all
  have fields: "unwrap_u32 ?raw 0 = Ok (m_node_id m)" "unwrap_u64 ?raw 4 = Ok (m_epoch n)" "unwrap_u64 ?raw 12 = Ok (m_tx_seq n)"
    "copy_slice 32 ?raw 20 52 = Ok ?hash" "unwrap_u32 ?raw 52 = Ok ?c"
    using ok assms(7) by simp_all
  have parse: "parse_peers ?raw (unat ?c) 56 [] = Ok (stored_peers ?ps)"
    using parse_peers_encoded [OF lr(1), of ?ps "[]" "[]"] by (simp add: cnt parse_stored ok)
  have "usize_checked_mul (unat ?c) 36 = Some (36 * length ?ps)" "usize_checked_add 56 (36 * length ?ps) = Some (56 + 36 * length ?ps)"
    using e(1) by (simp_all add: cnt usize_checked_mul_def usize_checked_add_def)
  then show ?thesis
    unfolding read_checkpoint_def decode_checkpoint_def
    by (simp only: frame bindO.simps dec ok_or.simps fields parse lr(2)) simp
qed

section \<open>Never a panic\<close>

lemma parse_peers_total:
  "offset + 36 * k \<le> length raw \<Longrightarrow> \<exists>m'. parse_peers raw k offset m = Ok m'"
  by (induction k arbitrary: offset m) (simp_all add: algebra_simps)

lemma decode_checkpoint_not_Panic: "decode_checkpoint n raw \<noteq> Panic"
proof (cases "length raw < 56")
  case True
  then show ?thesis by (simp add: decode_checkpoint_def)
next
  case False
  then obtain i e s h c where reads: "unwrap_u32 raw 0 = Ok i" "unwrap_u64 raw 4 = Ok e" "unwrap_u64 raw 12 = Ok s"
    "copy_slice 32 raw 20 52 = Ok h" "unwrap_u32 raw 52 = Ok c"
    by simp
  have parse: "parse_peers raw (unat c) 56 [] \<noteq> Panic" if "length raw = 56 + unat c * 36"
    using parse_peers_total [of 56 "unat c" raw "[]"] that by fastforce
  show ?thesis
    unfolding decode_checkpoint_def reads bindO.simps
    using parse by (auto simp: bindO_Panic_iff usize_checked_mul_def usize_checked_add_def)
qed

lemma read_checkpoint_not_Panic: "read_checkpoint C n bs wrap \<noteq> Panic"
proof (cases "length bs < 33")
  case True
  then show ?thesis by (simp add: read_checkpoint_def NONCE_LEN_def TAG_LEN_def)
next
  case False
  then show ?thesis
    using decode_checkpoint_not_Panic
    by (simp add: read_checkpoint_def NONCE_LEN_def TAG_LEN_def bindO_Panic_iff)
qed

lemma restore_cases:
  obtains (restored) st where "read_checkpoint C n bs wrap = Ok st" "\<not> m_poisoned n"
      "restore_checkpoint C n bs wrap = (Ok (), n\<lparr>m_epoch := max (m_epoch n) (saturating_add (saved_epoch st) 1),
         m_tx_seq := saved_tx_seq st,
         m_rx_state := \<lparr>peers = saved_peers st, multiset_integrity_hash = saved_hash st\<rparr>\<rparr>)"
  | (unreadable) e where "restore_checkpoint C n bs wrap = (Err e, n)"
  | (poisoned) e n' where "m_poisoned n" "restore_checkpoint C n bs wrap = (Err e, n')"
  using read_checkpoint_not_Panic [of C n bs wrap]
  by (cases "read_checkpoint C n bs wrap"; cases "m_poisoned n")
    (auto simp: restore_checkpoint_def lock_rx_def Let_def)

section \<open>Before and after a crash\<close>

lemma length_integrity [simp]: "length (integrity C ps h) = length h"
  unfolding integrity_def by (induction ps arbitrary: h) (simp_all add: fold_packet_into_integrity_hash_def)

lemma mesh_run_ok:
  assumes "mesh_run C (new_mesh C seed ctx i e d) cs = ((out, acc), n)"
  shows "node_ok n" "same_config (new_mesh C seed ctx i e d) n" "node_rel n (after (\<lambda>k. {}) acc)" "\<not> m_poisoned n"
proof -
  let ?n = "new_mesh C seed ctx i e d"
  have new: "\<not> m_poisoned ?n" "multiset_integrity_hash (m_rx_state ?n) = replicate 32 0"
    by (simp_all add: new_mesh_def Let_def)
  show rel: "node_rel n (after (\<lambda>k. {}) acc)" and cfg: "same_config ?n n"
    using mesh_run_refines [OF new_mesh_rel assms] by blast+
  show "\<not> m_poisoned n" using cfg new(1) by (metis same_config_def)
  have "length (multiset_integrity_hash (m_rx_state n)) = 32"
    using mesh_run_integrity [OF assms new(1)] new(2) by simp
  with rel show "node_ok n" by (simp add: node_ok_def node_rel_def)
qed

text \<open>Every packet of a run has the node's identity and epoch.\<close>

lemma mesh_run_epoch:
  "mesh_run C n cs = ((out, acc), n') \<Longrightarrow> (\<forall>p \<in> set out. p_epoch p = m_epoch n \<and> p_node_id p = m_node_id n) \<and> m_epoch n' = m_epoch n"
proof (induction cs arbitrary: n out acc)
  case Nil
  then show ?case by simp
next
  case (Cons c cs)
  show ?case
  proof (cases c)
    case c: (Open p aad now)
    obtain r m where o: "open_realtime C n p aad now = (r, m)" by fastforce
    obtain acc' where "mesh_run C m cs = ((out, acc'), n')"
      using Cons.prems o by (auto simp: c split: prod.splits)
    from Cons.IH [OF this] open_realtime_frame [OF o] show ?thesis by (simp add: same_config_def)
  next
    case c: (Seal pt aad now)
    show ?thesis
    proof (cases rule: seal_realtime_cases [where C = C and n = n and pt = pt and aad = aad and now = now])
      case (sealed p)
      obtain out' where "mesh_run C (sealed_node C n p) cs = ((out', acc), n')" "out = p # out'"
        using Cons.prems sealed by (auto simp: c split: prod.splits)
      with Cons.IH seal_at_header [OF sealed(2)] show ?thesis by fastforce
    next
      case (failed e)
      then have "mesh_run C (n\<lparr>m_tx_seq := m_tx_seq n + 1\<rparr>) cs = ((out, acc), n')"
        using Cons.prems by (auto simp: c split: prod.splits)
      from Cons.IH [OF this] show ?thesis by simp
    qed
  qed
qed

lemma stored_peer_rel: "peer_rel w s S \<Longrightarrow> - 1 \<notin> S \<Longrightarrow> peer_rel w (stored_peer s) S"
proof (cases "highest_seen s")
  case None
  then show "peer_rel w s S \<Longrightarrow> - 1 \<notin> S \<Longrightarrow> ?thesis" by (simp add: peer_rel_def stored_peer_def)
next
  case (Some h)
  assume "peer_rel w s S" "- 1 \<notin> S"
  then have "h \<in> S" unfolding peer_rel_def Some window_rel_Some by (metis Max_in finite)
  with \<open>- 1 \<notin> S\<close> have "h \<noteq> - 1" by metis
  with \<open>peer_rel w s S\<close> Some show ?thesis by (simp add: peer_rel_def stored_peer_def)
qed

lemma restored_rel:
  assumes "node_rel n A" "\<forall>k. - 1 \<notin> A k" "replay_window m = 128"
    and "peers (m_rx_state m) = stored_peers (peers (m_rx_state n))"
  shows "node_rel m A"
proof -
  have "btree_get (stored_peers ps) k = map_option stored_peer (btree_get ps k)" for ps k
    by (induction ps) (auto simp: stored_peers_def btree_get_def)
  then have "peer_of m k = (case btree_get (peers (m_rx_state n)) k of Some s \<Rightarrow> stored_peer s | None \<Rightarrow> peer_default)" for k
    by (simp add: peer_of_def assms(4) split: option.splits)
  then have "peer_of m k = (if btree_get (peers (m_rx_state n)) k = None then peer_of n k else stored_peer (peer_of n k))" for k
    by (auto simp: peer_of_def)
  moreover have "peer_rel 128 (peer_of n k) (A k)" for k using assms(1) by (simp add: node_rel_def)
  ultimately have "peer_rel 128 (peer_of m k) (A k)" for k
    using assms(2) stored_peer_rel by simp
  then show ?thesis using assms stored_peers_ok by (simp add: node_rel_def)
qed

text \<open>A node run, its checkpoint, and what restoring it gives.\<close>

lemma restored_after_run:
  assumes "aead_roundtrip C" "aead_length C" "length rnd = 12"
    and "mesh_run C (new_mesh C seed ctx i e d) cs = ((out, acc), n)" "export_checkpoint C rnd n wrap = Ok bs"
  shows "restore_checkpoint C (new_mesh C seed ctx i e' d') bs wrap = (Ok (), (new_mesh C seed ctx i e' d')
    \<lparr>m_epoch := max e' (saturating_add e 1), m_tx_seq := m_tx_seq n,
     m_rx_state := \<lparr>peers = stored_peers (peers (m_rx_state n)), multiset_integrity_hash = multiset_integrity_hash (m_rx_state n)\<rparr>\<rparr>)"
proof -
  let ?m = "new_mesh C seed ctx i e' d'"
  note run = mesh_run_ok [OF assms(4)]
  have new: "m_node_id ?m = i" "\<not> m_poisoned ?m" "m_epoch ?m = e'" "m_epoch (new_mesh C seed ctx i e d) = e"
    by (simp_all add: new_mesh_def Let_def)
  have "same_keys n ?m" "m_node_id n = m_node_id ?m"
    using run(2) new_mesh_keys [of C seed ctx i e d i e' d'] by (auto simp: same_config_def same_keys_def new_mesh_def Let_def)
  from read_exported [OF assms(1-3) run(1) assms(5) this] mesh_run_epoch [OF assms(4)] new show ?thesis
    by (simp add: restore_checkpoint_def lock_rx_def Let_def)
qed

lemma resumed_no_replay:
  assumes "aead_roundtrip C" and "aead_length C" and "length rnd = 12"
    and "mesh_run C (new_mesh C seed ctx i e d) cs = ((out, acc), n)" and "export_checkpoint C rnd n wrap = Ok bs"
    and "\<forall>p \<in> set acc. p_sequence p \<noteq> - 1"
    and "restore_checkpoint C (new_mesh C seed ctx i e' d') bs wrap = (r, m)"
    and "mesh_run C m cs' = ((out', acc'), m')"
  shows "r = Ok () \<and> distinct (map mesh_id (acc @ acc'))
    \<and> current_integrity_sha256 m' = integrity C (out @ acc @ out' @ acc') (replicate 32 0)"
proof -
  let ?n = "new_mesh C seed ctx i e d" and ?m = "new_mesh C seed ctx i e' d'"
  let ?A = "after (\<lambda>k. {}) acc"
  note restored = restored_after_run [OF assms(1-5), of e' d', unfolded assms(7) prod.inject]
  then have r: "r = Ok ()" and ps: "peers (m_rx_state m) = stored_peers (peers (m_rx_state n))"
    and h: "multiset_integrity_hash (m_rx_state m) = multiset_integrity_hash (m_rx_state n)"
    and m: "replay_window m = 128" "\<not> m_poisoned m"
    by (simp_all add: new_mesh_def Let_def MESH_WINDOW_def)
  note run = mesh_run_refines [OF new_mesh_rel assms(4)] mesh_run_ok [OF assms(4)]
  have "\<forall>k. - 1 \<notin> ?A k" using assms(6) by (auto simp: after_def mesh_id_def)
  from mesh_run_refines [OF restored_rel [OF run(4) this m(1) ps] assms(8)]
  have eq: "map mesh_id acc' = mesh_spec 128 ?A (mesh_arrivals C m cs')" by blast
  note fresh = mesh_spec_fresh [of 128 ?A "mesh_arrivals C m cs'", folded eq]
  have "x \<notin> mesh_id ` set acc" if "x \<in> set (map mesh_id acc')" for x
  proof -
    obtain k q where x: "x = (k, q)" by fastforce
    from fresh that have "q \<notin> ?A k" unfolding x by blast
    then show ?thesis unfolding x after_def by blast
  qed
  then have "set (map mesh_id acc) \<inter> set (map mesh_id acc') = {}" unfolding set_map by blast
  moreover have "distinct (map mesh_id acc)"
    unfolding conjunct1 [OF run(1)] using mesh_spec_fresh by blast
  ultimately have "distinct (map mesh_id (acc @ acc'))"
    unfolding map_append distinct_append using fresh by blast
  moreover have "current_integrity_sha256 m' = integrity C (out @ acc @ out' @ acc') (replicate 32 0)"
  proof -
    have "\<not> m_poisoned ?n" "multiset_integrity_hash (m_rx_state ?n) = replicate 32 0"
      by (simp_all add: new_mesh_def Let_def)
    then show ?thesis
      using mesh_run_integrity [OF assms(8) m(2)] mesh_run_integrity [OF assms(4)] h
      by (simp add: current_integrity_sha256_def lock_rx_def integrity_def)
  qed
  ultimately show ?thesis using r by blast
qed

lemma resumed_epoch_later:
  assumes "aead_roundtrip C" and "aead_length C" and "length rnd = 12"
    and "mesh_run C (new_mesh C seed ctx i e d) cs = ((out, acc), n)" and "export_checkpoint C rnd n wrap = Ok bs"
    and "mesh_run C n lost = ((out_lost, acc_lost), n')" and "e \<noteq> - 1"
    and "restore_checkpoint C (new_mesh C seed ctx i e' d') bs wrap = (r, m)"
    and "mesh_run C m cs' = ((out', acc'), m')"
  shows "\<forall>p \<in> set out \<union> set out_lost. \<forall>q \<in> set out'. p_epoch p < p_epoch q"
proof -
  have m: "m_epoch m = max e' (saturating_add e 1)"
    using restored_after_run [OF assms(1-5), of e' d'] assms(8) by auto
  have "saturating_add e 1 = e + 1"
    using assms(7) checked_add_1_None [of e] by (auto simp: saturating_add_def checked_add_def split: if_splits)
  moreover have "e < e + 1" using unat_Suc [OF assms(7)] by (simp add: word_less_nat_alt)
  ultimately have "e < m_epoch m" unfolding m by (simp add: less_max_iff_disj)
  moreover have "m_epoch n = e" "\<forall>p \<in> set out. p_epoch p = e"
    using mesh_run_epoch [OF assms(4)] by (simp_all add: new_mesh_def Let_def)
  ultimately show ?thesis
    using mesh_run_epoch [OF assms(6)] mesh_run_epoch [OF assms(9)] by auto
qed

text \<open>Exports of the toy instance, for the witnesses.\<close>

lemma toy_exports: "\<not> m_poisoned n \<Longrightarrow> length (peers (m_rx_state n)) < 2 ^ 32 \<Longrightarrow> \<exists>bs. export_checkpoint toy rnd n wrap = Ok bs"
  by (simp add: export_checkpoint_def lock_rx_def u32_try_from_def Let_def toy_def toy_enc_def)

lemma toy_sample_export:
  obtains bs where "export_checkpoint toy (replicate 12 3) (sample_mesh i e) [8] = Ok bs"
  using toy_exports [of "sample_mesh i e"] by auto

lemma sample_mesh_idle: "mesh_run toy (new_mesh toy sample_seed [] i e 1000) [] = (([], []), sample_mesh i e)"
  by (simp add: sample_mesh_def)

lemma mesh_run_append:
  "mesh_run C n (cs @ cs') = (case mesh_run C n cs of ((out, acc), n1) \<Rightarrow>
     case mesh_run C n1 cs' of ((out', acc'), n2) \<Rightarrow> ((out @ out', acc @ acc'), n2))"
proof (induction cs arbitrary: n)
  case (Cons c cs)
  then show ?case by (cases c) (auto split: prod.splits outcome.splits)
qed (simp split: prod.splits)

lemma accepted_once:
  assumes "mesh_run C (new_mesh C seed ctx i e d) cs = ((out, acc), m)" "p \<in> set acc" "mesh_id q = mesh_id p"
  shows "\<not> is_ok (fst (open_realtime C m q aad now))"
proof
  assume ok: "is_ok (fst (open_realtime C m q aad now))"
  obtain r m' where o: "open_realtime C m q aad now = (r, m')" by fastforce
  then have "mesh_run C (new_mesh C seed ctx i e d) (cs @ [Open q aad now]) = ((out, acc @ [q]), m')"
    using ok by (simp add: mesh_run_append assms(1))
  from mesh_run_refines [OF new_mesh_rel this] mesh_spec_fresh [of 128 "\<lambda>k. {}"] have "distinct (map mesh_id (acc @ [q]))" by simp
  with assms(2,3) show False by force
qed

section \<open>Properties\<close>

text \<open>
  C16: A checkpoint restores the node. Exporting a node and restoring the bytes on a node of the same
  seed, context and identity succeeds and gives: the later of its own epoch and the saved one plus
  one, the saved sequence counter, the same integrity hash, and for every peer the same window
  (with a zero counter, and a maximum of 2^64 - 1 read as none).
\<close>

theorem checkpoint_roundtrip:
  assumes "aead_roundtrip C" and "aead_length C" and "length rnd = 12" and "node_ok n"
    and "export_checkpoint C rnd n wrap = Ok bs" and "same_keys n m" and "m_node_id n = m_node_id m" and "\<not> m_poisoned m"
  shows "\<exists>m'. restore_checkpoint C m bs wrap = (Ok (), m')
    \<and> current_epoch m' = max (current_epoch m) (saturating_add (current_epoch n) 1)
    \<and> current_tx_seq m' = current_tx_seq n
    \<and> current_integrity_sha256 m' = multiset_integrity_hash (m_rx_state n)
    \<and> (\<forall>k. btree_get (peers (m_rx_state m')) k = map_option stored_peer (btree_get (peers (m_rx_state n)) k))"
proof -
  have "btree_get (stored_peers ps) k = map_option stored_peer (btree_get ps k)" for ps k
    by (induction ps) (auto simp: stored_peers_def btree_get_def)
  with read_exported [OF assms(1-7)] assms(8) show ?thesis
    by (simp add: restore_checkpoint_def lock_rx_def Let_def current_epoch_def current_tx_seq_def current_integrity_sha256_def)
qed

theorem checkpoint_roundtrip_witness:
  "\<exists>bs m'. export_checkpoint toy (replicate 12 3) (sample_mesh 1 5) [8] = Ok bs
     \<and> restore_checkpoint toy (sample_mesh 1 0) bs [8] = (Ok (), m') \<and> current_epoch m' = 6"
proof -
  obtain bs where bs: "export_checkpoint toy (replicate 12 3) (sample_mesh 1 5) [8] = Ok bs" by (rule toy_sample_export)
  have "node_ok (sample_mesh 1 5)" "same_keys (sample_mesh 1 5) (sample_mesh 1 0)"
    by (simp_all add: sample_mesh_def new_mesh_ok new_mesh_keys)
  from checkpoint_roundtrip [OF toy_aead_roundtrip toy_aead_length _ this(1) bs this(2)]
  obtain m' where "restore_checkpoint toy (sample_mesh 1 0) bs [8] = (Ok (), m')"
    "current_epoch m' = max (current_epoch (sample_mesh 1 0)) (saturating_add (current_epoch (sample_mesh 1 5)) 1)"
    by auto
  with bs show ?thesis by (auto simp: current_epoch_def saturating_add_def)
qed

text \<open>
  Restoring arbitrary bytes is safe. It never panics, whatever the input (its slices and
  \<open>unwrap\<close>s are all inside the checked lengths), and on failure the node is untouched.
\<close>

theorem restore_total:
  "fst (restore_checkpoint C n bs wrap) \<noteq> Panic
   \<and> (is_ok (fst (restore_checkpoint C n bs wrap)) \<or> m_poisoned n \<or> snd (restore_checkpoint C n bs wrap) = n)"
  by (cases rule: restore_cases [where C = C and n = n and bs = bs and wrap = wrap]) simp_all

text \<open>
  C7: No replay across a crash. A node runs, exports a checkpoint, and a new process with the same
  seed, context and identity restores it: no packet accepted before the checkpoint is accepted
  again afterwards, and the integrity hash continues as if nothing had happened. (The number
  2^64 - 1, which no sealing produces, is the one sequence a checkpoint cannot store.)
\<close>

theorem checkpoint_no_replay:
  assumes "aead_roundtrip C" and "aead_length C" and "length rnd = 12"
    and "mesh_run C (new_mesh C seed ctx i e d) cs = ((out, acc), n)" and "export_checkpoint C rnd n wrap = Ok bs"
    and "\<forall>p \<in> set acc. p_sequence p \<noteq> - 1"
    and "restore_checkpoint C (new_mesh C seed ctx i e' d') bs wrap = (r, m)"
    and "mesh_run C m cs' = ((out', acc'), m')"
  shows "r = Ok () \<and> distinct (map mesh_id (acc @ acc'))
    \<and> current_integrity_sha256 m' = integrity C (out @ acc @ out' @ acc') (replicate 32 0)"
  using assms by (rule resumed_no_replay)

theorem checkpoint_no_replay_witness:
  "\<exists>p n bs m acc' m'. mesh_run toy (sample_mesh 2 0) [Open p [7] 60] = (([], [p]), n)
     \<and> export_checkpoint toy (replicate 12 3) n [8] = Ok bs
     \<and> restore_checkpoint toy (sample_mesh 2 0) bs [8] = (Ok (), m)
     \<and> mesh_run toy m [Open p [7] 60] = (([], acc'), m') \<and> distinct (map mesh_id (p # acc'))"
proof -
  obtain p q a where "seal_at toy (sample_mesh 1 5) 5 0 [104] [7] 50 = Ok p" by (rule toy_two_seals)
  note seq = seal_at_header [OF this] and o = toy_accepts_first [OF _ _ this, of "sample_mesh 2 0" 2 0]
  let ?n = "accepted_node toy (sample_mesh 2 0) p"
  have run: "mesh_run toy (sample_mesh 2 0) [Open p [7] 60] = (([], [p]), ?n)"
    using o by (simp add: same_config_def same_keys_def)
  have "length (peers (m_rx_state ?n)) = 1" by (simp add: accepted_node_def Let_def fold_in_def)
  then obtain bs where bs: "export_checkpoint toy (replicate 12 3) ?n [8] = Ok bs"
    using toy_exports [of ?n] by auto
  obtain r m where m: "restore_checkpoint toy (sample_mesh 2 0) bs [8] = (r, m)" by fastforce
  obtain out' acc' m' where run': "mesh_run toy m [Open p [7] 60] = ((out', acc'), m')" by (metis prod.collapse)
  then have "out' = []" by (auto split: prod.splits)
  have "r = Ok () \<and> distinct (map mesh_id (p # acc'))"
    using checkpoint_no_replay [OF toy_aead_roundtrip toy_aead_length _ run [unfolded sample_mesh_def] bs [unfolded sample_mesh_def]
      _ m [unfolded sample_mesh_def] run'] seq by simp
  with run bs m run' \<open>out' = []\<close> show ?thesis by (simp only:) blast
qed

text \<open>
  A restored node does not repeat a sequence of its past. Whatever the crashed process sealed
  before or after the checkpoint it exported, the packets of the restored one carry a later epoch,
  so no (node, epoch, sequence) occurs twice, as long as the epoch is not 2^64 - 1.
\<close>

theorem restored_epoch_fresh:
  assumes "aead_roundtrip C" and "aead_length C" and "length rnd = 12"
    and "mesh_run C (new_mesh C seed ctx i e d) cs = ((out, acc), n)" and "export_checkpoint C rnd n wrap = Ok bs"
    and "mesh_run C n lost = ((out_lost, acc_lost), n')" and "e \<noteq> - 1"
    and "restore_checkpoint C (new_mesh C seed ctx i e' d') bs wrap = (r, m)"
    and "mesh_run C m cs' = ((out', acc'), m')"
  shows "\<forall>p \<in> set out \<union> set out_lost. \<forall>q \<in> set out'. p_epoch p < p_epoch q"
  using assms by (rule resumed_epoch_later)

theorem restored_epoch_fresh_witness:
  "\<exists>p n' bs m q m'. mesh_run toy (sample_mesh 1 5) [Seal [104] [7] 50] = (([p], []), n')
     \<and> export_checkpoint toy (replicate 12 3) (sample_mesh 1 5) [8] = Ok bs
     \<and> restore_checkpoint toy (sample_mesh 1 0) bs [8] = (Ok (), m)
     \<and> mesh_run toy m [Seal [105] [] 50] = (([q], []), m') \<and> p_epoch p < p_epoch q"
proof -
  obtain bs where bs: "export_checkpoint toy (replicate 12 3) (sample_mesh 1 5) [8] = Ok bs" by (rule toy_sample_export)
  have "m_tx_seq (sample_mesh 1 5) \<noteq> - 1" by simp
  then obtain p where "seal_realtime toy (sample_mesh 1 5) [104] [7] 50 = (Ok p, sealed_node toy (sample_mesh 1 5) p)"
    by (rule toy_seal)
  then have lost: "mesh_run toy (sample_mesh 1 5) [Seal [104] [7] 50] = (([p], []), sealed_node toy (sample_mesh 1 5) p)" by simp
  obtain m where m: "restore_checkpoint toy (new_mesh toy sample_seed [] 1 0 1000) bs [8] = (Ok (), m)" "m_tx_seq m = 0"
    using restored_after_run [OF toy_aead_roundtrip toy_aead_length _ sample_mesh_idle bs] by simp
  obtain q where "seal_at toy m (m_epoch m) (m_tx_seq m) [105] [] 50 = Ok q"
    using toy_seal_at [of "m_tx_seq m"] m(2) by fastforce
  then obtain m' where "seal_realtime toy m [105] [] 50 = (Ok q, m')"
    by (cases rule: seal_realtime_cases [where C = toy and n = m and pt = "[105]" and aad = "[]" and now = 50]) auto
  then have run': "mesh_run toy m [Seal [105] [] 50] = (([q], []), m')" by simp
  have "p_epoch p < p_epoch q"
    using restored_epoch_fresh [OF toy_aead_roundtrip toy_aead_length _ sample_mesh_idle bs lost _ m(1) run'] by simp
  with bs lost m run' show ?thesis unfolding sample_mesh_def by blast
qed

text \<open>
  C34: Restoring one checkpoint twice repeats identities. Two processes, both started in an epoch no later
  than the one after the checkpoint's, restore the same checkpoint one after the other, the second after
  a crash without a checkpoint in between. Their first packets have the same node, epoch and
  sequence: a node that has accepted the first, among whatever else, does not open the second, at no
  time and under no associated data; and sealed in the same millisecond they use the same key
  and nonce for different messages.
\<close>

theorem restore_twice_collides:
  assumes "aead_roundtrip C" and "aead_length C" and "length rnd = 12"
    and "mesh_run C (new_mesh C seed ctx i e d) cs = ((out, acc), n)" and "export_checkpoint C rnd n wrap = Ok bs"
    and "b1 \<le> saturating_add e 1" and "b2 \<le> saturating_add e 1"
    and "restore_checkpoint C (new_mesh C seed ctx i b1 d) bs wrap = (r1, m1)"
    and "restore_checkpoint C (new_mesh C seed ctx i b2 d) bs wrap = (r2, m2)"
    and "fst (seal_realtime C m1 pt1 aad1 now1) = Ok p1" and "fst (seal_realtime C m2 pt2 aad2 now2) = Ok p2"
  shows "mesh_id p1 = mesh_id p2
    \<and> (now1 = now2 \<longrightarrow> p_nonce p1 = p_nonce p2 \<and>
         derive_packet_crypto C m1 (p_node_id p1) (p_epoch p1) (p_sequence p1) (p_timestamp_ms p1)
         = derive_packet_crypto C m2 (p_node_id p2) (p_epoch p2) (p_sequence p2) (p_timestamp_ms p2))
    \<and> (\<forall>j e0 d0 pcs pout pacc peer aad now. mesh_run C (new_mesh C seed ctx j e0 d0) pcs = ((pout, pacc), peer) \<and> p1 \<in> set pacc
         \<longrightarrow> \<not> is_ok (fst (open_realtime C peer p2 aad now)))"
proof -
  have m: "m_epoch m1 = saturating_add e 1" "m_epoch m2 = saturating_add e 1" "m_tx_seq m1 = m_tx_seq n" "m_tx_seq m2 = m_tx_seq n"
    "m_node_id m1 = i" "m_node_id m2 = i" "same_keys m1 m2"
    using restored_after_run [OF assms(1-5), of b1 d] restored_after_run [OF assms(1-5), of b2 d] assms(6-9)
    by (auto simp: max_def same_keys_def new_mesh_def Let_def)
  have s1: "seal_at C m1 (m_epoch m1) (m_tx_seq m1) pt1 aad1 now1 = Ok p1"
    using assms(10) by (cases rule: seal_realtime_cases [where C = C and n = m1 and pt = pt1 and aad = aad1 and now = now1]) auto
  have s2: "seal_at C m2 (m_epoch m2) (m_tx_seq m2) pt2 aad2 now2 = Ok p2"
    using assms(11) by (cases rule: seal_realtime_cases [where C = C and n = m2 and pt = pt2 and aad = aad2 and now = now2]) auto
  note h = seal_at_header [OF s1] seal_at_header [OF s2] and d = derive_same_keys [OF m(7), of C]
  have "mesh_id p1 = mesh_id p2" using h m by (simp add: mesh_id_def peer_key_of_def)
  moreover have "p_nonce p1 = p_nonce p2" if "now1 = now2"
    using s1 s2 that m d by (auto simp: seal_at_Ok_iff)
  moreover have "\<not> is_ok (fst (open_realtime C peer p2 aad now))"
    if "mesh_run C (new_mesh C seed ctx j e0 d0) pcs = ((pout, pacc), peer)" "p1 \<in> set pacc" for j e0 d0 pcs pout pacc peer aad now
    using accepted_once [OF that] calculation(1) by simp
  ultimately show ?thesis using h m d by auto
qed

theorem restore_twice_collides_witness:
  "\<exists>bs m1 m2 p1 p2. export_checkpoint toy (replicate 12 3) (sample_mesh 1 5) [8] = Ok bs
     \<and> restore_checkpoint toy (sample_mesh 1 0) bs [8] = (Ok (), m1)
     \<and> restore_checkpoint toy (sample_mesh 1 1) bs [8] = (Ok (), m2)
     \<and> fst (seal_realtime toy m1 [104] [7] 50) = Ok p1 \<and> fst (seal_realtime toy m2 [104] [7] 50) = Ok p2
     \<and> p_nonce p1 = p_nonce p2"
proof -
  obtain bs where bs: "export_checkpoint toy (replicate 12 3) (sample_mesh 1 5) [8] = Ok bs" by (rule toy_sample_export)
  note rest = restored_after_run [OF toy_aead_roundtrip toy_aead_length _ sample_mesh_idle bs]
  obtain m1 where m1: "restore_checkpoint toy (new_mesh toy sample_seed [] 1 0 1000) bs [8] = (Ok (), m1)" "m_tx_seq m1 \<noteq> - 1"
    using rest [of 0 1000] by simp
  obtain m2 where m2: "restore_checkpoint toy (new_mesh toy sample_seed [] 1 1 1000) bs [8] = (Ok (), m2)" "m_tx_seq m2 \<noteq> - 1"
    using rest [of 1 1000] by simp
  obtain p1 where p1: "fst (seal_realtime toy m1 [104] [7] 50) = Ok p1" using toy_seal [OF m1(2), of 50] by (metis fst_conv)
  obtain p2 where p2: "fst (seal_realtime toy m2 [104] [7] 50) = Ok p2" using toy_seal [OF m2(2), of 50] by (metis fst_conv)
  have "p_nonce p1 = p_nonce p2"
    using restore_twice_collides [OF toy_aead_roundtrip toy_aead_length _ sample_mesh_idle bs _ _ m1(1) m2(1) p1 p2]
    by (simp add: saturating_add_def)
  with bs m1 m2 p1 p2 show ?thesis unfolding sample_mesh_def by blast
qed

end
