(* ===== verification/Modes.thy ===== *)
theory Modes
  imports Envelope Replay Chrono
begin

text \<open>
  \<open>src/modes/mod.rs\<close>: the modes and the builder that constructs a channel in one of them, with the
  two entry points \<open>CryptoNugget::builder\<close> and \<open>builder_with_context\<close> of \<open>modes/ordered.rs\<close>.
\<close>

datatype mode =
    OrderedChannel
  | StatelessEnvelope
  | ReplayWindowMode u64
  | ChronoMesh u32 u64 u64   \<comment> \<open>node, boot epoch, drift\<close>

record builder =
  b_seed :: master_seed
  b_role :: role
  b_context :: bytes
  b_mode :: mode

definition builder_new :: "master_seed \<Rightarrow> role \<Rightarrow> bytes \<Rightarrow> builder" where
  "builder_new seed role context = \<lparr>b_seed = seed, b_role = role, b_context = context, b_mode = OrderedChannel\<rparr>"

definition nugget_builder :: "master_seed \<Rightarrow> role \<Rightarrow> builder" where
  "nugget_builder seed role = builder_new seed role DEFAULT_CONTEXT"

definition nugget_builder_with_context :: "master_seed \<Rightarrow> role \<Rightarrow> bytes \<Rightarrow> builder" where
  "nugget_builder_with_context seed role context = builder_new seed role context"

definition with_mode :: "builder \<Rightarrow> mode \<Rightarrow> builder" where
  "with_mode b m = b\<lparr>b_mode := m\<rparr>"

definition build_ordered :: "crypto \<Rightarrow> builder \<Rightarrow> nugget outcome" where
  "build_ordered C b = (case b_mode b of
     OrderedChannel \<Rightarrow> Ok (new_with_context C (b_seed b) (b_role b) (b_context b))
   | _ \<Rightarrow> Err ModoInvalido)"

definition build_stateless_envelope :: "crypto \<Rightarrow> builder \<Rightarrow> envelope outcome" where
  "build_stateless_envelope C b = (case b_mode b of
     StatelessEnvelope \<Rightarrow> Ok (new_envelope_with_context C (b_seed b) (b_context b))
   | _ \<Rightarrow> Err ModoInvalido)"

definition build_replay_window :: "crypto \<Rightarrow> builder \<Rightarrow> replay_channel outcome" where
  "build_replay_window C b = (case b_mode b of
     ReplayWindowMode window \<Rightarrow> new_replay_with_context C (b_seed b) (b_role b) (b_context b) window
   | _ \<Rightarrow> Err ModoInvalido)"

definition build_chrono_mesh :: "crypto \<Rightarrow> builder \<Rightarrow> mesh_node outcome" where
  "build_chrono_mesh C b = (case b_mode b of
     ChronoMesh nid boot_epoch drift \<Rightarrow> Ok (new_mesh C (b_seed b) (b_context b) nid boot_epoch drift)
   | _ \<Rightarrow> Err ModoInvalido)"

lemma new_replay_error:
  "new_replay_with_context C seed r ctx w \<noteq> Panic"
  "new_replay_with_context C seed r ctx w = Err e \<Longrightarrow> e = ModoInvalido \<and> (w = 0 \<or> 128 < w)"
  "(\<exists>ch. new_replay_with_context C seed r ctx w = Ok ch) \<longleftrightarrow> w \<noteq> 0 \<and> w \<le> 128"
  by (auto simp: new_replay_with_context_def MAX_WINDOW_def Let_def not_less split: role.splits if_splits)

text \<open>
  A builder builds exactly what its mode says. Of the four build methods the one of the chosen
  mode succeeds (the replay window only for sizes 1 to 128), every other one and every invalid size
  is \<open>ModoInvalido\<close>; and with no mode chosen the builder makes an ordered channel, the same that
  the plain constructor makes.
\<close>

theorem builder_exact:
  "((\<exists>x. build_ordered C b = Ok x) \<longleftrightarrow> b_mode b = OrderedChannel)
   \<and> ((\<exists>x. build_stateless_envelope C b = Ok x) \<longleftrightarrow> b_mode b = StatelessEnvelope)
   \<and> ((\<exists>x. build_replay_window C b = Ok x) \<longleftrightarrow> (\<exists>w. b_mode b = ReplayWindowMode w \<and> w \<noteq> 0 \<and> w \<le> 128))
   \<and> ((\<exists>x. build_chrono_mesh C b = Ok x) \<longleftrightarrow> (\<exists>i e d. b_mode b = ChronoMesh i e d))
   \<and> {build_ordered C b} \<subseteq> {Err ModoInvalido} \<union> range Ok
   \<and> {build_stateless_envelope C b} \<subseteq> {Err ModoInvalido} \<union> range Ok
   \<and> {build_replay_window C b} \<subseteq> {Err ModoInvalido} \<union> range Ok
   \<and> {build_chrono_mesh C b} \<subseteq> {Err ModoInvalido} \<union> range Ok
   \<and> build_ordered C (nugget_builder seed r) = Ok (new_nugget C seed r)"
proof -
  have "{build_replay_window C b} \<subseteq> {Err ModoInvalido} \<union> range Ok"
  proof (cases "b_mode b")
    case (ReplayWindowMode w)
    then show ?thesis
      using new_replay_error(1,2) [of C "b_seed b" "b_role b" "b_context b" w]
      by (cases "new_replay_with_context C (b_seed b) (b_role b) (b_context b) w") (auto simp: build_replay_window_def)
  qed (simp_all add: build_replay_window_def)
  moreover have "(\<exists>x. build_replay_window C b = Ok x) \<longleftrightarrow> (\<exists>w. b_mode b = ReplayWindowMode w \<and> w \<noteq> 0 \<and> w \<le> 128)"
    using new_replay_error(3) [of C "b_seed b" "b_role b" "b_context b"]
    by (cases "b_mode b") (simp_all add: build_replay_window_def)
  ultimately show ?thesis
    by (auto simp: build_ordered_def build_stateless_envelope_def build_chrono_mesh_def nugget_builder_def
        builder_new_def new_nugget_def split: mode.splits)
qed

end
