(* ===== verification/Snapshot.thy ===== *)
theory Snapshot
  imports Ordered
begin

text \<open>
  \<open>src/persistence.rs\<close>, first part: the encrypted snapshot of an ordered channel. \<open>export_state\<close>
  advances the channel's epoch and seals its state under the caller's wrap key and the channel's
  context; \<open>import_state\<close> reads versions 1 and 2 and leaves the channel blocked until
  \<open>mark_resumed\<close>.
\<close>

definition MAGIC_CNST :: bytes where "MAGIC_CNST = ascii ''CNST''"
definition SNAPSHOT_VERSION_V1 :: u8 where "SNAPSHOT_VERSION_V1 = 1"
definition SNAPSHOT_VERSION_V2 :: u8 where "SNAPSHOT_VERSION_V2 = 2"
definition MIN_SNAPSHOT_LEN :: nat where "MIN_SNAPSHOT_LEN = length MAGIC_CNST + 1 + NONCE_LEN + TAG_LEN"

definition snapshot_aad :: "u8 \<Rightarrow> bytes \<Rightarrow> bytes outcome" where
  "snapshot_aad version context =
     bindO (ok_or AadDemasiadoLargo (u32_try_from (length context))) (\<lambda>ctx_len.
       Ok (MAGIC_CNST @ [version] @ u32_to_be ctx_len @ context))"

definition encode_state_v2 :: "nugget \<Rightarrow> bytes outcome" where
  "encode_state_v2 n =
     bindO (ok_or AadDemasiadoLargo (u32_try_from (length (n_context n)))) (\<lambda>ctx_len.
       Ok (n_tx_key n @ n_rx_key n @ u64_to_be (n_tx_seq n) @ u64_to_be (n_rx_seq n) @ u64_to_be (n_epoch n)
         @ n_tx_transcript_hash n @ n_rx_transcript_hash n @ u32_to_be ctx_len @ n_context n))"

definition read_context :: "bytes \<Rightarrow> nat \<Rightarrow> nat \<Rightarrow> bytes \<Rightarrow> bytes outcome" where
  "read_context bs fixed_len context_len expected_context =
     (case usize_checked_add fixed_len context_len of
        Some context_end \<Rightarrow>
          if context_end = length bs then
            bindO (slice bs fixed_len context_end) (\<lambda>context.
              if context \<noteq> expected_context then Err Autenticacion else Ok context)
          else Err PaqueteCorrupto
      | None \<Rightarrow> Err PaqueteCorrupto)"

definition decode_state :: "u8 \<Rightarrow> bytes \<Rightarrow> bytes \<Rightarrow> nugget outcome" where
  "decode_state version bs expected_context =
     (let fixed_len = (if version = SNAPSHOT_VERSION_V2 then 32 + 32 + 8 + 8 + 8 + 32 + 32 + 4
                       else 32 + 32 + 8 + 8 + 8 + 4)
      in if length bs < fixed_len then Err PaqueteCorrupto else
         bindO (copy_slice 32 bs 0 32) (\<lambda>tx_key.
         bindO (copy_slice 32 bs 32 64) (\<lambda>rx_key.
         bindO (unwrap_u64 bs 64) (\<lambda>tx_seq.
         bindO (unwrap_u64 bs 72) (\<lambda>rx_seq.
         bindO (unwrap_u64 bs 80) (\<lambda>epoch.
         bindO (if version = SNAPSHOT_VERSION_V2 then
                  bindO (copy_slice 32 bs 88 120) (\<lambda>th.
                  bindO (copy_slice 32 bs 120 152) (\<lambda>rh. Ok (th, rh, 152)))
                else Ok (replicate 32 0, replicate 32 0, 88)) (\<lambda>(tx_hash, rx_hash, len_offset).
         bindO (unwrap_u32 bs len_offset) (\<lambda>context_len.
         bindO (read_context bs fixed_len (unat context_len) expected_context) (\<lambda>context.
           Ok (from_persisted_state tx_key rx_key tx_seq rx_seq epoch tx_hash rx_hash context))))))))))"

definition export_state :: "crypto \<Rightarrow> bytes \<Rightarrow> nugget \<Rightarrow> bytes \<Rightarrow> bytes outcome \<times> nugget" where
  "export_state C rnd n0 wrap =
     (case checked_add (n_epoch n0) 1 of
        None \<Rightarrow> (Err Cifrado, n0)
      | Some e \<Rightarrow>
        (let n = n0\<lparr>n_epoch := e\<rparr>
         in (bindO (encode_state_v2 n) (\<lambda>state.
             bindO (snapshot_aad SNAPSHOT_VERSION_V2 (n_context n)) (\<lambda>aad.
             bindO (ok_or Cifrado (aead_enc C wrap rnd aad state)) (\<lambda>ciphertext.
               Ok (MAGIC_CNST @ [SNAPSHOT_VERSION_V2] @ rnd @ ciphertext)))), n)))"

definition import_state :: "crypto \<Rightarrow> bytes \<Rightarrow> bytes \<Rightarrow> bytes \<Rightarrow> nugget outcome" where
  "import_state C bs wrap context =
     (if length bs < MIN_SNAPSHOT_LEN then Err PaqueteCorrupto else
      bindO (slice bs 0 4) (\<lambda>magic.
      if magic \<noteq> MAGIC_CNST then Err PaqueteCorrupto else
      bindO (byte_at bs 4) (\<lambda>version.
      if version \<noteq> SNAPSHOT_VERSION_V1 \<and> version \<noteq> SNAPSHOT_VERSION_V2 then Err (VersionNoSoportada version) else
      bindO (copy_slice NONCE_LEN bs 5 (5 + NONCE_LEN)) (\<lambda>nonce.
      bindO (slice_from bs (5 + NONCE_LEN)) (\<lambda>ciphertext.
      bindO (snapshot_aad version context) (\<lambda>aad.
      bindO (ok_or Autenticacion (aead_dec C wrap nonce aad ciphertext)) (\<lambda>plaintext.
        decode_state version plaintext context)))))))"

definition mark_resumed :: "nugget \<Rightarrow> nugget" where
  "mark_resumed n = n\<lparr>n_requires_resume_ack := False\<rparr>"

section \<open>Encoding and decoding\<close>

text \<open>The four byte arrays of a channel hold 32 bytes each.\<close>

definition nugget_ok :: "nugget \<Rightarrow> bool" where
  "nugget_ok n \<longleftrightarrow> length (n_tx_key n) = 32 \<and> length (n_rx_key n) = 32
     \<and> length (n_tx_transcript_hash n) = 32 \<and> length (n_rx_transcript_hash n) = 32"

lemma new_nugget_ok: "hash_lengths C \<Longrightarrow> nugget_ok (new_with_context C seed r ctx)"
  by (cases r) (simp_all add: nugget_ok_def new_with_context_def Let_def hash_lengthsD)

lemma cifrar_nugget_ok:
  "hash_lengths C \<Longrightarrow> nugget_ok n \<Longrightarrow> nugget_ok (snd (cifrar_bytes_with_aad C rnd n pt aad))"
  by (cases rule: send_step_cases [where C = C and rnd = rnd and n = n and pt = pt and aad = aad])
    (simp_all add: nugget_ok_def sent_def ratchet_def update_transcript_def hash_lengthsD)

lemma descifrar_nugget_ok:
  "hash_lengths C \<Longrightarrow> nugget_ok n \<Longrightarrow> nugget_ok (snd (descifrar_bytes_with_aad C n p aad))"
  by (cases rule: receive_step_cases [where C = C and n = n and p = p and aad = aad])
    (simp_all add: nugget_ok_def received_def ratchet_def update_transcript_def hash_lengthsD)

lemma decode_encoded:
  assumes "nugget_ok n" "encode_state_v2 n = Ok bs"
  shows "decode_state 2 bs (n_context n) = Ok (n\<lparr>n_requires_resume_ack := True\<rparr>)"
proof -
  let ?c = "word_of_nat (length (n_context n)) :: u32"
  from assms(2) have len: "length (n_context n) < 2 ^ 32"
    and bs: "bs = n_tx_key n @ n_rx_key n @ u64_to_be (n_tx_seq n) @ u64_to_be (n_rx_seq n) @ u64_to_be (n_epoch n)
         @ n_tx_transcript_hash n @ n_rx_transcript_hash n @ u32_to_be ?c @ n_context n"
    by (auto simp: encode_state_v2_def bindO_Ok_iff u32_try_from_Some)
  have l: "length bs = 156 + length (n_context n)" using assms(1) by (simp add: bs nugget_ok_def)
  have f: "copy_slice 32 bs 0 32 = Ok (n_tx_key n)" "copy_slice 32 bs 32 64 = Ok (n_rx_key n)"
    "unwrap_u64 bs 64 = Ok (n_tx_seq n)" "unwrap_u64 bs 72 = Ok (n_rx_seq n)" "unwrap_u64 bs 80 = Ok (n_epoch n)"
    "copy_slice 32 bs 88 120 = Ok (n_tx_transcript_hash n)" "copy_slice 32 bs 120 152 = Ok (n_rx_transcript_hash n)"
    "unwrap_u32 bs 152 = Ok ?c" "slice bs 156 (length bs) = Ok (n_context n)"
    using assms(1) by (simp_all add: bs nugget_ok_def)
  have d: "drop 156 bs = n_context n" using assms(1) by (simp add: bs nugget_ok_def)
  have "usize_checked_add 156 (unat ?c) = Some (length bs)"
    using len by (simp add: l usize_checked_add_def unat_u32_len)
  then show ?thesis
    using l by (simp add: decode_state_def SNAPSHOT_VERSION_V2_def f d from_persisted_state_def read_context_def)
qed

lemma read_context_not_Panic: "k \<le> length bs \<Longrightarrow> read_context bs k c ctx \<noteq> Panic"
  by (simp add: read_context_def usize_checked_add_def bindO_Panic_iff)

lemma decode_not_Panic: "decode_state v bs ctx \<noteq> Panic"
proof (cases "v = SNAPSHOT_VERSION_V2")
  case True
  then show ?thesis
    by (cases "length bs < 156") (simp_all add: decode_state_def bindO_Panic_iff read_context_not_Panic)
next
  case False
  then show ?thesis
    by (cases "length bs < 92") (simp_all add: decode_state_def bindO_Panic_iff read_context_not_Panic)
qed

lemma import_not_Panic: "import_state C bs wrap ctx \<noteq> Panic"
proof (cases "length bs < 33")
  case True
  then show ?thesis by (simp add: import_state_def MIN_SNAPSHOT_LEN_def MAGIC_CNST_def NONCE_LEN_def TAG_LEN_def)
next
  case False
  then show ?thesis
    using decode_not_Panic
    by (simp add: import_state_def MIN_SNAPSHOT_LEN_def MAGIC_CNST_def NONCE_LEN_def TAG_LEN_def bindO_Panic_iff snapshot_aad_def)
qed

lemma decoded_blocked: "decode_state v bs ctx = Ok n \<Longrightarrow> n_requires_resume_ack n \<and> n_context n = ctx"
  by (cases "v = SNAPSHOT_VERSION_V2"; cases "length bs < 92"; cases "length bs < 156")
    (auto simp: decode_state_def bindO_Ok_iff from_persisted_state_def read_context_def split: if_splits option.splits)

lemma imported_blocked: "import_state C bs wrap ctx = Ok n \<Longrightarrow> n_requires_resume_ack n \<and> n_context n = ctx"
  by (auto simp: import_state_def bindO_Ok_iff split: if_splits dest: decoded_blocked)

lemma export_Ok_iff:
  "export_state C rnd n wrap = (Ok bs, n') \<longleftrightarrow> n_epoch n \<noteq> - 1 \<and> n' = n\<lparr>n_epoch := n_epoch n + 1\<rparr> \<and>
     (\<exists>state aad ct. encode_state_v2 n' = Ok state \<and> snapshot_aad 2 (n_context n) = Ok aad
        \<and> aead_enc C wrap rnd aad state = Some ct \<and> bs = MAGIC_CNST @ [2] @ rnd @ ct)"
  by (auto simp: export_state_def Let_def bindO_Ok_iff checked_add_1_Some checked_add_1_None SNAPSHOT_VERSION_V2_def
      split: option.splits)

lemma import_exported:
  assumes "aead_roundtrip C" "aead_length C" "length rnd = 12" "nugget_ok n" "export_state C rnd n wrap = (Ok bs, n')"
  shows "import_state C bs wrap (n_context n) = Ok (n'\<lparr>n_requires_resume_ack := True\<rparr>) \<and> n' = n\<lparr>n_epoch := n_epoch n + 1\<rparr>"
proof -
  from assms(5) obtain state aad ct where e: "n' = n\<lparr>n_epoch := n_epoch n + 1\<rparr>" "encode_state_v2 n' = Ok state"
    "snapshot_aad 2 (n_context n) = Ok aad" "aead_enc C wrap rnd aad state = Some ct" "bs = MAGIC_CNST @ [2] @ rnd @ ct"
    by (auto simp: export_Ok_iff)
  have magic: "length MAGIC_CNST = 4" by (simp add: MAGIC_CNST_def)
  have "16 \<le> length ct" using aead_lengthD [OF assms(2) e(4)] by simp
  then have frame: "slice bs 0 4 = Ok MAGIC_CNST" "byte_at bs 4 = Ok 2" "copy_slice 12 bs 5 17 = Ok rnd"
    "slice_from bs 17 = Ok ct" "\<not> length bs < MIN_SNAPSHOT_LEN"
    using assms(3) magic by (simp_all add: e(5) NONCE_LEN_def TAG_LEN_def MIN_SNAPSHOT_LEN_def byte_at_def nth_append)
  have "nugget_ok n'" "n_context n' = n_context n" using assms(4) by (simp_all add: e(1) nugget_ok_def)
  then have "decode_state 2 state (n_context n) = Ok (n'\<lparr>n_requires_resume_ack := True\<rparr>)"
    using decode_encoded [OF _ e(2)] by simp
  then show ?thesis
    using e(1,3) aead_roundtripD [OF assms(1) e(4)]
    by (simp add: import_state_def frame SNAPSHOT_VERSION_V2_def SNAPSHOT_VERSION_V1_def)
qed

text \<open>Exports of the concrete channel, for the witnesses.\<close>

lemma sample_export:
  "e \<noteq> - 1 \<Longrightarrow> \<exists>bs. export_state toy rnd (sample_nugget e) [8] = (Ok bs, sample_nugget (e + 1))"
  using checked_add_1_Some [of e "e + 1"]
  by (simp add: export_state_def sample_nugget_def encode_state_v2_def snapshot_aad_def u32_try_from_def toy_def toy_enc_def Let_def)

lemma sample_nugget_ok: "nugget_ok (sample_nugget e)"
  by (simp add: nugget_ok_def sample_nugget_def)

lemma sample_nugget_fields [simp]:
  "n_context (sample_nugget e) = []" "n_epoch (sample_nugget e) = e" "n_rx_key (sample_nugget e) = replicate 32 1"
  by (simp_all add: sample_nugget_def)

lemma sample_import:
  assumes "length rnd = 12" "export_state toy rnd (sample_nugget e) [8] = (Ok bs, sample_nugget (e + 1))"
  shows "import_state toy bs [8] [] = Ok (sample_nugget (e + 1)\<lparr>n_requires_resume_ack := True\<rparr>)"
  using import_exported [OF toy_aead_roundtrip toy_aead_length assms(1) sample_nugget_ok assms(2)] by simp

section \<open>Properties\<close>

text \<open>
  A snapshot restores the channel. What \<open>export_state\<close> writes, \<open>import_state\<close> reads under the same
  wrap key and context as the exported channel itself: keys, counters, transcripts and context, at
  the next epoch, and blocked. The live channel moves to that epoch too.
\<close>

theorem snapshot_roundtrip:
  assumes "aead_roundtrip C" and "aead_length C" and "length rnd = 12" and "nugget_ok n"
    and "export_state C rnd n wrap = (Ok bs, n')"
  shows "import_state C bs wrap (n_context n) = Ok (n'\<lparr>n_requires_resume_ack := True\<rparr>) \<and> n' = n\<lparr>n_epoch := n_epoch n + 1\<rparr>"
  by (rule import_exported [OF assms])

theorem snapshot_roundtrip_witness:
  "\<exists>bs. export_state toy (replicate 12 5) (sample_nugget 0) [8] = (Ok bs, sample_nugget 1)
     \<and> import_state toy bs [8] [] = Ok (sample_nugget 1\<lparr>n_requires_resume_ack := True\<rparr>)"
proof -
  obtain bs where bs: "export_state toy (replicate 12 5) (sample_nugget 0) [8] = (Ok bs, sample_nugget 1)"
    using sample_export [of 0 "replicate 12 5"] by auto
  from snapshot_roundtrip [OF toy_aead_roundtrip toy_aead_length _ sample_nugget_ok bs] bs show ?thesis by simp
qed

text \<open>The sizes and the context of both sides of a session.\<close>

definition session_sized :: "bytes \<Rightarrow> session \<Rightarrow> bool" where
  "session_sized ctx s \<longleftrightarrow> nugget_ok (alice s) \<and> nugget_ok (bob s) \<and> n_context (alice s) = ctx \<and> n_context (bob s) = ctx"

lemma operations_context:
  "n_context (snd (cifrar_bytes_with_aad C rnd n pt aad)) = n_context n"
  "n_context (snd (descifrar_bytes_with_aad C n p aad)) = n_context n"
  subgoal by (cases rule: send_step_cases [where C = C and rnd = rnd and n = n and pt = pt and aad = aad])
      (simp_all add: sent_def)
  subgoal by (cases rule: receive_step_cases [where C = C and n = n and p = p and aad = aad])
      (simp_all add: received_def)
  done

lemma session_sized_reach:
  assumes "hash_lengths C" "session_reach C (session_init C seed ctx) s"
  shows "session_sized ctx s"
  using assms(2)
proof (induction rule: session_reach.induct)
  case start
  show ?case
    using new_nugget_ok [OF assms(1)] by (simp add: session_sized_def session_init_def) (simp add: new_with_context_def Let_def)
next
  case (step s t)
  note keep = cifrar_nugget_ok [OF assms(1)] descifrar_nugget_ok [OF assms(1)] operations_context
  from step.hyps(2) step.IH show ?case
  proof cases
    case (alice_sends rnd pt aad p a')
    then show ?thesis using step.IH keep(1) [of "alice s" rnd pt aad] keep(3) [of C rnd "alice s" pt aad] by (simp add: session_sized_def)
  next
    case (bob_sends rnd pt aad p b')
    then show ?thesis using step.IH keep(1) [of "bob s" rnd pt aad] keep(3) [of C rnd "bob s" pt aad] by (simp add: session_sized_def)
  next
    case (bob_takes p pt aad q r b')
    then show ?thesis using step.IH keep(2) [of "bob s" p aad] keep(4) [of C "bob s" p aad] by (simp add: session_sized_def)
  next
    case (alice_takes p pt aad q r a')
    then show ?thesis using step.IH keep(2) [of "alice s" p aad] keep(4) [of C "alice s" p aad] by (simp add: session_sized_def)
  next
    case (bob_refuses p aad e b')
    then show ?thesis using step.IH keep(2) [of "bob s" p aad] keep(4) [of C "bob s" p aad] by (simp add: session_sized_def)
  next
    case (alice_refuses p aad e a')
    then show ?thesis using step.IH keep(2) [of "alice s" p aad] keep(4) [of C "alice s" p aad] by (simp add: session_sized_def)
  qed
qed

lemma session_goes_on:
  assumes "aead_roundtrip C" "session_inv C s" "session_reach C s t"
  shows "session_inv C t"
  using assms(3,2) by (induction rule: session_reach.induct) (auto intro: session_inv_step [OF assms(1)])

text \<open>
  C24: resuming after a crash. Alice and Bob have run a session from one seed and context, and nothing
  is in flight. Alice exports once and crashes; a new process imports the snapshot and confirms the
  resumption. The first packet it sends, Bob opens to the plaintext, provided it does not also open
  under the data of the old epoch, which Bob tries first. From then on the session goes on in both
  directions as if nothing had happened: in every state reached from there, the packet at the head of
  either queue opens to what was put into it, and drained queues mean equal transcript hashes.
\<close>

theorem snapshot_resume_delivers:
  assumes "aead_roundtrip C" and "aead_length C" and "hash_lengths C" and "length rnd = 12"
    and "session_reach C (session_init C seed ctx) s" and "to_bob s = []" and "to_alice s = []"
    and "export_state C rnd (alice s) wrap = (Ok bs, a1)" and "import_state C bs wrap ctx = Ok a2"
    and "cifrar_bytes_with_aad C rnd2 (mark_resumed a2) pt aad = (Ok p, a3)"
    and "rejects C (n_rx_key (bob s)) p aad (n_epoch (bob s))"
    and "descifrar_bytes_with_aad C (bob s) p aad = (r, b')"
    and "session_reach C \<lparr>alice = a3, bob = b', to_bob = [], to_alice = []\<rparr> t"
  shows "r = Ok pt
    \<and> (\<forall>p pt aad q. to_bob t = (p, pt, aad) # q \<longrightarrow> fst (descifrar_bytes_with_aad C (bob t) p aad) = Ok pt)
    \<and> (\<forall>p pt aad q. to_alice t = (p, pt, aad) # q \<longrightarrow> fst (descifrar_bytes_with_aad C (alice t) p aad) = Ok pt)
    \<and> (to_bob t = [] \<longrightarrow> fst (transcript_hashes (alice t)) = snd (transcript_hashes (bob t)))
    \<and> (to_alice t = [] \<longrightarrow> fst (transcript_hashes (bob t)) = snd (transcript_hashes (alice t)))"
proof -
  let ?a = "alice s" and ?b = "bob s"
  have inv: "n_epoch ?a = n_epoch ?b" "in_sync ?a ?b" "in_sync ?b ?a"
    using session_reach_inv [OF assms(1,5)] assms(6,7) by (simp_all add: session_inv_def)
  have sized: "nugget_ok ?a" "n_context ?a = ctx" using session_sized_reach [OF assms(3,5)] by (simp_all add: session_sized_def)
  have e: "n_epoch ?a \<noteq> - 1" "a1 = ?a\<lparr>n_epoch := n_epoch ?a + 1\<rparr>" using assms(8) by (auto simp: export_Ok_iff)
  have a2: "mark_resumed a2 = ?a\<lparr>n_epoch := n_epoch ?a + 1, n_requires_resume_ack := False\<rparr>"
    using import_exported [OF assms(1,2,4) sized(1) assms(8)] assms(9) e(2) sized(2) by (simp add: mark_resumed_def)
  have "in_sync (mark_resumed a2) ?b" "n_epoch (mark_resumed a2) = n_epoch ?b + 1" "n_epoch ?b \<noteq> - 1"
    using inv e(1) by (simp_all add: a2 in_sync_def)
  from deliver_next_epoch [OF assms(1) this(1,3,2) assms(10,11)] assms(12)
  have d: "r = Ok pt" "n_epoch b' = n_epoch (mark_resumed a2)" "in_sync a3 b'" by auto
  obtain ct where a3: "a3 = sent C (mark_resumed a2) rnd2 ct" using assms(10) by (auto simp: cifrar_Ok_iff)
  obtain e' where b': "b' = received C ?b e' p" using assms(12) d(1) by (auto simp: descifrar_Ok_iff)
  have "in_sync b' a3" "n_epoch a3 = n_epoch b'"
    using inv(3) d(2) by (simp_all add: a3 b' a2 in_sync_def sent_def received_def)
  with d(3) have "session_inv C \<lparr>alice = a3, bob = b', to_bob = [], to_alice = []\<rparr>" by (simp add: session_inv_def)
  from session_goes_on [OF assms(1) this assms(13)] d(1) show ?thesis
    by (auto simp: session_inv_def transcript_hashes_def in_sync_def)
qed

theorem snapshot_resume_delivers_witness:
  "\<exists>bs a2 p a3 b'. fst (export_state toy (replicate 12 5) (alice (session_init toy sample_seed [])) [8]) = Ok bs
     \<and> import_state toy bs [8] [] = Ok a2
     \<and> cifrar_bytes_with_aad toy (replicate 12 3) (mark_resumed a2) [104] [] = (Ok p, a3)
     \<and> descifrar_bytes_with_aad toy (bob (session_init toy sample_seed [])) p [] = (Ok [104], b')
     \<and> fst (transcript_hashes a3) = snd (transcript_hashes b')"
proof -
  let ?s = "session_init toy sample_seed []"
  have w: "case export_state toy (replicate 12 5) (alice ?s) [8] of (Ok bs, _) \<Rightarrow>
      (case import_state toy bs [8] [] of Ok a2 \<Rightarrow>
        (case cifrar_bytes_with_aad toy (replicate 12 3) (mark_resumed a2) [104] [] of (Ok p, _) \<Rightarrow>
           rejects toy (n_rx_key (bob ?s)) p [] (n_epoch (bob ?s)) | _ \<Rightarrow> False) | _ \<Rightarrow> False) | _ \<Rightarrow> False"
    by code_simp
  obtain r1 a1 where r1: "export_state toy (replicate 12 5) (alice ?s) [8] = (r1, a1)" by fastforce
  from w obtain bs where x: "export_state toy (replicate 12 5) (alice ?s) [8] = (Ok bs, a1)"
    and w1: "case import_state toy bs [8] [] of Ok a2 \<Rightarrow>
        (case cifrar_bytes_with_aad toy (replicate 12 3) (mark_resumed a2) [104] [] of (Ok p, _) \<Rightarrow>
           rejects toy (n_rx_key (bob ?s)) p [] (n_epoch (bob ?s)) | _ \<Rightarrow> False) | _ \<Rightarrow> False"
    unfolding r1 by (cases r1) simp_all
  from w1 obtain a2 where x2: "import_state toy bs [8] [] = Ok a2"
    and w2: "case cifrar_bytes_with_aad toy (replicate 12 3) (mark_resumed a2) [104] [] of (Ok p, _) \<Rightarrow>
           rejects toy (n_rx_key (bob ?s)) p [] (n_epoch (bob ?s)) | _ \<Rightarrow> False"
    by (cases "import_state toy bs [8] []") simp_all
  obtain r3 a3 where r3: "cifrar_bytes_with_aad toy (replicate 12 3) (mark_resumed a2) [104] [] = (r3, a3)" by fastforce
  from w2 obtain p where x3: "cifrar_bytes_with_aad toy (replicate 12 3) (mark_resumed a2) [104] [] = (Ok p, a3)"
    "rejects toy (n_rx_key (bob ?s)) p [] (n_epoch (bob ?s))"
    unfolding r3 by (cases r3) simp_all
  note x = x x2 x3
  obtain r b' where o: "descifrar_bytes_with_aad toy (bob ?s) p [] = (r, b')" by fastforce
  have drained: "to_bob ?s = []" "to_alice ?s = []" "length (replicate 12 (5::u8)) = 12" by (simp_all add: session_init_def)
  from snapshot_resume_delivers [OF toy_aead_roundtrip toy_aead_length toy_hash_lengths drained(3) session_reach.start drained(1,2) x o
      session_reach.start] have "r = Ok [104]" "fst (transcript_hashes a3) = snd (transcript_hashes b')" by simp_all
  with x o show ?thesis by auto
qed

text \<open>
  C40: an imported channel waits for the operator. Importing any bytes at all never panics; if it
  succeeds, the channel has the expected context, and sealing and opening return
  \<open>EstadoSinReanudar\<close> and leave it as it is until \<open>mark_resumed\<close>.
\<close>

theorem snapshot_import_blocked:
  "import_state C bs wrap ctx \<noteq> Panic
   \<and> (\<forall>n. import_state C bs wrap ctx = Ok n \<longrightarrow> n_context n = ctx
        \<and> cifrar_bytes_with_aad C rnd n pt aad = (Err EstadoSinReanudar, n)
        \<and> descifrar_bytes_with_aad C n p aad = (Err EstadoSinReanudar, n)
        \<and> \<not> n_requires_resume_ack (mark_resumed n))"
proof (intro conjI allI impI)
  show "import_state C bs wrap ctx \<noteq> Panic" by (rule import_not_Panic)
  fix n assume "import_state C bs wrap ctx = Ok n"
  then have "n_requires_resume_ack n" and ctx: "n_context n = ctx" using imported_blocked by blast+
  then show "n_context n = ctx" "cifrar_bytes_with_aad C rnd n pt aad = (Err EstadoSinReanudar, n)"
    "descifrar_bytes_with_aad C n p aad = (Err EstadoSinReanudar, n)"
    by (simp_all add: cifrar_bytes_with_aad_def descifrar_bytes_with_aad_def)
  show "\<not> n_requires_resume_ack (mark_resumed n)" by (simp add: mark_resumed_def)
qed

theorem snapshot_import_blocked_witness:
  "\<exists>bs n. import_state toy bs [8] [] = Ok n \<and> cifrar_bytes_with_aad toy (replicate 12 3) n [104] [] = (Err EstadoSinReanudar, n)"
proof -
  obtain bs where "export_state toy (replicate 12 5) (sample_nugget 0) [8] = (Ok bs, sample_nugget 1)"
    using sample_export [of 0 "replicate 12 5"] by auto
  then have "import_state toy bs [8] [] = Ok (sample_nugget 1\<lparr>n_requires_resume_ack := True\<rparr>)"
    using sample_import [of "replicate 12 5" 0] by simp
  with snapshot_import_blocked [of toy bs "[8]" "[]" "replicate 12 3" "[104]" "[]" sample_packet] show ?thesis by blast
qed

text \<open>
  Exporting loses what is in flight. Bob, in step with Alice and at her epoch, has sent a packet;
  Alice exports a snapshot before she reads it. She then refuses the packet, with
  \<open>Autenticacion\<close>, unless it opens by accident under the data of one of the two next epochs; and
  as the packet's number is the only one she accepts next, the direction is stuck.
\<close>

theorem export_drops_in_flight:
  assumes "in_sync b a" and "cifrar_bytes_with_aad C rnd b pt aad = (Ok p, b')" and "n_epoch a = n_epoch b"
    and "export_state C rnd2 a wrap = (Ok bs, a')"
    and "rejects C (n_rx_key a) p aad (n_epoch a + 1)"
    and "rejects C (n_rx_key a) p aad (saturating_add (n_epoch a + 1) 1)"
  shows "descifrar_bytes_with_aad C a' p aad = (Err Autenticacion, a')
    \<and> (\<forall>q aad2. p_sequence q \<noteq> p_sequence p \<longrightarrow> descifrar_bytes_with_aad C a' q aad2 = (Err Autenticacion, a'))"
proof -
  have a': "a' = a\<lparr>n_epoch := n_epoch a + 1\<rparr>" using assms(4) unfolding export_Ok_iff by blast
  obtain ia where p: "p_version p = 2" "p_sequence p = n_tx_seq b"
    "build_internal_aad_v2_with_epoch (p_flags p) (p_sequence p) aad (n_epoch b) = Ok ia"
    using assms(2) by (auto simp: cifrar_Ok_iff)
  have "descifrar_bytes_with_aad C a' p aad = (Err Autenticacion, a')"
  proof (rule descifrar_rejected [OF p(1) aad_v2_Ok_length [OF p(3)]])
    show "\<not> n_requires_resume_ack a'" "p_sequence p = n_rx_seq a'"
      using assms(1) p(2) by (simp_all add: a' in_sync_def)
    show "rejects C (n_rx_key a') p aad (n_epoch a')" "rejects C (n_rx_key a') p aad (saturating_add (n_epoch a') 1)"
      using assms(5,6) unfolding a' by simp_all
  qed
  moreover have "descifrar_bytes_with_aad C a' q aad2 = (Err Autenticacion, a')" if "p_sequence q \<noteq> p_sequence p" for q aad2
  proof -
    have "\<not> n_requires_resume_ack a'" "p_sequence q \<noteq> n_rx_seq a'"
      using that assms(1) p(2) by (simp_all add: a' in_sync_def)
    then show ?thesis by (simp add: descifrar_bytes_with_aad_def)
  qed
  ultimately show ?thesis by (intro conjI allI impI)
qed

theorem export_drops_in_flight_witness:
  "\<exists>bs. export_state toy (replicate 12 5) (sample_nugget 0) [8] = (Ok bs, sample_nugget 1)
     \<and> fst (descifrar_bytes_with_aad toy (sample_nugget 0) (sample_packet_at 0) []) = Ok [104]
     \<and> descifrar_bytes_with_aad toy (sample_nugget 1) (sample_packet_at 0) [] = (Err Autenticacion, sample_nugget 1)"
proof -
  obtain bs where bs: "export_state toy (replicate 12 5) (sample_nugget 0) [8] = (Ok bs, sample_nugget 1)"
    using sample_export [of 0 "replicate 12 5"] by auto
  obtain b' where s: "cifrar_bytes_with_aad toy (replicate 12 3) (sample_nugget 0) [104] [] = (Ok (sample_packet_at 0), b')"
    using sample_seals by blast
  have "rejects toy (n_rx_key (sample_nugget 0)) (sample_packet_at 0) [] (n_epoch (sample_nugget 0) + 1)"
    "rejects toy (n_rx_key (sample_nugget 0)) (sample_packet_at 0) [] (saturating_add (n_epoch (sample_nugget 0) + 1) 1)"
    by code_simp+
  from export_drops_in_flight [OF sample_sync s _ bs this] deliver [OF toy_aead_roundtrip sample_sync _ s, of 0] bs
  show ?thesis by simp
qed

text \<open>
  Two exports without a message in between cut the channel. Alice, in step with Bob and at his
  epoch, exports twice; her next packet carries an epoch that Bob does not try, and he refuses it
  (unless it opens by accident under the data of the epochs he does try).
\<close>

theorem double_export_breaks_channel:
  assumes "in_sync a b" and "n_epoch a = n_epoch b"
    and "export_state C rnd a wrap = (Ok bs, a1)" and "export_state C rnd1 a1 wrap = (Ok bs1, a2)"
    and "cifrar_bytes_with_aad C rnd2 a2 pt aad = (Ok p, a3)"
    and "rejects C (n_rx_key b) p aad (n_epoch b)" and "rejects C (n_rx_key b) p aad (n_epoch b + 1)"
  shows "descifrar_bytes_with_aad C b p aad = (Err Autenticacion, b) \<and> p_epoch p = n_epoch b + 2"
proof -
  have e: "n_epoch a \<noteq> - 1" "a2 = a\<lparr>n_epoch := n_epoch a + 2\<rparr>"
    using assms(3,4) by (auto simp: export_Ok_iff)
  obtain ia where p: "p_version p = 2" "p_sequence p = n_tx_seq a2" "p_epoch p = n_epoch a2"
    "build_internal_aad_v2_with_epoch (p_flags p) (p_sequence p) aad (n_epoch a2) = Ok ia"
    using assms(5) by (auto simp: cifrar_Ok_iff)
  have "descifrar_bytes_with_aad C b p aad = (Err Autenticacion, b)"
  proof (rule descifrar_rejected [OF p(1) aad_v2_Ok_length [OF p(4)]])
    show "\<not> n_requires_resume_ack b" "p_sequence p = n_rx_seq b"
      using assms(1) p(2) e by (simp_all add: in_sync_def)
    have "saturating_add (n_epoch b) 1 = n_epoch b + 1" using saturating_next e(1) assms(2) by simp
    then show "rejects C (n_rx_key b) p aad (n_epoch b)" "rejects C (n_rx_key b) p aad (saturating_add (n_epoch b) 1)"
      using assms(6,7) by simp_all
  qed
  then show ?thesis using p(3) e(2) assms(2) by simp
qed

theorem double_export_breaks_channel_witness:
  "\<exists>bs bs'. export_state toy (replicate 12 5) (sample_nugget 0) [8] = (Ok bs, sample_nugget 1)
     \<and> export_state toy (replicate 12 6) (sample_nugget 1) [8] = (Ok bs', sample_nugget 2)
     \<and> descifrar_bytes_with_aad toy (sample_nugget 0) (sample_packet_at 2) [] = (Err Autenticacion, sample_nugget 0)"
proof -
  obtain bs where bs: "export_state toy (replicate 12 5) (sample_nugget 0) [8] = (Ok bs, sample_nugget 1)"
    using sample_export [of 0 "replicate 12 5"] by auto
  obtain bs' where bs': "export_state toy (replicate 12 6) (sample_nugget 1) [8] = (Ok bs', sample_nugget 2)"
    using sample_export [of 1 "replicate 12 6"] by auto
  obtain a3 where s: "cifrar_bytes_with_aad toy (replicate 12 3) (sample_nugget 2) [104] [] = (Ok (sample_packet_at 2), a3)"
    using sample_seals by blast
  have "rejects toy (n_rx_key (sample_nugget 0)) (sample_packet_at 2) [] (n_epoch (sample_nugget 0))"
    "rejects toy (n_rx_key (sample_nugget 0)) (sample_packet_at 2) [] (n_epoch (sample_nugget 0) + 1)"
    by code_simp+
  from double_export_breaks_channel [OF sample_sync _ bs bs' s this] bs bs' show ?thesis by simp
qed

end
