(* ===== verification/DualSlot.thy ===== *)
theory DualSlot
  imports Packet
begin

text \<open>
  \<open>src/persistence.rs\<close>, second part: the dual-slot container. Two sealed slots with a generation
  number each; \<open>commit_state\<close> writes the slot with the smaller generation, \<open>recover_latest_valid\<close> tries
  the larger generation first, and \<open>to_bytes\<close>/\<open>from_bytes\<close> give the layout on disk. The random nonce of
  a seal is an argument.
\<close>

definition MAGIC_DUAL :: bytes where "MAGIC_DUAL = ascii ''CNDS''"

record dual_slot =
  generation_a :: u64
  slot_a :: bytes
  generation_b :: u64
  slot_b :: bytes

definition dual_new :: dual_slot where
  "dual_new = \<lparr>generation_a = 0, slot_a = [], generation_b = 0, slot_b = []\<rparr>"

definition slot_aad :: "u64 \<Rightarrow> bytes" where
  "slot_aad generation = MAGIC_DUAL @ u64_to_be generation"

definition seal_slot :: "crypto \<Rightarrow> bytes \<Rightarrow> u64 \<Rightarrow> bytes \<Rightarrow> bytes \<Rightarrow> bytes outcome" where
  "seal_slot C rnd generation payload wrap =
     bindO (ok_or Cifrado (aead_enc C wrap rnd (slot_aad generation) payload)) (\<lambda>ciphertext.
       Ok (u64_to_be generation @ rnd @ ciphertext))"

definition open_slot :: "crypto \<Rightarrow> bytes \<Rightarrow> bytes \<Rightarrow> (u64 \<times> bytes) outcome" where
  "open_slot C slot_bytes wrap =
     (if length slot_bytes < 8 + NONCE_LEN + TAG_LEN then Err PaqueteCorrupto else
      bindO (unwrap_u64 slot_bytes 0) (\<lambda>generation.
      bindO (copy_slice NONCE_LEN slot_bytes 8 (8 + NONCE_LEN)) (\<lambda>nonce.
      bindO (slice_from slot_bytes (8 + NONCE_LEN)) (\<lambda>ciphertext.
      bindO (ok_or Autenticacion (aead_dec C wrap nonce (slot_aad generation) ciphertext)) (\<lambda>plaintext.
        Ok (generation, plaintext))))))"

definition commit_state :: "crypto \<Rightarrow> bytes \<Rightarrow> dual_slot \<Rightarrow> bytes \<Rightarrow> bytes \<Rightarrow> u64 outcome \<times> dual_slot" where
  "commit_state C rnd d payload wrap =
     (case checked_add (max (generation_a d) (generation_b d)) 1 of
        None \<Rightarrow> (Err Cifrado, d)
      | Some next_gen \<Rightarrow>
        (case seal_slot C rnd next_gen payload wrap of
           Ok sealed \<Rightarrow>
             if generation_a d \<le> generation_b d
             then (Ok next_gen, d\<lparr>slot_a := sealed, generation_a := next_gen\<rparr>)
             else (Ok next_gen, d\<lparr>slot_b := sealed, generation_b := next_gen\<rparr>)
         | Err e \<Rightarrow> (Err e, d)
         | Panic \<Rightarrow> (Panic, d)))"

fun first_valid :: "crypto \<Rightarrow> bytes \<Rightarrow> (bytes \<times> u64) list \<Rightarrow> (u64 \<times> bytes) outcome" where
  "first_valid C wrap [] = Err PaqueteCorrupto"
| "first_valid C wrap ((slot_bytes, expected_gen) # rest) =
     (if slot_bytes \<noteq> [] \<and> 0 < expected_gen then
        (case open_slot C slot_bytes wrap of
           Ok (gen_val, data) \<Rightarrow> if gen_val = expected_gen then Ok (gen_val, data) else first_valid C wrap rest
         | Err e \<Rightarrow> first_valid C wrap rest
         | Panic \<Rightarrow> Panic)
      else first_valid C wrap rest)"

definition recover_latest_valid :: "crypto \<Rightarrow> dual_slot \<Rightarrow> bytes \<Rightarrow> (u64 \<times> bytes) outcome" where
  "recover_latest_valid C d wrap =
     first_valid C wrap
       (if generation_b d \<le> generation_a d
        then [(slot_a d, generation_a d), (slot_b d, generation_b d)]
        else [(slot_b d, generation_b d), (slot_a d, generation_a d)])"

definition dual_to_bytes :: "dual_slot \<Rightarrow> bytes outcome" where
  "dual_to_bytes d =
     bindO (ok_or AadDemasiadoLargo (u32_try_from (length (slot_a d)))) (\<lambda>len_a.
     bindO (ok_or AadDemasiadoLargo (u32_try_from (length (slot_b d)))) (\<lambda>len_b.
       Ok (MAGIC_DUAL @ u64_to_be (generation_a d) @ u32_to_be len_a @ slot_a d
         @ u64_to_be (generation_b d) @ u32_to_be len_b @ slot_b d)))"

definition dual_from_bytes :: "bytes \<Rightarrow> dual_slot outcome" where
  "dual_from_bytes bs =
     (if length bs < 4 + 8 + 4 then Err PaqueteCorrupto else
      bindO (slice bs 0 4) (\<lambda>magic.
      if magic \<noteq> MAGIC_DUAL then Err PaqueteCorrupto else
      bindO (unwrap_u64 bs 4) (\<lambda>gen_a.
      bindO (unwrap_u32 bs 12) (\<lambda>len_a.
      bindO (ok_or PaqueteCorrupto (usize_checked_add 16 (unat len_a))) (\<lambda>end_a.
      if length bs < end_a then Err PaqueteCorrupto else
      bindO (slice bs 16 end_a) (\<lambda>a.
      if length bs < end_a + 12 then
        Ok \<lparr>generation_a = gen_a, slot_a = a, generation_b = 0, slot_b = []\<rparr>
      else
      bindO (unwrap_u64 bs end_a) (\<lambda>gen_b.
      bindO (unwrap_u32 bs (end_a + 8)) (\<lambda>len_b.
      bindO (ok_or PaqueteCorrupto (usize_checked_add (end_a + 12) (unat len_b))) (\<lambda>end_b.
      bindO (if end_b \<le> length bs then slice bs (end_a + 12) end_b else Ok []) (\<lambda>b.
        Ok \<lparr>generation_a = gen_a, slot_a = a, generation_b = gen_b, slot_b = b\<rparr>))))))))))"

section \<open>One slot\<close>

lemma length_MAGIC_DUAL [simp]: "length MAGIC_DUAL = 4"
  by (simp add: MAGIC_DUAL_def)

text \<open>A slot holds a payload of a generation: what recovery accepts.\<close>

definition holds :: "crypto \<Rightarrow> bytes \<Rightarrow> bytes \<Rightarrow> u64 \<Rightarrow> bytes \<Rightarrow> bool" where
  "holds C wrap s g p \<longleftrightarrow> s \<noteq> [] \<and> 0 < g \<and> open_slot C s wrap = Ok (g, p)"

lemma open_slot_not_Panic: "open_slot C s wrap \<noteq> Panic"
  by (simp add: open_slot_def bindO_Panic_iff)

lemma open_slot_long:
  "36 \<le> length s \<Longrightarrow> open_slot C s wrap = (case aead_dec C wrap (take 12 (drop 8 s)) (slot_aad (u64_from_be (take 8 s))) (drop 20 s) of
     None \<Rightarrow> Err Autenticacion | Some p \<Rightarrow> Ok (u64_from_be (take 8 s), p))"
  by (simp add: open_slot_def split: option.splits)

lemma open_slot_exact:
  assumes "aead_sound C" "aead_roundtrip C" "aead_length C"
  shows "open_slot C s wrap = Ok (g, p) \<longleftrightarrow> (\<exists>rnd. length rnd = 12 \<and> seal_slot C rnd g p wrap = Ok s)"
proof
  assume o: "open_slot C s wrap = Ok (g, p)"
  then have l: "36 \<le> length s" by (simp add: open_slot_def split: if_splits)
  let ?rnd = "take 12 (drop 8 s)"
  from o l have g: "g = u64_from_be (take 8 s)" and "aead_dec C wrap ?rnd (slot_aad g) (drop 20 s) = Some p"
    by (auto simp: open_slot_long split: option.splits)
  then have "aead_enc C wrap ?rnd (slot_aad g) p = Some (drop 20 s)"
    using aead_exact [OF assms(1,2)] by blast
  moreover have "u64_to_be g @ ?rnd @ drop 20 s = s"
    using l by (simp add: g be_writeback glue)
  ultimately have "seal_slot C ?rnd g p wrap = Ok s" by (simp add: seal_slot_def)
  then show "\<exists>rnd. length rnd = 12 \<and> seal_slot C rnd g p wrap = Ok s"
    using l by (intro exI [of _ ?rnd]) simp
next
  assume "\<exists>rnd. length rnd = 12 \<and> seal_slot C rnd g p wrap = Ok s"
  then obtain rnd ct where r: "length rnd = 12" "aead_enc C wrap rnd (slot_aad g) p = Some ct" "s = u64_to_be g @ rnd @ ct"
    by (auto simp: seal_slot_def bindO_Ok_iff)
  have "16 \<le> length ct" using aead_lengthD [OF assms(3) r(2)] by simp
  then show "open_slot C s wrap = Ok (g, p)"
    using r(1) aead_roundtripD [OF assms(2) r(2)] by (simp add: r(3) open_slot_long)
qed

lemma sealed_holds:
  assumes "aead_roundtrip C" "aead_length C" "length rnd = 12" "0 < g" "seal_slot C rnd g p wrap = Ok s"
  shows "holds C wrap s g p"
proof -
  from assms(5) obtain ct where r: "aead_enc C wrap rnd (slot_aad g) p = Some ct" "s = u64_to_be g @ rnd @ ct"
    by (auto simp: seal_slot_def bindO_Ok_iff)
  have "16 \<le> length ct" using aead_lengthD [OF assms(2) r(1)] by simp
  moreover have "u64_to_be g \<noteq> []" using length_to_be(2) [of g] by fastforce
  ultimately show ?thesis
    using assms(3,4) aead_roundtripD [OF assms(1) r(1)] by (simp add: r(2) open_slot_long holds_def)
qed

lemma holds_unique: "holds C wrap s g p \<Longrightarrow> holds C wrap s g' p' \<Longrightarrow> g = g' \<and> p = p'"
  by (simp add: holds_def)

lemma first_valid_hit: "holds C wrap s g p \<Longrightarrow> first_valid C wrap ((s, g) # rest) = Ok (g, p)"
  by (simp add: holds_def)

lemma first_valid_miss: "\<forall>p. \<not> holds C wrap s g p \<Longrightarrow> first_valid C wrap ((s, g) # rest) = first_valid C wrap rest"
  using open_slot_not_Panic [of C s wrap] by (auto simp: holds_def split: outcome.splits)

lemma first_valid_iff: "first_valid C wrap ((s, g) # rest) = Ok (h, p) \<longleftrightarrow>
    holds C wrap s g p \<and> h = g \<or> (\<forall>q. \<not> holds C wrap s g q) \<and> first_valid C wrap rest = Ok (h, p)"
  by (metis first_valid_hit first_valid_miss outcome.inject(1) prod.inject)

lemma first_valid_outcomes: "first_valid C wrap ss \<noteq> Panic" "first_valid C wrap ss = Err e \<Longrightarrow> e = PaqueteCorrupto"
proof -
  have "first_valid C wrap ss \<noteq> Panic \<and> (first_valid C wrap ss = Err e \<longrightarrow> e = PaqueteCorrupto)"
    using open_slot_not_Panic [of C _ wrap] by (induction ss) (auto split: outcome.splits if_splits)
  then show "first_valid C wrap ss \<noteq> Panic" "first_valid C wrap ss = Err e \<Longrightarrow> e = PaqueteCorrupto" by blast+
qed

section \<open>Recovery after a sequence of commits\<close>

text \<open>
  The contract: the container remembers the last payload committed, and the one before it in case
  the last slot is damaged. The abstract state is the history of acknowledged payloads, latest
  first; \<open>dual_run\<close> runs commits and keeps that history from their results.
\<close>

definition dual_step :: "crypto \<Rightarrow> bytes \<Rightarrow> bytes \<times> bytes \<Rightarrow> dual_slot \<times> bytes list \<Rightarrow> dual_slot \<times> bytes list" where
  "dual_step C wrap op s =
     (case commit_state C (fst op) (fst s) (snd op) wrap of
        (r, d) \<Rightarrow> (d, if is_ok r then snd op # snd s else snd s))"

definition dual_run :: "crypto \<Rightarrow> bytes \<Rightarrow> (bytes \<times> bytes) list \<Rightarrow> dual_slot \<times> bytes list" where
  "dual_run C wrap ops = fold (dual_step C wrap) ops (dual_new, [])"

text \<open>\<open>newest d\<close> and \<open>older d\<close>: the slot with the larger generation and the other one.\<close>

definition newest :: "dual_slot \<Rightarrow> bytes \<times> u64" where
  "newest d = (if generation_b d \<le> generation_a d then (slot_a d, generation_a d) else (slot_b d, generation_b d))"

definition older :: "dual_slot \<Rightarrow> bytes \<times> u64" where
  "older d = (if generation_b d \<le> generation_a d then (slot_b d, generation_b d) else (slot_a d, generation_a d))"

lemma recover_alt: "recover_latest_valid C d wrap = first_valid C wrap [newest d, older d]"
  by (simp add: recover_latest_valid_def newest_def older_def)

fun dual_rel :: "crypto \<Rightarrow> bytes \<Rightarrow> dual_slot \<Rightarrow> bytes list \<Rightarrow> bool" where
  "dual_rel C wrap d [] = (d = dual_new)"
| "dual_rel C wrap d (p # rest) =
     (unat (snd (newest d)) = Suc (length rest) \<and> unat (snd (older d)) = length rest
      \<and> holds C wrap (fst (newest d)) (snd (newest d)) p
      \<and> (case rest of [] \<Rightarrow> fst (older d) = [] | q # _ \<Rightarrow> holds C wrap (fst (older d)) (snd (older d)) q))"

text \<open>A commit replaces the older slot, which then becomes the newest.\<close>

lemma commit_cases:
  obtains (full) "snd (newest d) = - 1" "commit_state C rnd d p wrap = (Err Cifrado, d)"
  | (refused) e where "commit_state C rnd d p wrap = (Err e, d)"
  | (ok) s d' where "snd (newest d) \<noteq> - 1" "seal_slot C rnd (snd (newest d) + 1) p wrap = Ok s"
      "commit_state C rnd d p wrap = (Ok (snd (newest d) + 1), d')"
      "newest d' = (s, snd (newest d) + 1)" "generation_a d \<noteq> generation_b d \<or> d = dual_new \<Longrightarrow> older d' = newest d"
proof -
  let ?g = "snd (newest d)"
  have m: "max (generation_a d) (generation_b d) = ?g" by (auto simp: newest_def max_def)
  show thesis
  proof (cases "?g = - 1")
    case True
    then have "checked_add (max (generation_a d) (generation_b d)) 1 = None" by (simp add: m checked_add_1_None)
    with True show thesis using full by (simp add: commit_state_def)
  next
    case False
    then have c: "checked_add (max (generation_a d) (generation_b d)) 1 = Some (?g + 1)" by (simp add: m checked_add_1_Some)
    have lt: "?g < ?g + 1" using unat_Suc [OF False] by (simp add: word_less_nat_alt)
    show thesis
    proof (cases "seal_slot C rnd (?g + 1) p wrap")
      case (Ok s)
      define d' where "d' = (if generation_a d \<le> generation_b d then d\<lparr>slot_a := s, generation_a := ?g + 1\<rparr>
        else d\<lparr>slot_b := s, generation_b := ?g + 1\<rparr>)"
      have "commit_state C rnd d p wrap = (outcome.Ok (?g + 1), d')" 
        by (simp add: commit_state_def c Ok d'_def)
      moreover have "newest d' = (s, ?g + 1)" 
        using lt by (auto simp: d'_def newest_def split: if_splits)
      moreover have "older d' = newest d" if "generation_a d \<noteq> generation_b d \<or> d = dual_new"
        using that lt by (auto simp: d'_def newest_def older_def dual_new_def split: if_splits)
      ultimately show thesis using ok False Ok by blast
    qed (use refused in \<open>auto simp: commit_state_def c seal_slot_def bindO_Panic_iff\<close>)
  qed
qed

lemma commit_to_a:
  assumes "generation_a d \<le> generation_b d" "commit_state C rnd d p wrap = (Ok g, d2)"
  shows "generation_b d \<noteq> - 1" "g = generation_b d + 1" "slot_b d2 = slot_b d" "generation_b d2 = generation_b d" "generation_a d2 = g"
proof -
  have m: "max (generation_a d) (generation_b d) = generation_b d" using assms(1) by (simp add: max_def)
  have "generation_b d \<noteq> - 1 \<and> g = generation_b d + 1 \<and> slot_b d2 = slot_b d \<and> generation_b d2 = generation_b d \<and> generation_a d2 = g"
    using assms
    by (cases "checked_add (generation_b d) 1"; cases "seal_slot C rnd (generation_b d + 1) p wrap")
      (auto simp: commit_state_def m checked_add_1_Some)
  then show "generation_b d \<noteq> - 1" "g = generation_b d + 1" "slot_b d2 = slot_b d" "generation_b d2 = generation_b d" "generation_a d2 = g"
    by blast+
qed

lemma dual_rel_gens: "dual_rel C wrap d h \<Longrightarrow> unat (snd (newest d)) = length h"
  by (cases h) (auto simp: newest_def dual_new_def)

lemma dual_rel_distinct: "dual_rel C wrap d h \<Longrightarrow> generation_a d \<noteq> generation_b d \<or> d = dual_new"
  by (cases h) (auto simp: newest_def older_def split: if_splits)

lemma dual_rel_newest: "dual_rel C wrap d h \<Longrightarrow> case h of [] \<Rightarrow> fst (newest d) = [] | q # _ \<Rightarrow> holds C wrap (fst (newest d)) (snd (newest d)) q"
  by (cases h) (auto simp: newest_def dual_new_def)

lemma dual_step_rel:
  assumes "aead_roundtrip C" "aead_length C" "length (fst op) = 12" "dual_rel C wrap d h" "dual_step C wrap op (d, h) = (d', h')"
  shows "dual_rel C wrap d' h'"
proof (cases rule: commit_cases [where C = C and rnd = "fst op" and d = d and p = "snd op" and wrap = wrap])
  case (ok s e)
  let ?g = "snd (newest d)"
  have e: "d' = e" "h' = snd op # h" using assms(5) ok(3) by (simp_all add: dual_step_def)
  have g: "unat (?g + 1) = Suc (length h)" using unat_Suc [OF ok(1)] dual_rel_gens [OF assms(4)] by simp
  then have "0 < ?g + 1" by (simp add: word_less_nat_alt)
  then have "holds C wrap s (?g + 1) (snd op)" using sealed_holds [OF assms(1-3) _ ok(2)] by blast
  moreover have "older e = newest d" using ok(5) dual_rel_distinct [OF assms(4)] by blast
  ultimately show ?thesis
    using g ok(4) dual_rel_gens [OF assms(4)] dual_rel_newest [OF assms(4)] by (cases h) (simp_all add: e)
qed (use assms(4,5) in \<open>auto simp: dual_step_def\<close>)

lemma dual_run_snoc: "dual_run C wrap (ops @ [op]) = dual_step C wrap op (dual_run C wrap ops)"
  by (simp add: dual_run_def)

lemma dual_run_rel:
  assumes "aead_roundtrip C" "aead_length C" "\<forall>op \<in> set ops. length (fst op) = 12"
  shows "dual_rel C wrap (fst (dual_run C wrap ops)) (snd (dual_run C wrap ops))"
  using assms(3)
proof (induction ops rule: rev_induct)
  case Nil
  then show ?case by (simp add: dual_run_def)
next
  case (snoc op ops)
  obtain d h where dh: "dual_run C wrap ops = (d, h)" by (cases "dual_run C wrap ops")
  obtain d' h' where dh': "dual_step C wrap op (d, h) = (d', h')" by (cases "dual_step C wrap op (d, h)")
  have "length (fst op) = 12" "dual_rel C wrap d h" using snoc dh by simp_all
  from dual_step_rel [OF assms(1,2) this dh'] show ?case by (simp add: dual_run_snoc dh dh')
qed

lemma not_holds_empty [simp]: "\<not> holds C wrap [] g p"
  by (simp add: holds_def)

lemma dual_rel_recover:
  "dual_rel C wrap d h \<Longrightarrow> recover_latest_valid C d wrap =
     (case h of [] \<Rightarrow> Err PaqueteCorrupto | p # _ \<Rightarrow> Ok (snd (newest d), p))"
proof (cases h)
  case Nil
  then show "dual_rel C wrap d h \<Longrightarrow> ?thesis" by (simp add: recover_latest_valid_def dual_new_def)
next
  case (Cons p rest)
  assume "dual_rel C wrap d h"
  then have "holds C wrap (fst (newest d)) (snd (newest d)) p" by (simp add: Cons)
  from first_valid_hit [OF this] show ?thesis by (simp add: recover_alt Cons)
qed

text \<open>Damage to one slot: its bytes replaced by others.\<close>

definition damage_newest :: "bytes \<Rightarrow> dual_slot \<Rightarrow> dual_slot" where
  "damage_newest s d = (if generation_b d \<le> generation_a d then d\<lparr>slot_a := s\<rparr> else d\<lparr>slot_b := s\<rparr>)"

lemma damage_newest_slots [simp]:
  "newest (damage_newest s d) = (s, snd (newest d))" "older (damage_newest s d) = older d"
  by (simp_all add: damage_newest_def newest_def older_def)

lemma dual_rel_fallback:
  assumes "dual_rel C wrap d (p # q # rest)" "\<forall>x. \<not> holds C wrap s (snd (newest d)) x"
  shows "recover_latest_valid C (damage_newest s d) wrap = Ok (snd (older d), q)"
proof -
  have "holds C wrap (fst (older d)) (snd (older d)) q" using assms(1) by simp
  from first_valid_hit [OF this, of "[]"] show ?thesis
    using first_valid_miss [OF assms(2)] by (simp add: recover_alt)
qed

section \<open>The layout on disk\<close>

definition dual_layout :: "dual_slot \<Rightarrow> bytes" where
  "dual_layout d = MAGIC_DUAL @ u64_to_be (generation_a d) @ u32_to_be (word_of_nat (length (slot_a d))) @ slot_a d
     @ u64_to_be (generation_b d) @ u32_to_be (word_of_nat (length (slot_b d))) @ slot_b d"

lemma dual_to_bytes_Ok_iff:
  "dual_to_bytes d = Ok bs \<longleftrightarrow> length (slot_a d) < 2 ^ 32 \<and> length (slot_b d) < 2 ^ 32 \<and> bs = dual_layout d"
  by (auto simp: dual_to_bytes_def bindO_Ok_iff u32_try_from_Some dual_layout_def)

lemma dual_to_bytes_outcomes: "dual_to_bytes d \<noteq> Panic" "dual_to_bytes d = Err e \<longleftrightarrow>
    (2 ^ 32 \<le> length (slot_a d) \<or> 2 ^ 32 \<le> length (slot_b d)) \<and> e = AadDemasiadoLargo"
  by (auto simp: dual_to_bytes_def bindO_iff u32_try_from_Some u32_try_from_None)

lemma length_dual_layout: "length (dual_layout d) = 28 + length (slot_a d) + length (slot_b d)"
  by (simp add: dual_layout_def)

text \<open>Every file that is a prefix of a layout reads back as one of these.\<close>

lemma take_prefix: "n \<le> k \<Longrightarrow> take n (take k xs) = take n xs"
  by (simp add: min_def)

lemma read_prefix:
  "i + 4 \<le> k \<Longrightarrow> k \<le> length xs \<Longrightarrow> unwrap_u32 (take k xs) i = Ok (u32_from_be (take 4 (drop i xs)))"
  "i + 8 \<le> k \<Longrightarrow> k \<le> length xs \<Longrightarrow> unwrap_u64 (take k xs) i = Ok (u64_from_be (take 8 (drop i xs)))"
  "i \<le> j \<Longrightarrow> j \<le> k \<Longrightarrow> k \<le> length xs \<Longrightarrow> slice (take k xs) i j = Ok (take (j - i) (drop i xs))"
  by (simp_all add: drop_take min_def)

lemma from_prefix:
  assumes "length (slot_a d) < 2 ^ 32" "length (slot_b d) < 2 ^ 32" "k \<le> length (dual_layout d)"
  shows "dual_from_bytes (take k (dual_layout d)) =
    (if k < 16 + length (slot_a d) then Err PaqueteCorrupto
     else if k < 28 + length (slot_a d) then Ok (d\<lparr>generation_b := 0, slot_b := []\<rparr>)
     else if k < length (dual_layout d) then Ok (d\<lparr>slot_b := []\<rparr>)
     else Ok d)"
proof -
  let ?x = "dual_layout d" and ?n = "length (slot_a d)" and ?m = "length (slot_b d)"
  have l: "length ?x = 28 + ?n + ?m" by (rule length_dual_layout)
  have f: "take 4 ?x = MAGIC_DUAL" "take 8 (drop 4 ?x) = u64_to_be (generation_a d)"
    "take 4 (drop 12 ?x) = u32_to_be (word_of_nat ?n)" "take ?n (drop 16 ?x) = slot_a d"
    "take 8 (drop (16 + ?n) ?x) = u64_to_be (generation_b d)"
    "take 4 (drop (24 + ?n) ?x) = u32_to_be (word_of_nat ?m)" "take ?m (drop (28 + ?n) ?x) = slot_b d"
    by (simp_all add: dual_layout_def)
  have c: "usize_checked_add 16 (unat (word_of_nat ?n :: u32)) = Some (16 + ?n)"
    "usize_checked_add (28 + ?n) (unat (word_of_nat ?m :: u32)) = Some (28 + ?n + ?m)"
    using assms(1,2) by (simp_all add: usize_checked_add_def unat_u32_len)
  consider "k < 16" | "16 \<le> k" "k < 16 + ?n" | "16 + ?n \<le> k" "k < 28 + ?n" | "28 + ?n \<le> k" "k < length ?x" | "k = length ?x"
    using assms(3) by linarith
  then show ?thesis
  proof cases
    case 1
    then have "length (take k ?x) < 16" by (simp add: min_def)
    with 1 show ?thesis unfolding dual_from_bytes_def by simp
  next
    case 2
    with l show ?thesis
      by (simp add: dual_from_bytes_def read_prefix take_prefix f c del: read_in_range slice_ok)
  next
    case 3
    with l show ?thesis
      by (simp add: dual_from_bytes_def read_prefix take_prefix f c del: read_in_range slice_ok)
  next
    case 4
    with l show ?thesis
      by (simp add: dual_from_bytes_def read_prefix take_prefix f c del: read_in_range slice_ok)
  next
    case 5
    with l show ?thesis
      by (simp add: dual_from_bytes_def f c)
  qed
qed

text \<open>Arbitrary bytes: reading never panics, and the slots are parts of the input.\<close>

lemma dual_from_bytes_not_Panic: "dual_from_bytes bs \<noteq> Panic"
  by (cases "length bs < 16")
    (simp_all add: dual_from_bytes_def bindO_Panic_iff usize_checked_add_def del: bindO.simps)

definition part_of :: "bytes \<Rightarrow> bytes \<Rightarrow> bool" where
  "part_of s bs \<longleftrightarrow> (\<exists>pre post. bs = pre @ s @ post)"

lemma part_of_slice: "slice bs i j = Ok s \<Longrightarrow> part_of s bs"
  unfolding part_of_def slice_def
  by (metis append_take_drop_id outcome.inject(1) outcome.distinct(3))

lemma part_of_Nil: "part_of [] bs"
  unfolding part_of_def by (metis append_Nil)

lemma dual_slots_part:
  "dual_from_bytes bs = Ok d \<Longrightarrow> part_of (slot_a d) bs \<and> part_of (slot_b d) bs"
  by (auto simp: dual_from_bytes_def bindO_Ok_iff part_of_Nil split: if_splits intro: part_of_slice)

lemma recover_authentic:
  assumes "aead_sound C" "aead_roundtrip C" "aead_length C" "recover_latest_valid C d wrap = Ok (g, p)"
  shows "\<exists>s rnd. s \<in> {slot_a d, slot_b d} \<and> length rnd = 12 \<and> seal_slot C rnd g p wrap = Ok s"
proof -
  have "\<exists>s \<in> {slot_a d, slot_b d}. holds C wrap s g p"
    using assms(4) unfolding recover_alt newest_def older_def
    by (cases "generation_b d \<le> generation_a d") (auto simp: first_valid_iff simp del: first_valid.simps(2))
  then show ?thesis unfolding holds_def open_slot_exact [OF assms(1-3)] by blast
qed

text \<open>Runs of the concrete instance, for the witnesses.\<close>

definition sample_dual :: "(bytes \<times> bytes) list" where
  "sample_dual = [(replicate 12 1, [10]), (replicate 12 2, [20, 21])]"

definition sample_dual3 :: "(bytes \<times> bytes) list" where
  "sample_dual3 = sample_dual @ [(replicate 12 3, [30])]"

lemma sample_dual_nonces:
  "\<forall>op \<in> set sample_dual. length (fst op) = 12" "\<forall>op \<in> set sample_dual3. length (fst op) = 12"
  by (simp_all add: sample_dual_def sample_dual3_def)

lemma sample_dual_eval:
  "snd (dual_run toy [8] sample_dual) = [[20, 21], [10]]"
  "let d = fst (dual_run toy [8] sample_dual) in generation_a d = 1 \<and> generation_b d = 2
     \<and> length (slot_a d) = 37 \<and> length (slot_b d) = 38
     \<and> fst (commit_state toy (replicate 12 4) (d\<lparr>slot_b := []\<rparr>) [40] [8]) = Ok 3"
  "snd (dual_run toy [8] sample_dual3) = [[30], [20, 21], [10]]"
  "let d = fst (dual_run toy [8] sample_dual3) in generation_a d = 3 \<and> generation_b d = 2
     \<and> length (slot_a d) = 37 \<and> length (slot_b d) = 38"
  by code_simp+

lemma sample_dual_state:
  obtains d where "dual_run toy [8] sample_dual = (d, [[20, 21], [10]])" "generation_a d = 1" "generation_b d = 2"
    "length (slot_a d) = 37" "dual_to_bytes d = Ok (dual_layout d)" "length (dual_layout d) = 103"
    "fst (commit_state toy (replicate 12 4) (d\<lparr>slot_b := []\<rparr>) [40] [8]) = Ok 3"
proof -
  let ?d = "fst (dual_run toy [8] sample_dual)"
  have "dual_run toy [8] sample_dual = (?d, [[20, 21], [10]])" using sample_dual_eval(1) by (metis prod.collapse)
  moreover have "generation_a ?d = 1" "generation_b ?d = 2" "length (slot_a ?d) = 37" "length (slot_b ?d) = 38"
    "fst (commit_state toy (replicate 12 4) (?d\<lparr>slot_b := []\<rparr>) [40] [8]) = Ok 3"
    using sample_dual_eval(2) unfolding Let_def by blast+
  moreover from this have "dual_to_bytes ?d = Ok (dual_layout ?d)" "length (dual_layout ?d) = 103"
    by (simp_all add: dual_to_bytes_Ok_iff length_dual_layout)
  ultimately show thesis using that by blast
qed

lemma sample_dual_state3:
  obtains d where "dual_run toy [8] sample_dual3 = (d, [[30], [20, 21], [10]])" "generation_a d = 3" "generation_b d = 2"
    "length (slot_a d) = 37" "dual_to_bytes d = Ok (dual_layout d)" "length (dual_layout d) = 103"
proof -
  let ?d = "fst (dual_run toy [8] sample_dual3)"
  have "dual_run toy [8] sample_dual3 = (?d, [[30], [20, 21], [10]])" using sample_dual_eval(3) by (metis prod.collapse)
  moreover have "generation_a ?d = 3" "generation_b ?d = 2" "length (slot_a ?d) = 37" "length (slot_b ?d) = 38"
    using sample_dual_eval(4) unfolding Let_def by blast+
  moreover from this have "dual_to_bytes ?d = Ok (dual_layout ?d)" "length (dual_layout ?d) = 103"
    by (simp_all add: dual_to_bytes_Ok_iff length_dual_layout)
  ultimately show thesis using that by blast
qed

section \<open>Properties\<close>

text \<open>
  C5: the container remembers the last state committed. After any sequence of commits, successful
  or not, recovery returns the last acknowledged payload, with the number of acknowledged commits as
  its generation, and an error when there is none.
\<close>

theorem dual_recovers_last_commit:
  assumes "aead_roundtrip C" and "aead_length C" and "\<forall>op \<in> set ops. length (fst op) = 12"
    and "dual_run C wrap ops = (d, h)"
  shows "recover_latest_valid C d wrap =
    (case h of [] \<Rightarrow> Err PaqueteCorrupto | p # _ \<Rightarrow> Ok (word_of_nat (length h), p))"
proof -
  have r: "dual_rel C wrap d h" using dual_run_rel [OF assms(1-3), of wrap] assms(4) by simp
  have "snd (newest d) = word_of_nat (length h)" using dual_rel_gens [OF r] by (metis of_nat_unat ucast_id)
  then show ?thesis using dual_rel_recover [OF r] by (simp split: list.splits)
qed

theorem dual_recovers_last_commit_witness:
  "\<exists>d. dual_run toy [8] sample_dual = (d, [[20, 21], [10]]) \<and> recover_latest_valid toy d [8] = Ok (2, [20, 21])"
proof -
  obtain d where d: "dual_run toy [8] sample_dual = (d, [[20, 21], [10]])" by (rule sample_dual_state)
  from dual_recovers_last_commit [OF toy_aead_roundtrip toy_aead_length sample_dual_nonces(1) d] d show ?thesis by simp
qed

text \<open>
  C23: and the state before it, if the last write was damaged. Replace the bytes of the slot written
  last by any others that do not open under its generation: recovery returns the payload
  acknowledged before, with its generation.
\<close>

theorem dual_falls_back:
  assumes "aead_roundtrip C" and "aead_length C" and "\<forall>op \<in> set ops. length (fst op) = 12"
    and "dual_run C wrap ops = (d, p # q # rest)" and "\<forall>x. open_slot C s wrap \<noteq> Ok (snd (newest d), x)"
  shows "recover_latest_valid C (damage_newest s d) wrap = Ok (word_of_nat (length (q # rest)), q)"
proof -
  have r: "dual_rel C wrap d (p # q # rest)" using dual_run_rel [OF assms(1-3), of wrap] assms(4) by simp
  have "snd (older d) = word_of_nat (length (q # rest))"
    using r by (metis dual_rel.simps(2) of_nat_unat ucast_id)
  moreover have "\<forall>x. \<not> holds C wrap s (snd (newest d)) x" using assms(5) by (simp add: holds_def)
  ultimately show ?thesis using dual_rel_fallback [OF r] by simp
qed

theorem dual_falls_back_witness:
  "\<exists>d. dual_run toy [8] sample_dual = (d, [[20, 21], [10]])
     \<and> recover_latest_valid toy (damage_newest [1, 2, 3] d) [8] = Ok (1, [10])"
proof -
  obtain d where d: "dual_run toy [8] sample_dual = (d, [[20, 21], [10]])" by (rule sample_dual_state)
  have "\<forall>x. open_slot toy [1, 2, 3] [8] \<noteq> Ok (snd (newest d), x)" by (simp add: open_slot_def)
  from dual_falls_back [OF toy_aead_roundtrip toy_aead_length sample_dual_nonces(1) d this] d show ?thesis by simp
qed

text \<open>
  The layout on disk, whole and cut. A container that serializes reads back as itself. Of a
  file cut after \<open>k\<close> bytes, reading fails when the cut is inside slot A; else it gives slot A as it was,
  and slot B only when the file is whole.
\<close>

theorem dual_truncated_file:
  assumes "dual_to_bytes d = Ok bs" and "k \<le> length bs"
  shows "dual_from_bytes (take k bs) =
    (if k < 16 + length (slot_a d) then Err PaqueteCorrupto
     else if k < 28 + length (slot_a d) then Ok (d\<lparr>generation_b := 0, slot_b := []\<rparr>)
     else if k < length bs then Ok (d\<lparr>slot_b := []\<rparr>)
     else Ok d)"
  using assms from_prefix unfolding dual_to_bytes_Ok_iff by blast

theorem dual_truncated_file_witness:
  "\<exists>bs. dual_to_bytes \<lparr>generation_a = 1, slot_a = [7], generation_b = 2, slot_b = [8, 9]\<rparr> = Ok bs
     \<and> dual_from_bytes (take 30 bs) = Ok \<lparr>generation_a = 1, slot_a = [7], generation_b = 2, slot_b = []\<rparr>"
proof -
  let ?d = "\<lparr>generation_a = 1, slot_a = [7], generation_b = 2, slot_b = [8, 9]\<rparr>"
  have b: "dual_to_bytes ?d = Ok (dual_layout ?d)" by (simp add: dual_to_bytes_Ok_iff)
  have l: "length (dual_layout ?d) = 31" by (simp add: length_dual_layout)
  from dual_truncated_file [OF b, of 30] l b show ?thesis by simp
qed

text \<open>
  C33: what a container file gives that was cut. Cut anywhere inside slot A or before it, it does not
  read at all. Cut anywhere behind slot A, short of its end, it reads, and recovery returns what slot A
  holds, whichever slot is the newest: the last state if the last commit went to A, the one before if it
  went to B. So a file cut inside slot A gives neither of the two states.
\<close>

theorem dual_power_cut:
  assumes "aead_roundtrip C" and "aead_length C" and "\<forall>op \<in> set ops. length (fst op) = 12"
    and "dual_run C wrap ops = (d, p # q # rest)" and "dual_to_bytes d = Ok bs" and "k < length bs"
  shows "(k < 16 + length (slot_a d) \<longrightarrow> dual_from_bytes (take k bs) = Err PaqueteCorrupto)
    \<and> (16 + length (slot_a d) \<le> k \<longrightarrow> (\<exists>d'. dual_from_bytes (take k bs) = Ok d'
         \<and> recover_latest_valid C d' wrap = Ok (generation_a d, if generation_b d < generation_a d then p else q)))
    \<and> unat (generation_a d) = (if generation_b d < generation_a d then length (p # q # rest) else length (q # rest))"
proof -
  have r: "dual_rel C wrap d (p # q # rest)" using dual_run_rel [OF assms(1-3), of wrap] assms(4) by simp
  have f: "dual_from_bytes (take k bs) = (if k < 16 + length (slot_a d) then Err PaqueteCorrupto
     else if k < 28 + length (slot_a d) then Ok (d\<lparr>generation_b := 0, slot_b := []\<rparr>)
     else if k < length bs then Ok (d\<lparr>slot_b := []\<rparr>) else Ok d)"
    using assms(5,6) from_prefix unfolding dual_to_bytes_Ok_iff by (meson less_imp_le)
  have a: "holds C wrap (slot_a d) (generation_a d) (if generation_b d < generation_a d then p else q)"
    "unat (generation_a d) = (if generation_b d < generation_a d then length (p # q # rest) else length (q # rest))"
  proof -
    have "generation_a d \<noteq> generation_b d" using r by (auto simp: newest_def older_def split: if_splits)
    then have "generation_b d \<le> generation_a d \<longleftrightarrow> generation_b d < generation_a d" by auto
    with r show "holds C wrap (slot_a d) (generation_a d) (if generation_b d < generation_a d then p else q)"
      "unat (generation_a d) = (if generation_b d < generation_a d then length (p # q # rest) else length (q # rest))"
      by (auto simp: newest_def older_def split: if_splits)
  qed
  have "recover_latest_valid C (d\<lparr>generation_b := 0, slot_b := []\<rparr>) wrap
      = Ok (generation_a d, if generation_b d < generation_a d then p else q)"
    "recover_latest_valid C (d\<lparr>slot_b := []\<rparr>) wrap = Ok (generation_a d, if generation_b d < generation_a d then p else q)"
    using a(1) by (simp_all add: recover_latest_valid_def holds_def)
  then show ?thesis using a(2) assms(6) by (simp add: f)
qed

theorem dual_power_cut_witness:
  "(\<exists>d bs d'. dual_run toy [8] sample_dual = (d, [[20, 21], [10]]) \<and> dual_to_bytes d = Ok bs
     \<and> dual_from_bytes (take 70 bs) = Ok d' \<and> recover_latest_valid toy d' [8] = Ok (1, [10]))
   \<and> (\<exists>d bs. dual_run toy [8] sample_dual3 = (d, [[30], [20, 21], [10]]) \<and> dual_to_bytes d = Ok bs
     \<and> dual_from_bytes (take 50 bs) = Err PaqueteCorrupto)"
proof
  obtain d where d: "dual_run toy [8] sample_dual = (d, [[20, 21], [10]])" "generation_a d = 1" "generation_b d = 2"
    "length (slot_a d) = 37" "dual_to_bytes d = Ok (dual_layout d)" "length (dual_layout d) = 103"
    by (rule sample_dual_state)
  from dual_power_cut [OF toy_aead_roundtrip toy_aead_length sample_dual_nonces(1) d(1,5), of 70] d
  show "\<exists>d bs d'. dual_run toy [8] sample_dual = (d, [[20, 21], [10]]) \<and> dual_to_bytes d = Ok bs
     \<and> dual_from_bytes (take 70 bs) = Ok d' \<and> recover_latest_valid toy d' [8] = Ok (1, [10])" by simp
next
  obtain d where d: "dual_run toy [8] sample_dual3 = (d, [[30], [20, 21], [10]])" "generation_a d = 3" "generation_b d = 2"
    "length (slot_a d) = 37" "dual_to_bytes d = Ok (dual_layout d)" "length (dual_layout d) = 103"
    by (rule sample_dual_state3)
  from dual_power_cut [OF toy_aead_roundtrip toy_aead_length sample_dual_nonces(2) d(1,5), of 50] d
  show "\<exists>d bs. dual_run toy [8] sample_dual3 = (d, [[30], [20, 21], [10]]) \<and> dual_to_bytes d = Ok bs
     \<and> dual_from_bytes (take 50 bs) = Err PaqueteCorrupto" by simp
qed

text \<open>
  The commit after such a recovery overwrites the only state left. Reading a file cut inside slot B
  keeps the generation number of B, the larger one, but not its bytes; the next commit
  therefore writes slot A, and if that write is damaged nothing is recovered.
\<close>

theorem dual_commit_overwrites_survivor:
  assumes "generation_a d < generation_b d" and "dual_to_bytes d = Ok bs"
    and "28 + length (slot_a d) \<le> k" and "k < length bs" and "dual_from_bytes (take k bs) = Ok d'"
    and "commit_state C rnd d' p wrap = (Ok g, d2)" and "\<forall>x. open_slot C s wrap \<noteq> Ok (g, x)"
  shows "slot_b d2 = [] \<and> g = generation_b d + 1
    \<and> recover_latest_valid C (d2\<lparr>slot_a := s\<rparr>) wrap = Err PaqueteCorrupto"
proof -
  have "dual_from_bytes (take k bs) = Ok (d\<lparr>slot_b := []\<rparr>)"
    using assms(2-4) from_prefix [of d k] unfolding dual_to_bytes_Ok_iff by force
  then have d': "d' = d\<lparr>slot_b := []\<rparr>" using assms(5) by simp
  have "generation_a d' \<le> generation_b d'" using assms(1) unfolding d' by simp
  from commit_to_a [OF this assms(6)] have g: "generation_b d \<noteq> - 1" "g = generation_b d + 1"
    and d2: "slot_b d2 = []" "generation_a d2 = g" "generation_b d2 = generation_b d" by (simp_all add: d')
  have "generation_b d \<le> g" using unat_Suc [OF g(1)] by (simp add: g(2) word_le_nat_alt)
  moreover have "\<forall>x. \<not> holds C wrap s g x" using assms(7) by (simp add: holds_def)
  ultimately have "recover_latest_valid C (d2\<lparr>slot_a := s\<rparr>) wrap = first_valid C wrap [([], generation_b d)]"
    using first_valid_miss [of C wrap s g] by (simp add: recover_latest_valid_def d2 del: first_valid.simps(2))
  then show ?thesis using d2(1) g(2) by simp
qed

theorem dual_commit_overwrites_survivor_witness:
  "\<exists>bs d' d2. dual_to_bytes (fst (dual_run toy [8] sample_dual)) = Ok bs \<and> dual_from_bytes (take 70 bs) = Ok d'
     \<and> commit_state toy (replicate 12 4) d' [40] [8] = (Ok 3, d2)
     \<and> recover_latest_valid toy (d2\<lparr>slot_a := [1]\<rparr>) [8] = Err PaqueteCorrupto"
proof -
  obtain d where d: "dual_run toy [8] sample_dual = (d, [[20, 21], [10]])" "generation_a d = 1" "generation_b d = 2"
    "length (slot_a d) = 37" "dual_to_bytes d = Ok (dual_layout d)" "length (dual_layout d) = 103"
    "fst (commit_state toy (replicate 12 4) (d\<lparr>slot_b := []\<rparr>) [40] [8]) = Ok 3"
    by (rule sample_dual_state)
  obtain d2 where c: "commit_state toy (replicate 12 4) (d\<lparr>slot_b := []\<rparr>) [40] [8] = (Ok 3, d2)"
    using d(7) by (metis prod.collapse)
  have e: "dual_from_bytes (take 70 (dual_layout d)) = Ok (d\<lparr>slot_b := []\<rparr>)"
    using d(4-6) from_prefix [of d 70] by (simp add: dual_to_bytes_Ok_iff)
  have "\<forall>x. open_slot toy [1] [8] \<noteq> Ok (3, x)" by (simp add: open_slot_def)
  from dual_commit_overwrites_survivor [OF _ d(5) _ _ e c this] d(1-6) e c show ?thesis by simp
qed

text \<open>
  C27: what is recovered was sealed. Whatever bytes are read, reading and recovery do not panic, and a
  payload is returned with a generation only if the bytes contain a slot that \<open>seal_slot\<close> makes of
  exactly this generation and payload under the wrap key.
\<close>

theorem dual_load_authentic:
  assumes "aead_sound C" and "aead_roundtrip C" and "aead_length C"
  shows "dual_from_bytes bs \<noteq> Panic \<and> recover_latest_valid C d wrap \<noteq> Panic
    \<and> (dual_from_bytes bs = Ok d \<and> recover_latest_valid C d wrap = Ok (g, p) \<longrightarrow>
        (\<exists>s rnd. seal_slot C rnd g p wrap = Ok s \<and> length rnd = 12 \<and> part_of s bs))"
proof -
  have "recover_latest_valid C d wrap \<noteq> Panic" by (simp only: recover_alt first_valid_outcomes not_False_eq_True)
  moreover have "\<exists>s rnd. seal_slot C rnd g p wrap = Ok s \<and> length rnd = 12 \<and> part_of s bs"
    if "dual_from_bytes bs = Ok d" "recover_latest_valid C d wrap = Ok (g, p)"
    using recover_authentic [OF assms that(2)] dual_slots_part [OF that(1)] by blast
  ultimately show ?thesis using dual_from_bytes_not_Panic by blast
qed

theorem dual_load_authentic_witness:
  "\<exists>bs d s rnd. dual_from_bytes bs = Ok d \<and> recover_latest_valid toy d [8] = Ok (2, [20, 21])
     \<and> seal_slot toy rnd 2 [20, 21] [8] = Ok s \<and> part_of s bs"
proof -
  obtain d where d: "dual_run toy [8] sample_dual = (d, [[20, 21], [10]])" "dual_to_bytes d = Ok (dual_layout d)"
    by (rule sample_dual_state)
  have e: "dual_from_bytes (dual_layout d) = Ok d"
    using d(2) from_prefix [of d "length (dual_layout d)"] by (simp add: dual_to_bytes_Ok_iff length_dual_layout)
  have r: "dual_rel toy [8] d [[20, 21], [10]]"
    using dual_run_rel [OF toy_aead_roundtrip toy_aead_length sample_dual_nonces(1), of "[8]"] d(1) by simp
  have "unat (snd (newest d)) = 2" using dual_rel_gens [OF r] by simp
  then have "snd (newest d) = 2" by (metis of_nat_numeral of_nat_unat ucast_id)
  then have "recover_latest_valid toy d [8] = Ok (2, [20, 21])"
    using dual_rel_recover [OF r] by (simp only: list.case)
  with dual_load_authentic [OF toy_aead_sound toy_aead_roundtrip toy_aead_length, of "dual_layout d" d "[8]" 2 "[20, 21]"] e
  show ?thesis by blast
qed

end
