(* ===== verification/Wal.thy ===== *)
theory Wal
  imports Chrono
begin

text \<open>
  \<open>src/persistence.rs\<close>, third part: the write-ahead log. A frame carries a packet, the SHA-256 of the
  frame before it, and its own; \<open>recover_from_bytes\<close> scans a log from the start, checks the chain and
  stops at an incomplete frame. The scan is a loop over an offset: \<open>wal_frame_at\<close> is its body and
  \<open>wal_loop\<close> terminates because every complete frame is at least 72 bytes long.
\<close>

definition MAGIC_WAL_FRAME :: bytes where "MAGIC_WAL_FRAME = ascii ''CNWL''"

record journal =
  head_sha256 :: bytes
  frames_count :: u64

record wal_report =
  r_packets :: "packet list"
  head_chain_sha256 :: bytes
  valid_bytes_len :: nat
  had_truncated_tail :: bool

definition wal_zero :: bytes where "wal_zero = replicate 32 0"

definition wal_new :: journal where
  "wal_new = \<lparr>head_sha256 = wal_zero, frames_count = 0\<rparr>"

definition wal_from_head :: "bytes \<Rightarrow> u64 \<Rightarrow> journal" where
  "wal_from_head h c = \<lparr>head_sha256 = h, frames_count = c\<rparr>"

definition compute_frame_sha256 :: "crypto \<Rightarrow> bytes \<Rightarrow> bytes \<Rightarrow> bytes" where
  "compute_frame_sha256 C prev_sha pkt_bytes =
     sha256 C (ascii ''CryptoNugget:WAL:Frame:v1'' @ prev_sha @ u64_to_be (word_of_nat (length pkt_bytes)) @ pkt_bytes)"

definition constant_time_eq_32 :: "bytes \<Rightarrow> bytes \<Rightarrow> bool" where
  "constant_time_eq_32 a b = (if length a \<noteq> 32 then False else xor_diff a b = 0)"

definition encode_append_frame :: "crypto \<Rightarrow> journal \<Rightarrow> packet \<Rightarrow> bytes outcome \<times> journal" where
  "encode_append_frame C j packet =
     (let pkt_bytes = to_bytes packet
      in case u32_try_from (length pkt_bytes) of
           None \<Rightarrow> (Err AadDemasiadoLargo, j)
         | Some pkt_len \<Rightarrow>
           (let frame_sha = compute_frame_sha256 C (head_sha256 j) pkt_bytes;
                frame = MAGIC_WAL_FRAME @ u32_to_be pkt_len @ head_sha256 j @ pkt_bytes @ frame_sha
            in (Ok frame, j\<lparr>head_sha256 := frame_sha, frames_count := saturating_add (frames_count j) 1\<rparr>)))"

text \<open>One iteration of the loop: it leaves it (\<open>break\<close>), or it has read a frame of \<open>n\<close> bytes.\<close>

datatype scan = Tail | Frame packet bytes nat

definition wal_frame_at :: "crypto \<Rightarrow> bytes \<Rightarrow> nat \<Rightarrow> bytes \<Rightarrow> scan outcome" where
  "wal_frame_at C wal offset expected_prev_sha =
     (let remaining = length wal - offset in
      if remaining < 72 then Ok Tail else
      bindO (slice wal offset (offset + 4)) (\<lambda>magic.
      if magic \<noteq> MAGIC_WAL_FRAME then Err PaqueteCorrupto else
      bindO (unwrap_u32 wal (offset + 4)) (\<lambda>len.
      bindO (ok_or PaqueteCorrupto (usize_checked_add 72 (unat len))) (\<lambda>total_frame_len.
      if remaining < total_frame_len then Ok Tail else
      bindO (slice wal (offset + 8) (offset + 40)) (\<lambda>prev_sha.
      bindO (slice wal (offset + 40) (offset + 40 + unat len)) (\<lambda>pkt_slice.
      bindO (slice wal (offset + 40 + unat len) (offset + total_frame_len)) (\<lambda>stored_frame_sha.
      if \<not> constant_time_eq_32 prev_sha expected_prev_sha then Err IntegridadContextoCorrupta else
      let computed_sha = compute_frame_sha256 C expected_prev_sha pkt_slice in
      if \<not> constant_time_eq_32 stored_frame_sha computed_sha then Err IntegridadContextoCorrupta else
      bindO (from_bytes pkt_slice) (\<lambda>packet. Ok (Frame packet computed_sha total_frame_len)))))))))"

lemma wal_frame_at_length: "wal_frame_at C wal off prev = Ok (Frame p h n) \<Longrightarrow> 72 \<le> n"
  by (auto simp: wal_frame_at_def Let_def bindO_Ok_iff usize_checked_add_def split: if_splits)

function wal_loop :: "crypto \<Rightarrow> bytes \<Rightarrow> nat \<Rightarrow> bytes \<Rightarrow> packet list \<Rightarrow> wal_report outcome" where
  "wal_loop C wal offset prev ps =
     (if offset < length wal then
        (case wal_frame_at C wal offset prev of
           Err e \<Rightarrow> Err e
         | Panic \<Rightarrow> Panic
         | Ok Tail \<Rightarrow> Ok \<lparr>r_packets = ps, head_chain_sha256 = prev, valid_bytes_len = offset, had_truncated_tail = True\<rparr>
         | Ok (Frame packet computed_sha n) \<Rightarrow> wal_loop C wal (offset + n) computed_sha (ps @ [packet]))
      else Ok \<lparr>r_packets = ps, head_chain_sha256 = prev, valid_bytes_len = offset, had_truncated_tail = False\<rparr>)"
  by pat_completeness auto

termination
  by (relation "measure (\<lambda>(C, wal, offset, prev, ps). length wal - offset)")
    (auto dest: wal_frame_at_length)

declare wal_loop.simps [simp del]

definition recover_from_bytes :: "crypto \<Rightarrow> bytes \<Rightarrow> wal_report outcome" where
  "recover_from_bytes C wal = wal_loop C wal 0 wal_zero []"

text \<open>The loop of \<open>decrypt_recovered_wal\<close>, with its \<open>?\<close>.\<close>

fun decrypt_packets :: "crypto \<Rightarrow> mesh_node \<Rightarrow> bytes \<Rightarrow> packet list \<Rightarrow> bytes list outcome" where
  "decrypt_packets C node user_aad [] = Ok []"
| "decrypt_packets C node user_aad (pkt # ps) =
     bindO (open_persisted_record C node pkt user_aad) (\<lambda>pt.
     bindO (decrypt_packets C node user_aad ps) (\<lambda>pts. Ok (pt # pts)))"

definition decrypt_recovered_wal :: "crypto \<Rightarrow> mesh_node \<Rightarrow> wal_report \<Rightarrow> bytes \<Rightarrow> bytes list outcome" where
  "decrypt_recovered_wal C node report user_aad = decrypt_packets C node user_aad (r_packets report)"

section \<open>Logs as sequences of frames\<close>

definition frame :: "crypto \<Rightarrow> bytes \<Rightarrow> bytes \<Rightarrow> bytes" where
  "frame C prev raw = MAGIC_WAL_FRAME @ u32_to_be (word_of_nat (length raw)) @ prev @ raw @ compute_frame_sha256 C prev raw"

fun chain_head :: "crypto \<Rightarrow> bytes \<Rightarrow> packet list \<Rightarrow> bytes" where
  "chain_head C prev [] = prev"
| "chain_head C prev (p # ps) = chain_head C (compute_frame_sha256 C prev (to_bytes p)) ps"

fun frames :: "crypto \<Rightarrow> bytes \<Rightarrow> packet list \<Rightarrow> bytes" where
  "frames C prev [] = []"
| "frames C prev (p # ps) = frame C prev (to_bytes p) @ frames C (compute_frame_sha256 C prev (to_bytes p)) ps"

text \<open>A packet a log can hold: well-formed, as its layout carries it, and of a length that fits.\<close>

definition loggable :: "packet \<Rightarrow> bool" where
  "loggable p \<longleftrightarrow> wf_packet p \<and> wire_view p = p \<and> length (to_bytes p) < 2 ^ 32"

text \<open>Bytes that the scan takes for a frame cut short.\<close>

definition incomplete :: "bytes \<Rightarrow> bool" where
  "incomplete t \<longleftrightarrow> t \<noteq> [] \<and> (length t < 72 \<or>
     take 4 t = MAGIC_WAL_FRAME \<and> length t < 72 + unat (u32_from_be (take 4 (drop 4 t))))"

lemma length_MAGIC_WAL [simp]: "length MAGIC_WAL_FRAME = 4"
  by (simp add: MAGIC_WAL_FRAME_def)

lemma length_wal_zero [simp]: "length wal_zero = 32"
  by (simp add: wal_zero_def)

lemma length_frame_sha [simp]: "hash_lengths C \<Longrightarrow> length (compute_frame_sha256 C prev raw) = 32"
  by (simp add: compute_frame_sha256_def hash_lengthsD)

lemma length_frame: "hash_lengths C \<Longrightarrow> length prev = 32 \<Longrightarrow> length (frame C prev raw) = 72 + length raw"
  by (simp add: frame_def)

lemma length_chain_head [simp]: "hash_lengths C \<Longrightarrow> length prev = 32 \<Longrightarrow> length (chain_head C prev ps) = 32"
  by (induction ps arbitrary: prev) auto

lemma chain_head_append: "chain_head C prev (ps @ qs) = chain_head C (chain_head C prev ps) qs"
  by (induction ps arbitrary: prev) auto

lemma frames_append: "frames C prev (ps @ qs) = frames C prev ps @ frames C (chain_head C prev ps) qs"
  by (induction ps arbitrary: prev) auto

lemma constant_time_eq_iff: "length b = 32 \<Longrightarrow> constant_time_eq_32 a b \<longleftrightarrow> a = b"
  by (auto simp: constant_time_eq_32_def xor_diff_0_iff)

lemma usize_u32: "unat (len :: u32) + 72 < 2 ^ 64"
proof -
  have "unat len < 2 ^ 32" using unsigned_less [of len] by simp
  then show ?thesis by simp
qed

text \<open>The body of the loop in terms of what is left of the log.\<close>

lemma frame_at_rest:
  assumes "hash_lengths C" "length prev = 32" "off \<le> length wal"
  shows "wal_frame_at C wal off prev =
    (let t = drop off wal; n = unat (u32_from_be (take 4 (drop 4 t))); raw = take n (drop 40 t);
         sha = compute_frame_sha256 C prev raw
     in if length t < 72 then Ok Tail
        else if take 4 t \<noteq> MAGIC_WAL_FRAME then Err PaqueteCorrupto
        else if length t < 72 + n then Ok Tail
        else if take 32 (drop 8 t) \<noteq> prev \<or> take 32 (drop (40 + n) t) \<noteq> sha then Err IntegridadContextoCorrupta
        else bindO (from_bytes raw) (\<lambda>p. Ok (Frame p sha (72 + n))))"
  using assms usize_u32
  by (simp add: wal_frame_at_def Let_def usize_checked_add_def constant_time_eq_iff add.assoc add.commute [of off])

lemma frame_fields:
  assumes "hash_lengths C" "length prev = 32" "length raw < 2 ^ 32" and "t = frame C prev raw @ rest"
  shows "take 4 t = MAGIC_WAL_FRAME" "unat (u32_from_be (take 4 (drop 4 t))) = length raw" "take 32 (drop 8 t) = prev"
    "take (length raw) (drop 40 t) = raw" "take 32 (drop (40 + length raw) t) = compute_frame_sha256 C prev raw"
    "length t = 72 + length raw + length rest"
  using assms by (simp_all add: frame_def unat_u32_len)

lemma frame_at_frame:
  assumes "hash_lengths C" "length prev = 32" "loggable p" "off \<le> length wal" "drop off wal = frame C prev (to_bytes p) @ rest"
  shows "wal_frame_at C wal off prev = Ok (Frame p (compute_frame_sha256 C prev (to_bytes p)) (72 + length (to_bytes p)))"
proof -
  have p: "length (to_bytes p) < 2 ^ 32" "from_bytes (to_bytes p) = Ok p"
    using assms(3) from_bytes_to_bytes [of p] by (auto simp: loggable_def)
  define t where "t = drop off wal"
  note f = frame_fields [OF assms(1,2) p(1) assms(5) [folded t_def]]
  show ?thesis
    using p(2) by (simp add: frame_at_rest [OF assms(1,2,4)] t_def [symmetric] f Let_def)
qed

lemma frame_at_Tail:
  assumes "hash_lengths C" "length prev = 32" "off < length wal"
  shows "wal_frame_at C wal off prev = Ok Tail \<longleftrightarrow> incomplete (drop off wal)"
  using assms
  by (auto simp: frame_at_rest Let_def incomplete_def bindO_Ok_iff split: if_splits)

lemma frame_cut_incomplete:
  assumes "hash_lengths C" "length prev = 32" "length raw < 2 ^ 32" "0 < k" "k < length (frame C prev raw)"
  shows "incomplete (take k (frame C prev raw))"
proof -
  have l: "length (frame C prev raw) = 72 + length raw" using assms(1,2) by (rule length_frame)
  note f = frame_fields [OF assms(1-3), of "frame C prev raw" "[]", simplified]
  show ?thesis
  proof (cases "k < 72")
    case True
    then show ?thesis using assms(4,5) by (auto simp: incomplete_def)
  next
    case False
    then have "take 4 (take k (frame C prev raw)) = take 4 (frame C prev raw)"
      "take 4 (drop 4 (take k (frame C prev raw))) = take 4 (drop 4 (frame C prev raw))"
      by (simp_all add: drop_take min_def)
    then show ?thesis using False assms(5) l f(1,2) by (auto simp: incomplete_def)
  qed
qed

lemma frame_at_inverse:
  assumes "hash_lengths C" "length prev = 32" "off \<le> length wal" "wal_frame_at C wal off prev = Ok (Frame p sha n)"
  shows "drop off wal = frame C prev (to_bytes p) @ drop (off + n) wal" "loggable p"
    "sha = compute_frame_sha256 C prev (to_bytes p)" "n = 72 + length (to_bytes p)" "off + n \<le> length wal"
proof -
  define t where "t = drop off wal"
  define m where "m = unat (u32_from_be (take 4 (drop 4 t)))"
  define raw where "raw = take m (drop 40 t)"
  have s: "\<not> length t < 72" "take 4 t = MAGIC_WAL_FRAME" "\<not> length t < 72 + m" "take 32 (drop 8 t) = prev"
    "take 32 (drop (40 + m) t) = compute_frame_sha256 C prev raw" "from_bytes raw = Ok p"
    "sha = compute_frame_sha256 C prev raw" "n = 72 + m"
    using assms(4) unfolding frame_at_rest [OF assms(1-3)] Let_def
    by (auto simp: t_def [symmetric] m_def [symmetric] raw_def [symmetric] bindO_Ok_iff split: if_splits)
  have raw: "to_bytes p = raw" "wf_packet p" "wire_view p = p" using from_bytes_Ok_inverse [OF s(6)] by blast+
  have len: "length raw = m" using s(3) by (simp add: raw_def)
  have m: "m < 2 ^ 32" using unsigned_less [of "u32_from_be (take 4 (drop 4 t))"] by (simp add: m_def)
  have "u32_to_be (word_of_nat m) = take 4 (drop 4 t)"
    using s(1) by (simp add: m_def be_writeback)
  then have "frame C prev raw = take 4 t @ take 4 (drop 4 t) @ take 32 (drop 8 t) @ take m (drop 40 t) @ take 32 (drop (40 + m) t)"
    using s(2,4,5) unfolding frame_def len by (simp add: raw_def)
  also have "\<dots> @ drop (72 + m) t = t"
    by (simp add: glue)
  finally have "frame C prev raw @ drop n t = t" by (simp add: s(8))
  then show "drop off wal = frame C prev (to_bytes p) @ drop (off + n) wal"
    by (simp add: raw(1)) (simp add: t_def add.commute)
  show "loggable p" using raw m len by (simp add: loggable_def)
  show "sha = compute_frame_sha256 C prev (to_bytes p)" "n = 72 + length (to_bytes p)" using s(7,8) raw(1) len by simp_all
  show "off + n \<le> length wal" using s(3,8) assms(3) by (simp add: t_def)
qed

lemma wal_loop_frames:
  assumes "hash_lengths C" "length prev = 32" "\<forall>p \<in> set ps. loggable p" "off \<le> length wal" "drop off wal = frames C prev ps @ t"
  shows "wal_loop C wal off prev acc = wal_loop C wal (off + length (frames C prev ps)) (chain_head C prev ps) (acc @ ps)"
  using assms(2-5)
proof (induction ps arbitrary: prev off acc)
  case Nil
  then show ?case by simp
next
  case (Cons p ps)
  let ?f = "frame C prev (to_bytes p)" and ?h = "compute_frame_sha256 C prev (to_bytes p)"
  have lf: "length ?f = 72 + length (to_bytes p)" using assms(1) Cons.prems(1) by (rule length_frame)
  have d: "drop off wal = ?f @ frames C ?h ps @ t" using Cons.prems(4) by simp
  then have "length (drop off wal) = length (?f @ frames C ?h ps @ t)" by (rule arg_cong)
  then have l: "off < length wal" "off + length ?f \<le> length wal" using lf by simp_all
  have p: "loggable p" using Cons.prems(2) by simp
  have "drop (off + length ?f) wal = drop (length ?f) (drop off wal)" by (simp add: add.commute)
  then have d2: "drop (off + length ?f) wal = frames C ?h ps @ t" by (simp add: d)
  have h: "length ?h = 32" using assms(1) by simp
  have "wal_loop C wal off prev acc = wal_loop C wal (off + length ?f) ?h (acc @ [p])"
    using frame_at_frame [OF assms(1) Cons.prems(1) p Cons.prems(3) d] l(1) lf
    by (subst wal_loop.simps) simp
  also have "\<dots> = wal_loop C wal (off + length ?f + length (frames C ?h ps)) (chain_head C ?h ps) ((acc @ [p]) @ ps)"
    using Cons.IH [OF h _ l(2) d2] Cons.prems(2) by simp
  finally show ?case by (simp add: add.assoc)
qed

definition report_of :: "crypto \<Rightarrow> packet list \<Rightarrow> bool \<Rightarrow> wal_report" where
  "report_of C ps tail = \<lparr>r_packets = ps, head_chain_sha256 = chain_head C wal_zero ps,
     valid_bytes_len = length (frames C wal_zero ps), had_truncated_tail = tail\<rparr>"

lemma report_of_simps [simp]:
  "r_packets (report_of C ps tail) = ps" "head_chain_sha256 (report_of C ps tail) = chain_head C wal_zero ps"
  "valid_bytes_len (report_of C ps tail) = length (frames C wal_zero ps)" "had_truncated_tail (report_of C ps tail) = tail"
  by (simp_all add: report_of_def)

lemma recover_frames:
  assumes "hash_lengths C" "\<forall>p \<in> set ps. loggable p" "t = [] \<or> incomplete t"
  shows "recover_from_bytes C (frames C wal_zero ps @ t) = Ok (report_of C ps (t \<noteq> []))"
proof -
  let ?wal = "frames C wal_zero ps @ t" and ?n = "length (frames C wal_zero ps)" and ?h = "chain_head C wal_zero ps"
  have "recover_from_bytes C ?wal = wal_loop C ?wal ?n ?h ps"
    using wal_loop_frames [OF assms(1) length_wal_zero assms(2), of 0 ?wal t "[]"] by (simp add: recover_from_bytes_def)
  also have "\<dots> = Ok (report_of C ps (t \<noteq> []))"
  proof (cases "t = []")
    case True
    then show ?thesis by (simp add: wal_loop.simps report_of_def)
  next
    case False
    then have i: "incomplete (drop ?n ?wal)" "?n < length ?wal" using assms(3) by auto
    have "length ?h = 32" using assms(1) by simp
    with i have "wal_frame_at C ?wal ?n ?h = Ok Tail" using frame_at_Tail [OF assms(1)] by blast
    with False show ?thesis by (simp add: wal_loop.simps report_of_def)
  qed
  finally show ?thesis .
qed

lemma wal_loop_inverse:
  assumes "hash_lengths C" "length prev = 32" "off \<le> length wal" "wal_loop C wal off prev acc = Ok r"
  shows "\<exists>ps t. drop off wal = frames C prev ps @ t \<and> (\<forall>p \<in> set ps. loggable p) \<and> (t = [] \<or> incomplete t)
    \<and> r = \<lparr>r_packets = acc @ ps, head_chain_sha256 = chain_head C prev ps,
           valid_bytes_len = off + length (frames C prev ps), had_truncated_tail = (t \<noteq> [])\<rparr>"
  using assms(2-4)
proof (induction "length wal - off" arbitrary: off prev acc rule: less_induct)
  case less
  note l32 = less(2) and le = less(3) and run = less(4)
  show ?case
  proof (cases "off < length wal")
    case False
    then have "drop off wal = []" "r = \<lparr>r_packets = acc, head_chain_sha256 = prev, valid_bytes_len = off, had_truncated_tail = False\<rparr>"
      using run by (simp_all add: wal_loop.simps [of C wal off])
    then show ?thesis by (intro exI [of _ "[]"]) simp
  next
    case True
    note l = True
    have step: "(case wal_frame_at C wal off prev of
           Err e \<Rightarrow> Err e
         | Panic \<Rightarrow> Panic
         | Ok Tail \<Rightarrow> Ok \<lparr>r_packets = acc, head_chain_sha256 = prev, valid_bytes_len = off, had_truncated_tail = True\<rparr>
         | Ok (Frame packet computed_sha n) \<Rightarrow> wal_loop C wal (off + n) computed_sha (acc @ [packet])) = Ok r"
      using run l by (simp add: wal_loop.simps [of C wal off])
    then consider (tail) "wal_frame_at C wal off prev = Ok Tail"
      | (fr) p sha n where "wal_frame_at C wal off prev = Ok (Frame p sha n)"
      by (cases "wal_frame_at C wal off prev"; cases "case wal_frame_at C wal off prev of Ok x \<Rightarrow> x") auto
    then show ?thesis
    proof cases
      case tail
      then have "r = \<lparr>r_packets = acc, head_chain_sha256 = prev, valid_bytes_len = off, had_truncated_tail = True\<rparr>"
        using step by simp
      moreover have "incomplete (drop off wal)" using tail l32 l frame_at_Tail [OF assms(1)] by blast
      ultimately show ?thesis using l by (intro exI [of _ "[]"] exI [of _ "drop off wal"]) simp
    next
      case fr
      let ?h = "compute_frame_sha256 C prev (to_bytes p)"
      note inv = frame_at_inverse [OF assms(1) l32 le fr]
      have lf: "length (frame C prev (to_bytes p)) = n" using length_frame [OF assms(1) l32] inv(4) by simp
      have "wal_loop C wal (off + n) ?h (acc @ [p]) = Ok r" using step fr inv(3) by simp
      moreover have "length wal - (off + n) < length wal - off" "length ?h = 32"
        using l wal_frame_at_length [OF fr] assms(1) by simp_all
      ultimately obtain ps t where ps: "drop (off + n) wal = frames C ?h ps @ t" "\<forall>p \<in> set ps. loggable p"
        "t = [] \<or> incomplete t"
        "r = \<lparr>r_packets = (acc @ [p]) @ ps, head_chain_sha256 = chain_head C ?h ps,
           valid_bytes_len = off + n + length (frames C ?h ps), had_truncated_tail = (t \<noteq> [])\<rparr>"
        using less(1) [of "off + n" ?h "acc @ [p]"] inv(5) by blast
      have "drop off wal = frames C prev (p # ps) @ t" using inv(1) ps(1) by simp
      moreover have "\<forall>q \<in> set (p # ps). loggable q" using inv(2) ps(2) by simp
      moreover have "r = \<lparr>r_packets = acc @ p # ps, head_chain_sha256 = chain_head C prev (p # ps),
           valid_bytes_len = off + length (frames C prev (p # ps)), had_truncated_tail = (t \<noteq> [])\<rparr>"
        using ps(4) lf by simp
      ultimately show ?thesis using ps(3) by blast
    qed
  qed
qed

lemma recover_exact:
  assumes "hash_lengths C"
  shows "recover_from_bytes C wal = Ok r \<longleftrightarrow> (\<exists>ps t. wal = frames C wal_zero ps @ t \<and> (\<forall>p \<in> set ps. loggable p)
    \<and> (t = [] \<or> incomplete t) \<and> r = report_of C ps (t \<noteq> []))"
proof
  assume "recover_from_bytes C wal = Ok r"
  then show "\<exists>ps t. wal = frames C wal_zero ps @ t \<and> (\<forall>p \<in> set ps. loggable p) \<and> (t = [] \<or> incomplete t) \<and> r = report_of C ps (t \<noteq> [])"
    using wal_loop_inverse [OF assms length_wal_zero, of 0 wal "[]" r] by (simp add: recover_from_bytes_def report_of_def)
next
  assume "\<exists>ps t. wal = frames C wal_zero ps @ t \<and> (\<forall>p \<in> set ps. loggable p) \<and> (t = [] \<or> incomplete t) \<and> r = report_of C ps (t \<noteq> [])"
  then show "recover_from_bytes C wal = Ok r" using recover_frames [OF assms] by blast
qed

lemma wal_frame_at_not_Panic: "off \<le> length wal \<Longrightarrow> wal_frame_at C wal off prev \<noteq> Panic"
  using usize_u32 from_bytes_not_Panic
  by (auto simp: wal_frame_at_def Let_def bindO_Panic_iff usize_checked_add_def slice_def unwrap_u32_def unwrap_array_def split: if_splits)

lemma wal_frame_at_bound: "wal_frame_at C wal off prev = Ok (Frame p h n) \<Longrightarrow> off \<le> length wal \<Longrightarrow> off + n \<le> length wal"
  by (auto simp: wal_frame_at_def Let_def bindO_Ok_iff usize_checked_add_def split: if_splits)

lemma wal_loop_not_Panic: "off \<le> length wal \<Longrightarrow> wal_loop C wal off prev acc \<noteq> Panic"
proof (induction C wal off prev acc rule: wal_loop.induct)
  case (1 C wal off prev acc)
  then show ?case
    using wal_frame_at_not_Panic [OF 1(2)] wal_frame_at_bound [OF _ 1(2)]
    by (subst wal_loop.simps) (auto split: outcome.split scan.split)
qed

lemma recover_not_Panic: "recover_from_bytes C wal \<noteq> Panic"
  by (simp add: recover_from_bytes_def wal_loop_not_Panic)

section \<open>Writing, cutting and continuing a log\<close>

text \<open>Appending packets one after the other; a packet that does not fit is refused and leaves the log as it is.\<close>

fun append_all :: "crypto \<Rightarrow> journal \<Rightarrow> packet list \<Rightarrow> bytes \<times> journal" where
  "append_all C j [] = ([], j)"
| "append_all C j (p # ps) =
     (case encode_append_frame C j p of
        (Ok f, j1) \<Rightarrow> (case append_all C j1 ps of (fs, j2) \<Rightarrow> (f @ fs, j2))
      | (_, j1) \<Rightarrow> append_all C j1 ps)"

definition fits :: "packet \<Rightarrow> bool" where
  "fits p \<longleftrightarrow> length (to_bytes p) < 2 ^ 32"

lemma encode_fits: "fits p \<Longrightarrow> encode_append_frame C j p =
    (Ok (frame C (head_sha256 j) (to_bytes p)),
     \<lparr>head_sha256 = compute_frame_sha256 C (head_sha256 j) (to_bytes p), frames_count = saturating_add (frames_count j) 1\<rparr>)"
  by (simp add: fits_def encode_append_frame_def Let_def u32_try_from_def frame_def)

lemma encode_refuses: "\<not> fits p \<Longrightarrow> encode_append_frame C j p = (Err AadDemasiadoLargo, j)"
  by (simp add: fits_def encode_append_frame_def Let_def u32_try_from_def)

lemma append_all_frames: "append_all C j ps = (w, j') \<Longrightarrow>
    w = frames C (head_sha256 j) (List.filter fits ps) \<and> head_sha256 j' = chain_head C (head_sha256 j) (List.filter fits ps)"
proof (induction ps arbitrary: j w j')
  case Nil
  then show ?case by simp
next
  case (Cons p ps)
  show ?case
  proof (cases "fits p")
    case True
    let ?j = "\<lparr>head_sha256 = compute_frame_sha256 C (head_sha256 j) (to_bytes p), frames_count = saturating_add (frames_count j) 1\<rparr>"
    obtain fs where "append_all C ?j ps = (fs, j')" "w = frame C (head_sha256 j) (to_bytes p) @ fs"
      using Cons.prems encode_fits [OF True, of C j] by (auto split: prod.splits)
    with Cons.IH [of ?j fs j'] True show ?thesis by simp
  next
    case False
    with Cons encode_refuses [OF False, of C j] show ?thesis by simp
  qed
qed

lemma frames_wire_view: "\<forall>p \<in> set ps. wf_packet p \<Longrightarrow> frames C prev (map wire_view ps) = frames C prev ps
    \<and> chain_head C prev (map wire_view ps) = chain_head C prev ps"
  by (induction ps arbitrary: prev) (simp_all add: to_bytes_wire_view)

text \<open>What recovery gives back of a list of packets handed to the log.\<close>

definition logged :: "packet list \<Rightarrow> packet list" where
  "logged ps = map wire_view (List.filter fits ps)"

lemma logged_loggable: "\<forall>p \<in> set ps. wf_packet p \<Longrightarrow> \<forall>p \<in> set (logged ps). loggable p"
  by (auto simp: logged_def loggable_def fits_def wire_view_wf to_bytes_wire_view)

lemma append_all_logged:
  assumes "\<forall>p \<in> set ps. wf_packet p" "append_all C j ps = (w, j')"
  shows "w = frames C (head_sha256 j) (logged ps)" "head_sha256 j' = chain_head C (head_sha256 j) (logged ps)"
  using append_all_frames [OF assms(2)] frames_wire_view [of "List.filter fits ps" C "head_sha256 j"] assms(1)
  by (simp_all add: logged_def)

text \<open>A log cut anywhere is some of its frames and an incomplete one.\<close>

lemma frames_cut:
  assumes "hash_lengths C" "length prev = 32" "\<forall>p \<in> set ps. loggable p" "k \<le> length (frames C prev ps)"
  shows "\<exists>m t. m \<le> length ps \<and> take k (frames C prev ps) = frames C prev (take m ps) @ t \<and> (t = [] \<or> incomplete t)
    \<and> (m < length ps \<longrightarrow> k < length (frames C prev (take (Suc m) ps)))"
  using assms(2-4)
proof (induction ps arbitrary: prev k)
  case Nil
  then show ?case by simp
next
  case (Cons p ps)
  let ?f = "frame C prev (to_bytes p)" and ?h = "compute_frame_sha256 C prev (to_bytes p)"
  show ?case
  proof (cases "k < length ?f")
    case True
    have "take k ?f = [] \<or> incomplete (take k ?f)"
      using frame_cut_incomplete [OF assms(1) Cons.prems(1) _ _ True] Cons.prems(2) by (auto simp: loggable_def)
    with True show ?thesis by (intro exI [of _ 0] exI [of _ "take k ?f"]) simp
  next
    case False
    have "length ?h = 32" "\<forall>p \<in> set ps. loggable p" "k - length ?f \<le> length (frames C ?h ps)"
      using assms(1) Cons.prems by simp_all
    then obtain m t where m: "m \<le> length ps" "take (k - length ?f) (frames C ?h ps) = frames C ?h (take m ps) @ t"
      "t = [] \<or> incomplete t" "m < length ps \<longrightarrow> k - length ?f < length (frames C ?h (take (Suc m) ps))"
      using Cons.IH by blast
    then have "take k (frames C prev (p # ps)) = frames C prev (take (Suc m) (p # ps)) @ t" using False by simp
    moreover have "Suc m < length (p # ps) \<longrightarrow> k < length (frames C prev (take (Suc (Suc m)) (p # ps)))"
      using m(4) False by auto
    ultimately show ?thesis using m(1,3) by (intro exI [of _ "Suc m"] exI [of _ t]) simp
  qed
qed

section \<open>What the chain binds\<close>

definition wal_input :: "bytes \<Rightarrow> bytes \<Rightarrow> bytes" where
  "wal_input prev raw = ascii ''CryptoNugget:WAL:Frame:v1'' @ prev @ u64_to_be (word_of_nat (length raw)) @ raw"

lemma compute_frame_input: "compute_frame_sha256 C prev raw = sha256 C (wal_input prev raw)"
  by (simp add: compute_frame_sha256_def wal_input_def)

lemma wal_input_inject:
  "length prev = 32 \<Longrightarrow> length prev' = 32 \<Longrightarrow> wal_input prev raw = wal_input prev' raw' \<longleftrightarrow> prev = prev' \<and> raw = raw'"
  by (auto simp: wal_input_def be_inject)

text \<open>The strings hashed along a chain.\<close>

fun chain_inputs :: "crypto \<Rightarrow> bytes \<Rightarrow> packet list \<Rightarrow> bytes set" where
  "chain_inputs C prev [] = {}"
| "chain_inputs C prev (p # ps) = insert (wal_input prev (to_bytes p)) (chain_inputs C (compute_frame_sha256 C prev (to_bytes p)) ps)"

lemma chain_inputs_append: "chain_inputs C prev (ps @ qs) = chain_inputs C prev ps \<union> chain_inputs C (chain_head C prev ps) qs"
  by (induction ps arbitrary: prev) auto

lemma chain_head_snoc_eq: "chain_head C prev (ps @ [p]) = sha256 C (wal_input (chain_head C prev ps) (to_bytes p))"
  by (simp add: chain_head_append compute_frame_input)

lemma snoc_hashed: "chain_head C prev (ps @ [p]) \<in> sha256 C ` chain_inputs C prev (ps @ [p])"
  unfolding chain_head_snoc_eq chain_inputs_append by simp

lemma chain_binds:
  assumes "hash_lengths C" "inj_on (sha256 C) (chain_inputs C wal_zero ps \<union> chain_inputs C wal_zero qs)"
    and "wal_zero \<notin> sha256 C ` (chain_inputs C wal_zero ps \<union> chain_inputs C wal_zero qs)"
    and "chain_head C wal_zero ps = chain_head C wal_zero qs"
  shows "map to_bytes ps = map to_bytes qs"
  using assms(2-4)
proof (induction ps arbitrary: qs rule: rev_induct)
  case Nil
  have "qs = []"
  proof (rule ccontr)
    assume "qs \<noteq> []"
    then obtain qs' q where q: "qs = qs' @ [q]" by (metis rev_exhaust)
    have "wal_zero \<in> sha256 C ` chain_inputs C wal_zero qs"
      using snoc_hashed [of C wal_zero qs' q] Nil(3) unfolding q by simp
    with Nil(2) show False by blast
  qed
  then show ?case by simp
next
  case (snoc p ps)
  note inj = snoc.prems(1) and zero = snoc.prems(2) and head = snoc.prems(3)
  have "qs \<noteq> []"
  proof
    assume "qs = []"
    then have "wal_zero \<in> sha256 C ` chain_inputs C wal_zero (ps @ [p])"
      using snoc_hashed [of C wal_zero ps p] head by simp
    with zero show False by blast
  qed
  then obtain qs' q where q: "qs = qs' @ [q]" by (metis rev_exhaust)
  let ?h = "chain_head C wal_zero ps" and ?h' = "chain_head C wal_zero qs'"
  have "wal_input ?h (to_bytes p) \<in> chain_inputs C wal_zero (ps @ [p])" "wal_input ?h' (to_bytes q) \<in> chain_inputs C wal_zero qs"
    by (simp_all add: q chain_inputs_append)
  moreover have "sha256 C (wal_input ?h (to_bytes p)) = sha256 C (wal_input ?h' (to_bytes q))"
    using head unfolding q chain_head_snoc_eq .
  ultimately have "wal_input ?h (to_bytes p) = wal_input ?h' (to_bytes q)" using inj_onD [OF inj] by blast
  then have eq: "?h = ?h'" "to_bytes p = to_bytes q"
    using wal_input_inject [of ?h ?h' "to_bytes p" "to_bytes q"] assms(1) by simp_all
  have "chain_inputs C wal_zero ps \<subseteq> chain_inputs C wal_zero (ps @ [p])" "chain_inputs C wal_zero qs' \<subseteq> chain_inputs C wal_zero qs"
    unfolding q chain_inputs_append by blast+
  then have "map to_bytes ps = map to_bytes qs'"
    using snoc.IH [OF inj_on_subset [OF inj] _ eq(1)] zero by blast
  then show ?case by (simp add: q eq(2))
qed

lemma loggable_parses: "loggable p \<Longrightarrow> from_bytes (to_bytes p) = Ok p"
  using from_bytes_to_bytes unfolding loggable_def by metis

lemma loggable_inject: "loggable p \<Longrightarrow> loggable q \<Longrightarrow> to_bytes p = to_bytes q \<Longrightarrow> p = q"
  using loggable_parses outcome.inject(1) by metis

lemma loggable_map_inject:
  assumes "\<forall>p \<in> set ps. loggable p" "\<forall>p \<in> set qs. loggable p" "map to_bytes ps = map to_bytes qs"
  shows "ps = qs"
  using assms(3)
proof (rule map_inj_on)
  show "inj_on to_bytes (set ps \<union> set qs)" using assms(1,2) loggable_inject by (intro inj_onI) blast
qed

section \<open>A node with its log\<close>

text \<open>
  The composition that the C ABI offers (\<open>cn_mesh_seal_wal_frame\<close>): seal a record and append its
  packet. A record that cannot be sealed or logged leaves no frame.
\<close>

fun log_records :: "crypto \<Rightarrow> mesh_node \<Rightarrow> journal \<Rightarrow> bytes \<Rightarrow> (bytes \<times> u64) list \<Rightarrow> (bytes \<times> bytes) list \<times> mesh_node \<times> journal" where
  "log_records C n j aad [] = ([], n, j)"
| "log_records C n j aad ((pt, now) # rs) =
     (case seal_realtime C n pt aad now of
        (Ok p, n1) \<Rightarrow>
          (case encode_append_frame C j p of
             (Ok f, j1) \<Rightarrow> (case log_records C n1 j1 aad rs of (fs, s) \<Rightarrow> ((pt, f) # fs, s))
           | (_, j1) \<Rightarrow> log_records C n1 j1 aad rs)
      | (_, n1) \<Rightarrow> log_records C n1 j aad rs)"

lemma sealed_packet_loggable:
  assumes "hash_lengths C" "aead_length C" "seal_at C n e s pt aad now = Ok p"
  shows "wf_packet p" "wire_view p = p"
proof -
  obtain ia key nonce ct where p: "derive_packet_crypto C n (m_node_id n) e s now = (key, nonce)"
    "aead_enc C key nonce ia pt = Some ct" "p = v3_packet n aad e s now nonce ct"
    using assms(3) unfolding seal_at_Ok_iff by blast
  have "length nonce = 12" using p(1) assms(1) by (auto simp: derive_packet_crypto_def hash_lengthsD Let_def)
  moreover have "16 \<le> length ct" using aead_lengthD [OF assms(2) p(2)] by simp
  ultimately show "wf_packet p" "wire_view p = p" by (simp_all add: p(3) wf_packet_def wire_view_def)
qed

lemma decrypt_packets_all:
  "list_all2 (\<lambda>pt p. open_persisted_record C b p aad = Ok pt) pts ps \<Longrightarrow> decrypt_packets C b aad ps = Ok pts"
  by (induction pts ps rule: list_all2_induct) simp_all

lemma log_records_frames:
  assumes "hash_lengths C" "aead_length C" "aead_roundtrip C"
    and "log_records C n j aad rs = (fs, n', j')" "same_keys n b"
  shows "\<exists>ps. (\<forall>m. concat (map snd (take m fs)) = frames C (head_sha256 j) (take m ps)) \<and> (\<forall>p \<in> set ps. loggable p)
     \<and> list_all2 (\<lambda>pt p. open_persisted_record C b p aad = Ok pt) (map fst fs) ps"
  using assms(4,5)
proof (induction rs arbitrary: n j fs)
  case Nil
  then show ?case by (intro exI [of _ "[]"]) simp
next
  case (Cons r rs)
  obtain pt now where r: "r = (pt, now)" by (cases r)
  show ?case
  proof (cases rule: seal_realtime_cases [where C = C and n = n and pt = pt and aad = aad and now = now])
    case (sealed p)
    let ?n = "sealed_node C n p" and ?h = "compute_frame_sha256 C (head_sha256 j) (to_bytes p)"
    have keys: "same_keys ?n b" using Cons.prems(2) sealed_node_config [of n C p] by (simp add: same_config_def same_keys_def)
    note wf = sealed_packet_loggable [OF assms(1,2) sealed(2)]
    show ?thesis
    proof (cases "fits p")
      case True
      let ?j = "\<lparr>head_sha256 = ?h, frames_count = saturating_add (frames_count j) 1\<rparr>"
      obtain gs where gs: "log_records C ?n ?j aad rs = (gs, n', j')" "fs = (pt, frame C (head_sha256 j) (to_bytes p)) # gs"
        using Cons.prems(1) by (auto simp: r sealed(1) encode_fits [OF True] split: prod.splits)
      from Cons.IH [OF gs(1) keys] obtain ps where
        ps: "\<And>m. concat (map snd (take m gs)) = frames C ?h (take m ps)" "\<forall>p \<in> set ps. loggable p"
          "list_all2 (\<lambda>pt p. open_persisted_record C b p aad = Ok pt) (map fst gs) ps" by auto
      have "concat (map snd (take m fs)) = frames C (head_sha256 j) (take m (p # ps))" for m
        by (cases m) (simp_all add: gs(2) ps(1))
      moreover have "loggable p" using wf True by (simp add: loggable_def fits_def)
      moreover have "open_persisted_record C b p aad = Ok pt"
        using seal_at_opens [OF assms(3) Cons.prems(2) sealed(2)] seal_at_header [OF sealed(2)] by (simp add: open_persisted_record_def)
      ultimately show ?thesis using ps(2,3) gs(2) by (intro exI [of _ "p # ps"]) simp
    next
      case False
      then have "log_records C ?n j aad rs = (fs, n', j')"
        using Cons.prems(1) by (simp add: r sealed(1) encode_refuses)
      from Cons.IH [OF this keys] show ?thesis .
    qed
  next
    case (failed e)
    let ?n = "n\<lparr>m_tx_seq := m_tx_seq n + 1\<rparr>"
    have "log_records C ?n j aad rs = (fs, n', j')" using Cons.prems(1) by (simp add: r failed(1))
    moreover have "same_keys ?n b" using Cons.prems(2) by (simp add: same_keys_def)
    ultimately show ?thesis using Cons.IH by blast
  qed
qed

text \<open>A frame that does not follow the last one.\<close>

lemma recover_wrong_chain:
  assumes "hash_lengths C" "\<forall>p \<in> set ps. loggable p" "length h = 32" "length (to_bytes q) < 2 ^ 32" "h \<noteq> chain_head C wal_zero ps"
  shows "recover_from_bytes C (frames C wal_zero ps @ frame C h (to_bytes q) @ later) = Err IntegridadContextoCorrupta"
proof -
  let ?f = "frame C h (to_bytes q)" and ?g = "chain_head C wal_zero ps" and ?w = "frames C wal_zero ps"
  let ?wal = "?w @ ?f @ later" and ?n = "length (frames C wal_zero ps)"
  have g: "length ?g = 32" using assms(1) by simp
  note fields = frame_fields [OF assms(1,3,4), of "?f @ later" later, OF refl]
  have d: "drop ?n ?wal = ?f @ later" "?n \<le> length ?wal" "?n < length ?wal" using fields(6) by simp_all
  have "wal_frame_at C ?wal ?n ?g = Err IntegridadContextoCorrupta"
    unfolding frame_at_rest [OF assms(1) g d(2)] d(1) Let_def fields(1,2,6) using fields(3) assms(5) by simp
  then have "wal_loop C ?wal ?n ?g ps = Err IntegridadContextoCorrupta"
    using d(3) by (simp add: wal_loop.simps)
  moreover have "recover_from_bytes C ?wal = wal_loop C ?wal ?n ?g ps"
    using wal_loop_frames [OF assms(1) length_wal_zero assms(2), of 0 ?wal "?f @ later" "[]"] by (simp add: recover_from_bytes_def)
  ultimately show ?thesis by simp
qed

section \<open>Properties\<close>

text \<open>Packets for the witnesses.\<close>

definition wal_packet :: "u64 \<Rightarrow> packet" where
  "wal_packet s = \<lparr>p_version = 3, p_flags = 0, p_node_id = 1, p_epoch = 2, p_sequence = s, p_timestamp_ms = 4,
     p_nonce = replicate 12 5, p_ciphertext = replicate 15 6 @ [ucast s]\<rparr>"

lemma wal_packet_simps [simp]:
  "wf_packet (wal_packet s)" "wire_view (wal_packet s) = wal_packet s" "length (to_bytes (wal_packet s)) = 58"
  "loggable (wal_packet s)" "fits (wal_packet s)"
  by (simp_all add: wal_packet_def wf_packet_def wire_view_def to_bytes_def loggable_def fits_def)

text \<open>
  C4: what a log is. Scanning arbitrary bytes ends without a panic, and succeeds exactly on a chain of
  frames from the zero hash followed by nothing or by a frame cut short; the report has the chain's
  packets, its last hash, the length of the complete frames, and whether there was a rest.
\<close>

theorem wal_scan_exact:
  assumes "hash_lengths C"
  shows "recover_from_bytes C wal \<noteq> Panic \<and> (recover_from_bytes C wal = Ok r \<longleftrightarrow>
    (\<exists>ps t. wal = frames C wal_zero ps @ t \<and> (\<forall>p \<in> set ps. loggable p) \<and> (t = [] \<or> incomplete t)
       \<and> r = \<lparr>r_packets = ps, head_chain_sha256 = chain_head C wal_zero ps,
             valid_bytes_len = length (frames C wal_zero ps), had_truncated_tail = (t \<noteq> [])\<rparr>))"
  using recover_exact [OF assms, of wal r] recover_not_Panic unfolding report_of_def by blast

theorem wal_scan_exact_witness:
  "recover_from_bytes toy (frames toy wal_zero [wal_packet 0, wal_packet 1] @ [67, 78]) =
     Ok \<lparr>r_packets = [wal_packet 0, wal_packet 1], head_chain_sha256 = chain_head toy wal_zero [wal_packet 0, wal_packet 1],
         valid_bytes_len = length (frames toy wal_zero [wal_packet 0, wal_packet 1]), had_truncated_tail = True\<rparr>"
proof -
  have "incomplete [67, 78]" by (simp add: incomplete_def)
  then show ?thesis
    by (intro conjunct2 [OF wal_scan_exact [OF toy_hash_lengths], THEN iffD2]
        exI [of _ "[wal_packet 0, wal_packet 1]"] exI [of _ "[67, 78]"]) simp
qed

text \<open>
  C15: a log survives a cut and goes on. Of a log written by appends and cut after any number of bytes,
  recovery returns every packet whose frame is complete, and, of the whole log, all of them with
  the journal's own head. Truncated to the valid length and continued with a journal from the
  reported head, it recovers to the same packets and the new ones after them.
\<close>

theorem wal_cut_and_continue:
  assumes "hash_lengths C" and "\<forall>p \<in> set ps \<union> set qs. wf_packet p"
    and "append_all C wal_new ps = (w, j)" and "k \<le> length w"
  shows "\<exists>m r. recover_from_bytes C (take k w) = Ok r \<and> r_packets r = take m (logged ps) \<and> m \<le> length (logged ps)
    \<and> valid_bytes_len r \<le> k \<and> (m < length (logged ps) \<longrightarrow> k < length (frames C wal_zero (take (Suc m) (logged ps))))
    \<and> (k = length w \<longrightarrow> m = length (logged ps) \<and> \<not> had_truncated_tail r \<and> head_chain_sha256 r = head_sha256 j)
    \<and> (\<forall>c w2 j2. append_all C (wal_from_head (head_chain_sha256 r) c) qs = (w2, j2) \<longrightarrow>
         (\<exists>r2. recover_from_bytes C (take (valid_bytes_len r) (take k w) @ w2) = Ok r2
           \<and> r_packets r2 = r_packets r @ logged qs \<and> \<not> had_truncated_tail r2))"
proof -
  let ?l = "logged ps"
  have wf: "\<forall>p \<in> set ps. wf_packet p" "\<forall>p \<in> set qs. wf_packet p" using assms(2) by auto
  note lg = logged_loggable [OF wf(1)] and w = append_all_logged [OF wf(1) assms(3)]
  then have w: "w = frames C wal_zero ?l" "head_sha256 j = chain_head C wal_zero ?l" by (simp_all add: wal_new_def)
  from frames_cut [OF assms(1) length_wal_zero lg, of k] assms(4) obtain m t where
    m: "m \<le> length ?l" "take k w = frames C wal_zero (take m ?l) @ t" "t = [] \<or> incomplete t"
      "m < length ?l \<longrightarrow> k < length (frames C wal_zero (take (Suc m) ?l))" by (auto simp: w(1))
  have lm: "\<forall>p \<in> set (take m ?l). loggable p" using lg by (auto dest: in_set_takeD)
  define r where "r = report_of C (take m ?l) (t \<noteq> [])"
  have r: "recover_from_bytes C (take k w) = Ok r" using recover_frames [OF assms(1) lm m(3)] by (simp add: m(2) r_def)
  have "valid_bytes_len r \<le> k"
  proof -
    have "length (take k w) \<le> k" by simp
    then show ?thesis by (simp add: m(2) r_def)
  qed
  moreover have "m = length ?l \<and> \<not> had_truncated_tail r \<and> head_chain_sha256 r = head_sha256 j" if "k = length w"
  proof -
    have "m = length ?l"
    proof (rule ccontr)
      assume "m \<noteq> length ?l"
      then have "length w < length (frames C wal_zero (take (Suc m) ?l))" using m(1,4) that by simp
      moreover have "length (frames C wal_zero (take (Suc m) ?l)) \<le> length w"
        using frames_append [of C wal_zero "take (Suc m) ?l" "drop (Suc m) ?l"] by (simp add: w(1))
      ultimately show False by simp
    qed
    moreover from this have "t = []" using m(2) that by (simp add: w(1))
    ultimately show ?thesis by (simp add: r_def w(2))
  qed
  moreover have "\<exists>r2. recover_from_bytes C (take (valid_bytes_len r) (take k w) @ w2) = Ok r2
           \<and> r_packets r2 = r_packets r @ logged qs \<and> \<not> had_truncated_tail r2"
    if a: "append_all C (wal_from_head (head_chain_sha256 r) c) qs = (w2, j2)" for c w2 j2
  proof -
    have "w2 = frames C (chain_head C wal_zero (take m ?l)) (logged qs)"
      using append_all_logged(1) [OF wf(2) a] by (simp add: wal_from_head_def r_def)
    then have "take (valid_bytes_len r) (take k w) @ w2 = frames C wal_zero (take m ?l @ logged qs) @ []"
      unfolding m(2) by (simp add: r_def frames_append)
    moreover have "\<forall>p \<in> set (take m ?l @ logged qs). loggable p" using lm logged_loggable [OF wf(2)] by auto
    ultimately show ?thesis using recover_frames [OF assms(1), of "take m ?l @ logged qs" "[]"] by (simp add: r_def)
  qed
  moreover have "r_packets r = take m ?l" by (simp add: r_def)
  ultimately show ?thesis using m(1,4) r by (intro exI [of _ m] exI [of _ r]) blast
qed

lemma sample_log:
  "append_all toy wal_new [wal_packet 0, wal_packet 1] =
     (frames toy wal_zero [wal_packet 0, wal_packet 1],
      \<lparr>head_sha256 = chain_head toy wal_zero [wal_packet 0, wal_packet 1], frames_count = 2\<rparr>)"
  "logged [wal_packet 0, wal_packet 1] = [wal_packet 0, wal_packet 1]" "logged [wal_packet 2] = [wal_packet 2]"
  "length (frames toy wal_zero [wal_packet 0]) = 130" "length (frames toy wal_zero [wal_packet 0, wal_packet 1]) = 260"
  by (simp_all add: wal_new_def encode_fits saturating_add_def logged_def length_frame)

theorem wal_cut_and_continue_witness:
  "\<exists>w j r. append_all toy wal_new [wal_packet 0, wal_packet 1] = (w, j) \<and> length w = 260
     \<and> recover_from_bytes toy (take 200 w) = Ok r \<and> r_packets r = [wal_packet 0]"
proof -
  let ?ps = "[wal_packet 0, wal_packet 1]"
  define w where "w = frames toy wal_zero ?ps"
  obtain j where wj: "append_all toy wal_new ?ps = (w, j)" using sample_log(1) unfolding w_def by blast
  have lw: "length w = 260" unfolding w_def by (rule sample_log(5))
  have wf: "\<forall>p \<in> set ?ps \<union> set [wal_packet 2]. wf_packet p" by simp
  from wal_cut_and_continue [OF toy_hash_lengths wf wj, of 200] lw obtain m r where
    r: "recover_from_bytes toy (take 200 w) = Ok r" "r_packets r = take m ?ps" "m \<le> length ?ps"
      "valid_bytes_len r \<le> 200" "m < length ?ps \<longrightarrow> 200 < length (frames toy wal_zero (take (Suc m) ?ps))"
    unfolding sample_log(2) by auto
  have v: "valid_bytes_len r = length (frames toy wal_zero (r_packets r))"
    using recover_exact [OF toy_hash_lengths] r(1) report_of_simps by metis
  have "m \<noteq> 2"
  proof
    assume "m = 2"
    then have "r_packets r = ?ps" using r(2) by simp
    with v r(4) show False unfolding sample_log(5) [symmetric] using sample_log(5) by simp
  qed
  moreover have "m \<noteq> 0"
  proof
    assume "m = 0"
    then have "take (Suc m) ?ps = [wal_packet 0]" "m < length ?ps" by simp_all
    with r(5) sample_log(4) show False by simp
  qed
  moreover have "m \<le> 2" using r(3) by simp
  ultimately have "m = 1" by linarith
  then show ?thesis using wj lw r(1,2) by auto
qed

text \<open>
  C21: the head hash binds the log. If two logs recover with the same head, their packets are equal and so
  are their bytes up to \<open>valid_bytes_len\<close>, that is their complete frames, given that among the strings hashed
  along the two chains there is no collision and none hashes to the zero block. What follows the complete
  frames, a truncated tail, is not covered.
\<close>

theorem wal_head_binds_log:
  assumes "hash_lengths C" and "recover_from_bytes C wal = Ok r" and "recover_from_bytes C wal' = Ok r'"
    and "head_chain_sha256 r = head_chain_sha256 r'"
    and "inj_on (sha256 C) (chain_inputs C wal_zero (r_packets r) \<union> chain_inputs C wal_zero (r_packets r'))"
    and "wal_zero \<notin> sha256 C ` (chain_inputs C wal_zero (r_packets r) \<union> chain_inputs C wal_zero (r_packets r'))"
  shows "r_packets r = r_packets r' \<and> take (valid_bytes_len r) wal = take (valid_bytes_len r') wal'"
proof -
  obtain ps t where a: "wal = frames C wal_zero ps @ t" "\<forall>p \<in> set ps. loggable p" "r = report_of C ps (t \<noteq> [])"
    using assms(2) unfolding recover_exact [OF assms(1)] by blast
  obtain qs u where b: "wal' = frames C wal_zero qs @ u" "\<forall>p \<in> set qs. loggable p" "r' = report_of C qs (u \<noteq> [])"
    using assms(3) unfolding recover_exact [OF assms(1)] by blast
  have "map to_bytes ps = map to_bytes qs"
    using chain_binds [OF assms(1)] assms(4-6) by (simp add: a(3) b(3))
  with a(2) b(2) have "ps = qs" by (rule loggable_map_inject)
  then show ?thesis by (simp add: a(1,3) b(1,3))
qed

theorem wal_head_binds_log_witness:
  "\<exists>r r'. recover_from_bytes toy (frames toy wal_zero [wal_packet 0]) = Ok r
     \<and> recover_from_bytes toy (frames toy wal_zero [wal_packet 0] @ [67]) = Ok r' \<and> r \<noteq> r'
     \<and> take (valid_bytes_len r) (frames toy wal_zero [wal_packet 0]) = take (valid_bytes_len r') (frames toy wal_zero [wal_packet 0] @ [67])"
proof -
  let ?ps = "[wal_packet 0]"
  have r: "recover_from_bytes toy (frames toy wal_zero ?ps) = Ok (report_of toy ?ps False)"
    using recover_frames [OF toy_hash_lengths, of ?ps "[]"] by simp
  have r': "recover_from_bytes toy (frames toy wal_zero ?ps @ [67]) = Ok (report_of toy ?ps True)"
    using recover_frames [OF toy_hash_lengths, of ?ps "[67]"] by (simp add: incomplete_def)
  have z: "sha256 toy (wal_input wal_zero (to_bytes (wal_packet 0))) \<noteq> wal_zero" by code_simp
  have "report_of toy ?ps False \<noteq> report_of toy ?ps True" by (simp add: report_of_def)
  moreover have "take (valid_bytes_len (report_of toy ?ps False)) (frames toy wal_zero ?ps)
      = take (valid_bytes_len (report_of toy ?ps True)) (frames toy wal_zero ?ps @ [67])"
    by (rule conjunct2 [OF wal_head_binds_log [OF toy_hash_lengths r r']]) (use z in auto)
  ultimately show ?thesis using r r' by blast
qed

text \<open>
  But the chain has no key. Of any log that recovers, any selection of its packets, in any order,
  with records left out or repeated, can be chained anew with public data only, and recovers
  without an error or a truncated tail.
\<close>

theorem wal_rechained_log_recovers:
  assumes "hash_lengths C" and "recover_from_bytes C wal = Ok r" and "set qs \<subseteq> set (r_packets r)"
  shows "\<exists>w j r2. append_all C wal_new qs = (w, j) \<and> recover_from_bytes C w = Ok r2
    \<and> r_packets r2 = qs \<and> \<not> had_truncated_tail r2 \<and> head_chain_sha256 r2 = head_sha256 j"
proof -
  have l: "\<forall>p \<in> set qs. loggable p" using assms(2,3) unfolding recover_exact [OF assms(1)] by auto
  then have wf: "\<forall>p \<in> set qs. wf_packet p" and "List.filter fits qs = qs" "map wire_view qs = qs"
    by (auto simp: loggable_def fits_def intro: map_idI)
  then have lg: "logged qs = qs" by (simp add: logged_def)
  obtain w j where w: "append_all C wal_new qs = (w, j)" by fastforce
  from append_all_logged [OF wf w] have "w = frames C wal_zero qs @ []" "head_sha256 j = chain_head C wal_zero qs"
    by (simp_all add: lg wal_new_def)
  with recover_frames [OF assms(1) l, of "[]"] w show ?thesis by simp
qed

theorem wal_rechained_log_recovers_witness:
  "\<exists>w j r2. append_all toy wal_new [wal_packet 1] = (w, j) \<and> recover_from_bytes toy w = Ok r2 \<and> r_packets r2 = [wal_packet 1]"
proof -
  have "recover_from_bytes toy (frames toy wal_zero [wal_packet 0, wal_packet 1]) = Ok (report_of toy [wal_packet 0, wal_packet 1] False)"
    using recover_frames [OF toy_hash_lengths, of "[wal_packet 0, wal_packet 1]" "[]"] by simp
  from wal_rechained_log_recovers [OF toy_hash_lengths this, of "[wal_packet 1]"] show ?thesis by auto
qed

text \<open>
  A damaged length hides the rest of the log. Overwrite the length field of one frame with any
  larger value that reaches beyond the end of the log (one flipped bit is enough): the scan reports
  the frames before it and a truncated tail, no error, although the frames from there on are complete.
\<close>

theorem wal_length_flip_hides_rest:
  assumes "hash_lengths C" and "\<forall>p \<in> set ps \<union> set (p # rest). loggable p"
    and "length (frames C (chain_head C wal_zero ps) (p # rest)) < 72 + unat L"
    and "wal = frames C wal_zero (ps @ p # rest)" and "n = length (frames C wal_zero ps)"
  shows "\<exists>r. recover_from_bytes C (take (n + 4) wal @ u32_to_be L @ drop (n + 8) wal) = Ok r
    \<and> r_packets r = ps \<and> had_truncated_tail r \<and> valid_bytes_len r = n
    \<and> recover_from_bytes C wal = Ok (report_of C (ps @ p # rest) False)"
proof -
  let ?h = "chain_head C wal_zero ps"
  let ?t = "frames C ?h (p # rest)" and ?u = "MAGIC_WAL_FRAME @ u32_to_be L @ drop 8 (frames C ?h (p # rest))"
  have h: "length ?h = 32" using assms(1) by simp
  have lt: "72 \<le> length ?t" using length_frame [OF assms(1) h] by simp
  have magic: "take 4 ?t = MAGIC_WAL_FRAME" by (simp add: frame_def)
  have w: "wal = frames C wal_zero ps @ ?t" by (simp only: assms(4) frames_append)
  have eq: "take (n + 4) wal @ u32_to_be L @ drop (n + 8) wal = frames C wal_zero ps @ ?u"
    unfolding w assms(5) by (simp add: magic [simplified])
  have "incomplete (MAGIC_WAL_FRAME @ u32_to_be L @ drop 8 t)" if "72 \<le> length t" "length t < 72 + unat L" for t
    using that by (simp add: incomplete_def)
  then obtain u where u: "u = ?u" "incomplete u" using lt assms(3) by blast
  then have "u \<noteq> []" by (simp add: incomplete_def)
  moreover have "\<forall>p \<in> set ps. loggable p" "\<forall>q \<in> set (ps @ p # rest). loggable q" using assms(2) by auto
  ultimately have "recover_from_bytes C (frames C wal_zero ps @ u) = Ok (report_of C ps True)"
    "recover_from_bytes C wal = Ok (report_of C (ps @ p # rest) False)"
    using recover_frames [OF assms(1), of ps u] recover_frames [OF assms(1), of "ps @ p # rest" "[]"] u(2)
    by (simp_all add: assms(4) del: frames.simps)
  then show ?thesis unfolding eq u(1) by (simp add: assms(5) del: frames.simps)
qed

theorem wal_length_flip_hides_rest_witness:
  "\<exists>r. recover_from_bytes toy (take (130 + 4) (frames toy wal_zero [wal_packet 0, wal_packet 1, wal_packet 2]) @ u32_to_be (58 + 2 ^ 31)
       @ drop (130 + 8) (frames toy wal_zero [wal_packet 0, wal_packet 1, wal_packet 2])) = Ok r
     \<and> r_packets r = [wal_packet 0] \<and> had_truncated_tail r \<and> valid_bytes_len r = 130"
proof -
  let ?w = "frames toy wal_zero [wal_packet 0, wal_packet 1, wal_packet 2]"
  have "length (frames toy (chain_head toy wal_zero [wal_packet 0]) [wal_packet 1, wal_packet 2]) = 260"
    by (simp add: length_frame)
  then have l: "length (frames toy (chain_head toy wal_zero [wal_packet 0]) [wal_packet 1, wal_packet 2]) < 72 + unat (58 + 2 ^ 31 :: u32)"
    by simp
  have loggable: "\<forall>p \<in> set [wal_packet 0] \<union> set (wal_packet 1 # [wal_packet 2]). loggable p" by simp
  have w: "?w = frames toy wal_zero ([wal_packet 0] @ wal_packet 1 # [wal_packet 2])" by simp
  from wal_length_flip_hides_rest [OF toy_hash_lengths loggable l w sample_log(4) [symmetric]] show ?thesis by blast
qed

text \<open>
  A frame lost on the way to the disk ends the log. The journal moves its head when it encodes a
  frame; if the frame is not written, as when the file cannot be opened, the next frame does not
  follow the file's last one, and from then on recovery returns \<open>IntegridadContextoCorrupta\<close> and none of the
  packets, whatever else is appended.
\<close>

theorem wal_lost_frame_breaks_log:
  assumes "hash_lengths C" and "\<forall>p \<in> set ps. wf_packet p" and "append_all C wal_new ps = (w, j)"
    and "encode_append_frame C j p = (Ok lost, j1)" and "encode_append_frame C j1 q = (Ok f, j2)"
    and "head_sha256 j1 \<noteq> head_sha256 j"
  shows "recover_from_bytes C (w @ f @ later) = Err IntegridadContextoCorrupta"
proof -
  note lg = logged_loggable [OF assms(2)]
  have w: "w = frames C wal_zero (logged ps)" "head_sha256 j = chain_head C wal_zero (logged ps)"
    using append_all_logged [OF assms(2,3)] by (simp_all add: wal_new_def)
  have h: "length (head_sha256 j1) = 32"
    using assms(1,4) by (auto simp: encode_append_frame_def Let_def split: option.splits)
  have f: "f = frame C (head_sha256 j1) (to_bytes q)" "length (to_bytes q) < 2 ^ 32"
    using assms(5) by (auto simp: encode_append_frame_def frame_def Let_def u32_try_from_Some split: option.splits)
  show ?thesis
    unfolding w(1) f(1) by (rule recover_wrong_chain [OF assms(1) lg h f(2)]) (use assms(6) w(2) in simp)
qed

theorem wal_lost_frame_breaks_log_witness:
  "\<exists>w j lost j1 f j2. append_all toy wal_new [wal_packet 0] = (w, j) \<and> encode_append_frame toy j (wal_packet 1) = (Ok lost, j1)
     \<and> encode_append_frame toy j1 (wal_packet 2) = (Ok f, j2)
     \<and> recover_from_bytes toy (w @ f) = Err IntegridadContextoCorrupta"
proof -
  obtain w j where w: "append_all toy wal_new [wal_packet 0] = (w, j)" by fastforce
  obtain lost j1 where l: "encode_append_frame toy j (wal_packet 1) = (Ok lost, j1)"
    "head_sha256 j1 = compute_frame_sha256 toy (head_sha256 j) (to_bytes (wal_packet 1))"
    by (simp add: encode_fits)
  obtain f j2 where f: "encode_append_frame toy j1 (wal_packet 2) = (Ok f, j2)" by (simp add: encode_fits)
  have "head_sha256 j = compute_frame_sha256 toy wal_zero (to_bytes (wal_packet 0))"
    using w by (auto simp: encode_fits wal_new_def)
  moreover have "compute_frame_sha256 toy (compute_frame_sha256 toy wal_zero (to_bytes (wal_packet 0))) (to_bytes (wal_packet 1))
      \<noteq> compute_frame_sha256 toy wal_zero (to_bytes (wal_packet 0))"
    by code_simp
  ultimately have "head_sha256 j1 \<noteq> head_sha256 j" using l(2) by simp
  with wal_lost_frame_breaks_log [OF toy_hash_lengths _ w l(1) f, of "[]"] w l(1) f show ?thesis by auto
qed

text \<open>
  From the node to the disk and back. Records sealed by a node into a new log, some of which may
  fail; the log cut after any number of bytes. A node of the same seed and context, with any identity,
  epoch and clock, decrypts from what recovers exactly the records whose frames are complete, in
  order.
\<close>

theorem wal_records_decrypt:
  assumes "hash_lengths C" and "aead_length C" and "aead_roundtrip C"
    and "log_records C (new_mesh C seed ctx i e d) wal_new aad rs = (fs, n, j)"
    and "k \<le> length (concat (map snd fs))"
  shows "\<exists>r m. recover_from_bytes C (take k (concat (map snd fs))) = Ok r
    \<and> decrypt_recovered_wal C (new_mesh C seed ctx i' e' d') r aad = Ok (take m (map fst fs))
    \<and> (m < length fs \<longrightarrow> k < length (concat (map snd (take (Suc m) fs)))) \<and> m \<le> length fs"
proof -
  obtain ps where ps: "\<And>m. concat (map snd (take m fs)) = frames C wal_zero (take m ps)" "\<forall>p \<in> set ps. loggable p"
    "list_all2 (\<lambda>pt p. open_persisted_record C (new_mesh C seed ctx i' e' d') p aad = Ok pt) (map fst fs) ps"
    using log_records_frames [OF assms(1-4) new_mesh_keys, of i' e' d'] by (auto simp: wal_new_def)
  have len: "length ps = length fs" using list_all2_lengthD [OF ps(3)] by simp
  have all: "concat (map snd fs) = frames C wal_zero ps" using ps(1) [of "length fs"] len by simp
  from frames_cut [OF assms(1) length_wal_zero ps(2), of k] assms(5) obtain m t where
    m: "m \<le> length ps" "take k (frames C wal_zero ps) = frames C wal_zero (take m ps) @ t" "t = [] \<or> incomplete t"
      "m < length ps \<longrightarrow> k < length (frames C wal_zero (take (Suc m) ps))" unfolding all by blast
  have "\<forall>p \<in> set (take m ps). loggable p" using ps(2) by (auto dest: in_set_takeD)
  from recover_frames [OF assms(1) this m(3)] have "recover_from_bytes C (take k (frames C wal_zero ps)) = Ok (report_of C (take m ps) (t \<noteq> []))"
    by (simp add: m(2))
  moreover have "decrypt_recovered_wal C (new_mesh C seed ctx i' e' d') (report_of C (take m ps) (t \<noteq> [])) aad = Ok (take m (map fst fs))"
    unfolding decrypt_recovered_wal_def report_of_simps using list_all2_takeI [OF ps(3)] by (rule decrypt_packets_all)
  ultimately show ?thesis using m(1,4) unfolding all ps(1) len by blast
qed

theorem wal_records_decrypt_witness:
  "\<exists>f n j r. log_records toy (sample_mesh 1 5) wal_new [7] [([104], 50)] = ([([104], f)], n, j)
     \<and> recover_from_bytes toy f = Ok r \<and> decrypt_recovered_wal toy (sample_mesh 2 0) r [7] = Ok [[104]]"
proof -
  have "m_tx_seq (sample_mesh 1 5) \<noteq> - 1" by simp
  then obtain p where p: "seal_realtime toy (sample_mesh 1 5) [104] [7] 50 = (Ok p, sealed_node toy (sample_mesh 1 5) p)"
    "seal_at toy (sample_mesh 1 5) 5 0 [104] [7] 50 = Ok p"
    using toy_seal [of "sample_mesh 1 5" 50] by auto
  note wf = sealed_packet_loggable [OF toy_hash_lengths toy_aead_length p(2)]
  have "length (p_ciphertext p) = 17"
    using p(2) aead_lengthD [OF toy_aead_length] unfolding seal_at_Ok_iff by fastforce
  then have "fits p" using length_to_bytes [OF wf(1)] seal_at_header [OF p(2)] by (simp add: fits_def)
  then have r: "\<exists>f n j. log_records toy (sample_mesh 1 5) wal_new [7] [([104], 50)] = ([([104], f)], n, j)"
    by (simp add: p(1) encode_fits)
  then obtain f n j where f: "log_records toy (sample_mesh 1 5) wal_new [7] [([104], 50)] = ([([104], f)], n, j)" by blast
  from wal_records_decrypt [OF toy_hash_lengths toy_aead_length toy_aead_roundtrip f [unfolded sample_mesh_def], of "length f" 2 0 1000]
  obtain s m where s: "recover_from_bytes toy f = Ok s" "decrypt_recovered_wal toy (sample_mesh 2 0) s [7] = Ok (take m [[104]])"
    "m < 1 \<longrightarrow> length f < length f" "m \<le> 1" by (auto simp: sample_mesh_def)
  then have "m = 1" by linarith
  with f s(1,2) show ?thesis by auto
qed

end
