(* ===== verification/Files.thy ===== *)
theory Files
  imports DualSlot Wal
begin

text \<open>
  The disk operations of \<open>src/persistence.rs\<close>: \<open>DualSlotContainer::save_atomic\<close> and \<open>load_from_file\<close>,
  \<open>ChronoWalJournal::append_to_file\<close> and \<open>recover_from_file\<close>, over a model of what they use of
  \<open>std::fs\<close> and of a power cut.

  A directory maps paths to inodes, an inode has its data and how many of its bytes are known to be
  on the medium. Changes of the directory stay revocable until the directory is synchronized, bytes
  of a file until the file is. Every call first consumes an entry of \<open>faults\<close>: it works, it fails with the
  operating system's message (a write after some of its bytes), or the power is cut in it, with or
  without its effect; after that no call does anything. The faults are universally quantified in the
  theorems, so a cut happens at every point. \<open>survives\<close> is what a path can hold after the power is
  back.
\<close>

section \<open>The file system\<close>

text \<open>A path: its \<open>parent()\<close> (empty for a bare file name) and its \<open>file_name()\<close>.\<close>

record path =
  parent_dir :: string
  file_name :: string

text \<open>\<open>Path::with_extension\<close>: what follows the last dot is replaced, unless the name starts with it.\<close>

definition file_stem :: "string \<Rightarrow> string" where
  "file_stem name = (let rest = dropWhile (\<lambda>c. c \<noteq> CHR ''.'') (rev name)
     in if length rest \<le> 1 then name else rev (tl rest))"

definition with_extension :: "path \<Rightarrow> string \<Rightarrow> path" where
  "with_extension p ext = p\<lparr>file_name := file_stem (file_name p) @ ''.'' @ ext\<rparr>"

record inode =
  f_data :: bytes
  f_safe :: nat

datatype fault = Works | Fails string nat | PowerCut nat

record world =
  dir :: "path \<Rightarrow> nat option"
  past_dirs :: "(path \<Rightarrow> nat option) list"
  inodes :: "nat \<Rightarrow> inode"
  next_ino :: nat
  faults :: "fault list"
  dead :: bool

type_synonym 'a io = "world \<Rightarrow> 'a outcome \<times> world"

definition bindW :: "'a io \<Rightarrow> ('a \<Rightarrow> 'b io) \<Rightarrow> 'b io" where
  "bindW m f w = (case m w of (Ok x, w') \<Rightarrow> f x w' | (Err e, w') \<Rightarrow> (Err e, w') | (Panic, w') \<Rightarrow> (Panic, w'))"

text \<open>
  A call with effect \<open>eff\<close>, what a failure leaves of it (\<open>part\<close>), and what a cut may (\<open>pcut\<close>); the number in
  the fault says how much.
\<close>

definition syscall :: "(world \<Rightarrow> world) \<Rightarrow> (nat \<Rightarrow> world \<Rightarrow> world) \<Rightarrow> (nat \<Rightarrow> world \<Rightarrow> world) \<Rightarrow> unit io" where
  "syscall eff part pcut w =
     (if dead w then (Err (Io []), w)
      else case faults w of
        [] \<Rightarrow> (Ok (), eff w)
      | f # fs \<Rightarrow>
        (let w0 = w\<lparr>faults := fs\<rparr>
         in case f of
              Works \<Rightarrow> (Ok (), eff w0)
            | Fails msg k \<Rightarrow> (Err (Io msg), part k w0)
            | PowerCut k \<Rightarrow> (Err (Io []), (pcut k w0)\<lparr>dead := True\<rparr>)))"

definition atomic :: "(world \<Rightarrow> world) \<Rightarrow> nat \<Rightarrow> world \<Rightarrow> world" where
  "atomic eff k w = (if k = 0 then w else eff w)"

definition set_dir :: "(path \<Rightarrow> nat option) \<Rightarrow> world \<Rightarrow> world" where
  "set_dir D w = w\<lparr>dir := D, past_dirs := dir w # past_dirs w\<rparr>"

definition set_file :: "nat \<Rightarrow> inode \<Rightarrow> world \<Rightarrow> world" where
  "set_file i f w = w\<lparr>inodes := (inodes w)(i := f)\<rparr>"

text \<open>\<open>OpenOptions\<close> with \<open>create(true)\<close>, and \<open>truncate(true)\<close> or \<open>append(true)\<close>.\<close>

definition eff_open :: "bool \<Rightarrow> path \<Rightarrow> world \<Rightarrow> world" where
  "eff_open trunc p w =
     (case dir w p of
        Some i \<Rightarrow> if trunc then set_file i \<lparr>f_data = [], f_safe = 0\<rparr> w else w
      | None \<Rightarrow> (set_file (next_ino w) \<lparr>f_data = [], f_safe = 0\<rparr> (set_dir ((dir w)(p \<mapsto> next_ino w)) w))\<lparr>next_ino := Suc (next_ino w)\<rparr>)"

definition open_create :: "bool \<Rightarrow> path \<Rightarrow> nat io" where
  "open_create trunc p =
     bindW (syscall (eff_open trunc p) (\<lambda>k w. w) (atomic (eff_open trunc p)))
       (\<lambda>_ w. (Ok (the (dir w p)), w))"

definition eff_write :: "nat \<Rightarrow> bytes \<Rightarrow> world \<Rightarrow> world" where
  "eff_write i bs w = set_file i ((inodes w i)\<lparr>f_data := f_data (inodes w i) @ bs\<rparr>) w"

definition write_all :: "nat \<Rightarrow> bytes \<Rightarrow> unit io" where
  "write_all i bs = syscall (eff_write i bs) (\<lambda>k. eff_write i (take k bs)) (\<lambda>k. eff_write i (take k bs))"

definition eff_sync :: "nat \<Rightarrow> world \<Rightarrow> world" where
  "eff_sync i w = set_file i ((inodes w i)\<lparr>f_safe := length (f_data (inodes w i))\<rparr>) w"

definition sync_file :: "nat \<Rightarrow> unit io" where
  "sync_file i = syscall (eff_sync i) (\<lambda>k w. w) (atomic (eff_sync i))"

definition eff_set_len :: "nat \<Rightarrow> nat \<Rightarrow> world \<Rightarrow> world" where
  "eff_set_len i n w =
     (let f = inodes w i
      in set_file i \<lparr>f_data = take n (f_data f) @ replicate (n - length (f_data f)) 0, f_safe = min n (f_safe f)\<rparr> w)"

definition set_len :: "nat \<Rightarrow> nat \<Rightarrow> unit io" where
  "set_len i n = syscall (eff_set_len i n) (\<lambda>k w. w) (atomic (eff_set_len i n))"

definition eff_rename :: "path \<Rightarrow> path \<Rightarrow> world \<Rightarrow> world" where
  "eff_rename p q w = set_dir ((dir w)(p := None, q := dir w p)) w"

definition rename :: "path \<Rightarrow> path \<Rightarrow> unit io" where
  "rename p q = syscall (eff_rename p q) (\<lambda>k w. w) (atomic (eff_rename p q))"

definition eff_remove :: "path \<Rightarrow> world \<Rightarrow> world" where
  "eff_remove p w = set_dir ((dir w)(p := None)) w"

definition remove_file :: "path \<Rightarrow> unit io" where
  "remove_file p = syscall (eff_remove p) (\<lambda>k w. w) (atomic (eff_remove p))"

text \<open>
  \<open>File::open(parent)\<close> and \<open>dir.sync_all()\<close>, whose failures the code ignores. Opening the empty path that
  \<open>parent()\<close> gives for a bare file name always fails.
\<close>

definition eff_sync_dir :: "world \<Rightarrow> world" where
  "eff_sync_dir w = w\<lparr>past_dirs := []\<rparr>"

definition sync_parent :: "path \<Rightarrow> world \<Rightarrow> world" where
  "sync_parent p w =
     (if parent_dir p = [] then w
      else snd (bindW (syscall (\<lambda>w. w) (\<lambda>k w. w) (\<lambda>k w. w)) (\<lambda>_. syscall eff_sync_dir (\<lambda>k w. w) (atomic eff_sync_dir)) w))"

definition not_found :: error where
  "not_found = Io ''No such file or directory (os error 2)''"

text \<open>\<open>fs::read\<close>, \<open>path.exists()\<close> (false also when the file cannot be examined), opening without \<open>create\<close>.\<close>

definition content :: "world \<Rightarrow> path \<Rightarrow> bytes option" where
  "content w p = map_option (\<lambda>i. f_data (inodes w i)) (dir w p)"

definition read_file :: "path \<Rightarrow> bytes io" where
  "read_file p = bindW (syscall (\<lambda>w. w) (\<lambda>k w. w) (\<lambda>k w. w)) (\<lambda>_ w. (ok_or not_found (content w p), w))"

definition path_exists :: "path \<Rightarrow> world \<Rightarrow> bool \<times> world" where
  "path_exists p w = (case syscall (\<lambda>w. w) (\<lambda>k w. w) (\<lambda>k w. w) w of (r, w') \<Rightarrow> (is_ok r \<and> dir w' p \<noteq> None, w'))"

definition open_write :: "path \<Rightarrow> nat io" where
  "open_write p = bindW (syscall (\<lambda>w. w) (\<lambda>k w. w) (\<lambda>k w. w)) (\<lambda>_ w. (ok_or not_found (dir w p), w))"

text \<open>
  What a path can hold after the power comes back: under one of the directories not yet superseded on
  the medium, the safe bytes of the inode and what \<open>tear\<close> leaves of the others.
\<close>

definition after_cut :: "(bytes \<Rightarrow> bytes \<Rightarrow> bool) \<Rightarrow> inode \<Rightarrow> bytes set" where
  "after_cut tear f = {take (f_safe f) (f_data f) @ x |x. tear (drop (f_safe f) (f_data f)) x}"

fun possible :: "(bytes \<Rightarrow> bytes \<Rightarrow> bool) \<Rightarrow> (nat \<Rightarrow> inode) \<Rightarrow> nat option \<Rightarrow> bytes option set" where
  "possible tear ino None = {None}"
| "possible tear ino (Some i) = Some ` after_cut tear (ino i)"

definition survives :: "(bytes \<Rightarrow> bytes \<Rightarrow> bool) \<Rightarrow> world \<Rightarrow> path \<Rightarrow> bytes option set" where
  "survives tear w p = (\<Union>D \<in> set (dir w # past_dirs w). possible tear (inodes w) (D p))"

text \<open>Any bytes at all, no more than were written, or a beginning of what was written.\<close>

definition any_tear :: "bytes \<Rightarrow> bytes \<Rightarrow> bool" where "any_tear b x \<longleftrightarrow> length x \<le> length b"
definition cut_tear :: "bytes \<Rightarrow> bytes \<Rightarrow> bool" where "cut_tear b x \<longleftrightarrow> (\<exists>k. x = take k b)"

section \<open>The operations of the code\<close>

definition save_atomic :: "string \<Rightarrow> dual_slot \<Rightarrow> path \<Rightarrow> unit io" where
  "save_atomic pid d path w =
     (case dual_to_bytes d of
        Err e \<Rightarrow> (Err e, w)
      | Panic \<Rightarrow> (Panic, w)
      | Ok bs \<Rightarrow>
        (let tmp_path = with_extension path (''tmp.'' @ pid)
         in bindW (open_create True tmp_path) (\<lambda>file.
            bindW (write_all file bs) (\<lambda>_.
            bindW (sync_file file) (\<lambda>_ w3.
              case rename tmp_path path w3 of
                (Ok _, w4) \<Rightarrow> (Ok (), sync_parent path w4)
              | (r, w4) \<Rightarrow> (r, snd (remove_file tmp_path w4))))) w))"

definition load_from_file :: "path \<Rightarrow> dual_slot io" where
  "load_from_file path = bindW (read_file path) (\<lambda>bs w. (dual_from_bytes bs, w))"

definition append_to_file :: "crypto \<Rightarrow> journal \<Rightarrow> path \<Rightarrow> packet \<Rightarrow> world \<Rightarrow> (unit outcome \<times> journal) \<times> world" where
  "append_to_file C j path packet w =
     (case encode_append_frame C j packet of
        (Ok fr, j') \<Rightarrow>
          (case bindW (open_create False path) (\<lambda>file.
                bindW (write_all file fr) (\<lambda>_.
                bindW (sync_file file) (\<lambda>_ w. (Ok (), w)))) w of
             (r, w') \<Rightarrow> ((r, j'), w'))
      | (Err e, j') \<Rightarrow> ((Err e, j'), w)
      | (Panic, j') \<Rightarrow> ((Panic, j'), w))"

definition recover_from_file :: "crypto \<Rightarrow> path \<Rightarrow> (journal \<times> wal_report) io" where
  "recover_from_file C path w =
     (case path_exists path w of
        (False, w1) \<Rightarrow> (Ok (wal_new, \<lparr>r_packets = [], head_chain_sha256 = wal_zero, valid_bytes_len = 0, had_truncated_tail = False\<rparr>), w1)
      | (True, w1) \<Rightarrow>
        bindW (read_file path) (\<lambda>bs w2.
          bindW (\<lambda>w. (recover_from_bytes C bs, w)) (\<lambda>report.
          bindW (if had_truncated_tail report then
                   bindW (open_write path) (\<lambda>file.
                   bindW (set_len file (valid_bytes_len report)) (\<lambda>_.
                   sync_file file))
                 else (\<lambda>w. (Ok (), w))) (\<lambda>_ w.
            (Ok (wal_from_head (head_chain_sha256 report) (word_of_nat (length (r_packets report))), report), w))) w2) w1)"

section \<open>A small Hoare logic for the calls\<close>

text \<open>
  \<open>runs P m Q R\<close>: started in \<open>P\<close>, \<open>m\<close> ends with a value in \<open>Q\<close> or with an error (of the system, or the cut)
  in \<open>R\<close>. Assertions about the disk do not depend on the remaining faults.
\<close>

definition runs :: "(world \<Rightarrow> bool) \<Rightarrow> 'a io \<Rightarrow> ('a \<Rightarrow> world \<Rightarrow> bool) \<Rightarrow> (world \<Rightarrow> bool) \<Rightarrow> bool" where
  "runs P m Q R \<longleftrightarrow> (\<forall>w. P w \<longrightarrow> (case m w of (Ok x, w') \<Rightarrow> Q x w' | (Err e, w') \<Rightarrow> R w' | (Panic, w') \<Rightarrow> False))"

definition on_disk :: "(world \<Rightarrow> bool) \<Rightarrow> bool" where
  "on_disk P \<longleftrightarrow> (\<forall>w fs b. P (w\<lparr>faults := fs\<rparr>) = P w \<and> P (w\<lparr>dead := b\<rparr>) = P w)"

lemma runs_bind: "runs P m Q R \<Longrightarrow> (\<And>x. runs (Q x) (f x) Q' R) \<Longrightarrow> runs P (bindW m f) Q' R"
  unfolding runs_def bindW_def by (fastforce split: outcome.splits prod.splits)

lemma runs_pure: "(\<And>w. P w \<Longrightarrow> Q x w) \<Longrightarrow> runs P (\<lambda>w. (Ok x, w)) Q R"
  by (simp add: runs_def)

lemma runs_weaken: "runs P m Q R \<Longrightarrow> (\<And>w. R w \<Longrightarrow> R' w) \<Longrightarrow> runs P m Q R'"
  unfolding runs_def by (fastforce split: outcome.splits prod.splits)

lemma runs_syscall:
  assumes "on_disk P" "on_disk R" "\<And>w. P w \<Longrightarrow> Q () (eff w)" "\<And>w k. P w \<Longrightarrow> R (part k w)" "\<And>w k. P w \<Longrightarrow> R (pcut k w)" "\<And>w. P w \<Longrightarrow> R w"
  shows "runs P (syscall eff part pcut) Q R"
proof -
  have "case syscall eff part pcut w of (Ok x, w') \<Rightarrow> Q x w' | (Err e, w') \<Rightarrow> R w' | (Panic, w') \<Rightarrow> False" if "P w" for w
  proof (cases "dead w \<or> faults w = []")
    case True
    then show ?thesis using assms(3,6) that by (auto simp: syscall_def)
  next
    case False
    then obtain f fs where f: "faults w = f # fs" by (cases "faults w") auto
    have "P (w\<lparr>faults := fs\<rparr>)" using assms(1) that by (simp add: on_disk_def)
    then show ?thesis using False f assms(2-6) by (cases f) (simp_all add: syscall_def on_disk_def)
  qed
  then show ?thesis by (simp add: runs_def)
qed

lemma runs_either: "runs P m (\<lambda>_. R) R \<Longrightarrow> P w \<Longrightarrow> R (snd (m w))"
  unfolding runs_def by (cases "m w"; cases "fst (m w)") fastforce+

lemma runs_atomic:
  assumes "on_disk P" "on_disk R" "\<And>w. P w \<Longrightarrow> Q () (eff w)" "\<And>w. P w \<Longrightarrow> R w" "\<And>w. P w \<Longrightarrow> R (eff w)"
  shows "runs P (syscall eff (\<lambda>k w. w) (atomic eff)) Q R"
  using assms(1,2) by (rule runs_syscall) (use assms(3-5) in \<open>simp_all add: atomic_def\<close>)

lemma runs_idle:
  assumes "on_disk P" "on_disk R" "\<And>w. P w \<Longrightarrow> Q () w" "\<And>w. P w \<Longrightarrow> R w"
  shows "runs P (syscall (\<lambda>w. w) (\<lambda>k w. w) (\<lambda>k w. w)) Q R"
  using assms(1,2) by (rule runs_syscall) (use assms(3,4) in simp_all)

lemma survives_on_disk [simp]:
  "survives tear (w\<lparr>faults := fs\<rparr>) p = survives tear w p" "survives tear (w\<lparr>dead := b\<rparr>) p = survives tear w p"
  "survives tear (w\<lparr>next_ino := k\<rparr>) p = survives tear w p"
  by (simp_all add: survives_def)

text \<open>An inode that no directory, current or possible after a cut, has under the path.\<close>

definition hidden :: "nat \<Rightarrow> path \<Rightarrow> world \<Rightarrow> bool" where
  "hidden i p w \<longleftrightarrow> (\<forall>D \<in> set (dir w # past_dirs w). D p \<noteq> Some i)"

lemma hidden_on_disk [simp]:
  "hidden i p (w\<lparr>faults := fs\<rparr>) = hidden i p w" "hidden i p (w\<lparr>dead := b\<rparr>) = hidden i p w"
  "hidden i p (w\<lparr>next_ino := k\<rparr>) = hidden i p w" "hidden i p (set_file j f w) = hidden i p w"
  by (simp_all add: hidden_def set_file_def)

lemma survives_hidden: "hidden i p w \<Longrightarrow> survives tear (set_file i f w) p = survives tear w p"
proof -
  assume "hidden i p w"
  then have "possible tear (inodes (set_file i f w)) (D p) = possible tear (inodes w) (D p)"
    if "D \<in> set (dir w # past_dirs w)" for D
    using that by (cases "D p") (auto simp: hidden_def set_file_def)
  then show ?thesis by (simp add: survives_def set_file_def)
qed

lemma survives_set_dir: "D p = dir w p \<Longrightarrow> survives tear (set_dir D w) p = survives tear w p"
  by (auto simp: survives_def set_dir_def)

lemma hidden_set_dir: "hidden i p (set_dir D w) \<longleftrightarrow> D p \<noteq> Some i \<and> hidden i p w"
  by (simp add: hidden_def set_dir_def)

section \<open>Saving the container\<close>

lemma tmp_differs: "CHR ''.'' \<notin> set pid \<Longrightarrow> with_extension p (''tmp.'' @ pid) \<noteq> p"
proof
  assume d: "CHR ''.'' \<notin> set pid" and "with_extension p (''tmp.'' @ pid) = p"
  then have "file_name (with_extension p (''tmp.'' @ pid)) = file_name p" by simp
  then have n: "file_stem (file_name p) @ ''.tmp.'' @ pid = file_name p" by (simp add: with_extension_def)
  let ?s = "file_stem (file_name p)"
  have "dropWhile (\<lambda>c. c \<noteq> CHR ''.'') (rev pid @ x) = dropWhile (\<lambda>c. c \<noteq> CHR ''.'') x" for x
    using d by (intro dropWhile_append2) auto
  then have "file_stem (?s @ ''.tmp.'' @ pid) = ?s @ ''.tmp''"
    by (simp add: file_stem_def Let_def)
  with n show False by (metis append_self_conv list.distinct(1))
qed

text \<open>
  The temporary file is not the destination under another name, and inode numbers not yet used are
  not in use: what every run that starts in an empty directory keeps.
\<close>

definition ready :: "path \<Rightarrow> path \<Rightarrow> world \<Rightarrow> bool" where
  "ready tmp p w \<longleftrightarrow> (\<forall>i. dir w tmp = Some i \<longrightarrow> hidden i p w) \<and> (\<forall>k \<ge> next_ino w. hidden k p w)"

lemma ready_on_disk [simp]:
  "ready tmp p (w\<lparr>faults := fs\<rparr>) = ready tmp p w" "ready tmp p (w\<lparr>dead := b\<rparr>) = ready tmp p w"
  "ready tmp p (set_file j f w) = ready tmp p w"
  by (simp_all add: ready_def) (simp_all add: set_file_def)

definition holds_only :: "path \<Rightarrow> bytes option set \<Rightarrow> path \<Rightarrow> nat \<Rightarrow> inode \<Rightarrow> world \<Rightarrow> bool" where
  "holds_only p S tmp n f w \<longleftrightarrow> survives any_tear w p \<subseteq> S \<and> ready tmp p w \<and> dir w tmp = Some n \<and> hidden n p w
     \<and> n < next_ino w \<and> inodes w n = f"

lemma holds_only_on_disk: "on_disk (holds_only p S tmp n f)"
  by (simp add: on_disk_def holds_only_def)

lemma open_tmp:
  assumes "tmp \<noteq> p" "survives any_tear w p \<subseteq> S" "ready tmp p w" "\<forall>i. dir w tmp = Some i \<longrightarrow> i < next_ino w"
  shows "\<exists>n. holds_only p S tmp n \<lparr>f_data = [], f_safe = 0\<rparr> (eff_open True tmp w)"
proof (cases "dir w tmp")
  case None
  let ?n = "next_ino w" and ?D = "(dir w)(tmp \<mapsto> next_ino w)"
  let ?f = "\<lparr>f_data = [], f_safe = 0\<rparr>"
  have h: "hidden k p (set_dir ?D w)" if "?n \<le> k" for k
  proof -
    have "hidden k p w" using that assms(3) by (simp add: ready_def)
    then show ?thesis using assms(1) unfolding hidden_set_dir by (simp add: hidden_def)
  qed
  have e: "eff_open True tmp w = (set_file ?n ?f (set_dir ?D w))\<lparr>next_ino := Suc ?n\<rparr>"
    by (simp add: eff_open_def None)
  have "survives any_tear (eff_open True tmp w) p = survives any_tear w p"
    using assms(1) h [of ?n] by (simp add: e survives_hidden survives_set_dir)
  moreover have "ready tmp p (eff_open True tmp w)"
    using h by (simp add: e ready_def) (simp add: set_file_def set_dir_def)
  moreover have "dir (eff_open True tmp w) tmp = Some ?n" "next_ino (eff_open True tmp w) = Suc ?n" "inodes (eff_open True tmp w) ?n = ?f"
    by (simp_all add: e set_file_def set_dir_def)
  moreover have "hidden ?n p (eff_open True tmp w)" using h [of ?n] by (simp add: e)
  ultimately show ?thesis using assms(2) by (intro exI [of _ ?n]) (simp add: holds_only_def)
next
  case (Some i)
  let ?f = "\<lparr>f_data = [], f_safe = 0\<rparr>"
  have e: "eff_open True tmp w = set_file i ?f w" by (simp add: eff_open_def Some)
  have h: "hidden i p w" using assms(3) Some by (simp add: ready_def)
  have "dir (set_file i ?f w) tmp = Some i" "next_ino (set_file i ?f w) = next_ino w" "inodes (set_file i ?f w) i = ?f"
    by (simp_all add: set_file_def Some)
  then show ?thesis using assms Some h by (intro exI [of _ i]) (simp add: e holds_only_def survives_hidden)
qed

lemma holds_only_set_file: "holds_only p S tmp n f w \<Longrightarrow> holds_only p S tmp n g (set_file n g w)"
  by (simp add: holds_only_def survives_hidden) (simp add: set_file_def)

definition saving :: "path \<Rightarrow> bytes option set \<Rightarrow> path \<Rightarrow> world \<Rightarrow> bool" where
  "saving p S tmp w \<longleftrightarrow> survives any_tear w p \<subseteq> S \<and> ready tmp p w \<and> (\<forall>i. dir w tmp = Some i \<longrightarrow> i < next_ino w)"

lemma saving_on_disk: "on_disk (saving p S tmp)"
  by (simp add: on_disk_def saving_def)

lemma holds_only_saving: "holds_only p S tmp n f w \<Longrightarrow> saving p S tmp w"
  by (simp add: holds_only_def saving_def)

lemma saving_mono: "saving p S tmp w \<Longrightarrow> S \<subseteq> S' \<Longrightarrow> saving p S' tmp w"
  by (auto simp: saving_def)

text \<open>After the rename the path has the new bytes, synchronized; a cut may still undo it.\<close>

definition saved :: "path \<Rightarrow> bytes option set \<Rightarrow> path \<Rightarrow> bytes \<Rightarrow> world \<Rightarrow> bool" where
  "saved p S tmp bs w \<longleftrightarrow> saving p (insert (Some bs) S) tmp w
     \<and> (\<exists>n. dir w p = Some n \<and> inodes w n = \<lparr>f_data = bs, f_safe = length bs\<rparr>)"

lemma saved_on_disk: "on_disk (saved p S tmp bs)"
  using saving_on_disk by (simp add: on_disk_def saved_def)

lemma after_cut_synced: "after_cut any_tear \<lparr>f_data = bs, f_safe = length bs\<rparr> = {bs}"
  by (auto simp: after_cut_def any_tear_def)

lemma rename_saved:
  assumes "tmp \<noteq> p" "holds_only p S tmp n \<lparr>f_data = bs, f_safe = length bs\<rparr> w"
  shows "saved p S tmp bs (eff_rename tmp p w)"
proof -
  let ?w = "eff_rename tmp p w"
  note a = assms(2) [unfolded holds_only_def]
  have d: "dir ?w p = Some n" "dir ?w tmp = None" "past_dirs ?w = dir w # past_dirs w" "inodes ?w = inodes w" "next_ino ?w = next_ino w"
    using a assms(1) by (simp_all add: eff_rename_def set_dir_def)
  have "survives any_tear ?w p = insert (Some bs) (survives any_tear w p)"
    using a after_cut_synced by (simp add: survives_def d)
  moreover have "hidden k p ?w" if "next_ino w \<le> k" for k
    using a that by (simp add: hidden_def d ready_def)
  ultimately show ?thesis using a d by (auto simp: saved_def saving_def ready_def)
qed

lemma runs_open_tmp:
  assumes "tmp \<noteq> p"
  shows "runs (saving p S tmp) (open_create True tmp) (\<lambda>n. holds_only p S tmp n \<lparr>f_data = [], f_safe = 0\<rparr>) (saving p S tmp)"
  unfolding open_create_def
proof (rule runs_bind [where Q = "\<lambda>_ w. \<exists>n. holds_only p S tmp n \<lparr>f_data = [], f_safe = 0\<rparr> w"])
  have o: "\<exists>n. holds_only p S tmp n \<lparr>f_data = [], f_safe = 0\<rparr> (eff_open True tmp w)" if "saving p S tmp w" for w
    using open_tmp [OF assms] that by (simp add: saving_def)
  show "runs (saving p S tmp) (syscall (eff_open True tmp) (\<lambda>k w. w) (atomic (eff_open True tmp)))
      (\<lambda>_ w. \<exists>n. holds_only p S tmp n \<lparr>f_data = [], f_safe = 0\<rparr> w) (saving p S tmp)"
    by (rule runs_atomic [OF saving_on_disk saving_on_disk]) (use o holds_only_saving in blast)+
  show "runs (\<lambda>w. \<exists>n. holds_only p S tmp n \<lparr>f_data = [], f_safe = 0\<rparr> w) (\<lambda>w. (Ok (the (dir w tmp)), w))
      (\<lambda>n. holds_only p S tmp n \<lparr>f_data = [], f_safe = 0\<rparr>) (saving p S tmp)"
    by (auto simp: runs_def holds_only_def)
qed

lemma runs_write_tmp:
  "runs (holds_only p S tmp n \<lparr>f_data = [], f_safe = 0\<rparr>) (write_all n bs)
     (\<lambda>_. holds_only p S tmp n \<lparr>f_data = bs, f_safe = 0\<rparr>) (saving p S tmp)"
proof -
  have e: "holds_only p S tmp n \<lparr>f_data = xs, f_safe = 0\<rparr> (eff_write n xs w)"
    if "holds_only p S tmp n \<lparr>f_data = [], f_safe = 0\<rparr> w" for w xs
  proof -
    have "inodes w n = \<lparr>f_data = [], f_safe = 0\<rparr>" using that by (simp add: holds_only_def)
    then have "eff_write n xs w = set_file n \<lparr>f_data = xs, f_safe = 0\<rparr> w" by (simp add: eff_write_def)
    then show ?thesis using holds_only_set_file [OF that] by simp
  qed
  show ?thesis
    unfolding write_all_def
    by (rule runs_syscall [OF holds_only_on_disk saving_on_disk]) (use e holds_only_saving in blast)+
qed

lemma runs_sync_tmp:
  "runs (holds_only p S tmp n \<lparr>f_data = bs, f_safe = 0\<rparr>) (sync_file n)
     (\<lambda>_. holds_only p S tmp n \<lparr>f_data = bs, f_safe = length bs\<rparr>) (saving p S tmp)"
proof -
  have e: "holds_only p S tmp n \<lparr>f_data = bs, f_safe = length bs\<rparr> (eff_sync n w)"
    if "holds_only p S tmp n \<lparr>f_data = bs, f_safe = 0\<rparr> w" for w
  proof -
    have "inodes w n = \<lparr>f_data = bs, f_safe = 0\<rparr>" using that by (simp add: holds_only_def)
    then have "eff_sync n w = set_file n \<lparr>f_data = bs, f_safe = length bs\<rparr> w" by (simp add: eff_sync_def)
    then show ?thesis using holds_only_set_file [OF that] by simp
  qed
  show ?thesis
    unfolding sync_file_def
    by (rule runs_atomic [OF holds_only_on_disk saving_on_disk]) (use e holds_only_saving in blast)+
qed

lemma runs_rename_tmp:
  assumes "tmp \<noteq> p"
  shows "runs (holds_only p S tmp n \<lparr>f_data = bs, f_safe = length bs\<rparr>) (rename tmp p)
     (\<lambda>_. saved p S tmp bs) (saving p (insert (Some bs) S) tmp)"
proof -
  have e: "saved p S tmp bs (eff_rename tmp p w)" if "holds_only p S tmp n \<lparr>f_data = bs, f_safe = length bs\<rparr> w" for w
    by (rule rename_saved [OF assms that])
  have s: "saving p (insert (Some bs) S) tmp w" if "holds_only p S tmp n \<lparr>f_data = bs, f_safe = length bs\<rparr> w" for w
    using saving_mono [OF holds_only_saving [OF that]] by blast
  have "saving p (insert (Some bs) S) tmp w" if "saved p S tmp bs w" for w using that by (simp add: saved_def)
  then show ?thesis
    unfolding rename_def
    by (intro runs_atomic [OF holds_only_on_disk saving_on_disk]) (use e s in blast)+
qed

lemma remove_saving:
  assumes "tmp \<noteq> p" "saving p S tmp w"
  shows "saving p S tmp (snd (remove_file tmp w))"
proof -
  have e: "saving p S tmp (eff_remove tmp w)" if "saving p S tmp w" for w
  proof -
    have "survives any_tear (eff_remove tmp w) p = survives any_tear w p" "\<And>k. hidden k p w \<Longrightarrow> hidden k p (eff_remove tmp w)"
      using assms(1) by (auto simp: eff_remove_def survives_set_dir hidden_set_dir) (simp add: hidden_def)
    moreover have "dir (eff_remove tmp w) tmp = None" "next_ino (eff_remove tmp w) = next_ino w"
      by (simp_all add: eff_remove_def set_dir_def)
    ultimately show ?thesis using that by (simp add: saving_def ready_def)
  qed
  have "runs (saving p S tmp) (remove_file tmp) (\<lambda>_. saving p S tmp) (saving p S tmp)"
    unfolding remove_file_def by (rule runs_atomic [OF saving_on_disk saving_on_disk]) (use e in blast)+
  then show ?thesis using assms(2) by (rule runs_either)
qed

text \<open>Synchronizing the directory only takes away what a cut could undo.\<close>

lemma sync_dir_saved: "saved p S tmp bs w \<Longrightarrow> saved p S tmp bs (eff_sync_dir w)"
  by (auto simp: saved_def saving_def survives_def ready_def hidden_def eff_sync_dir_def)

lemma sync_parent_saved:
  assumes "saved p S tmp bs w"
  shows "saved p S tmp bs (sync_parent q w)"
proof -
  have "runs (saved p S tmp bs) (syscall (\<lambda>w. w) (\<lambda>k w. w) (\<lambda>k w. w)) (\<lambda>_. saved p S tmp bs) (saved p S tmp bs)"
    by (rule runs_idle [OF saved_on_disk saved_on_disk])
  moreover have "runs (saved p S tmp bs) (syscall eff_sync_dir (\<lambda>k w. w) (atomic eff_sync_dir)) (\<lambda>_. saved p S tmp bs) (saved p S tmp bs)"
    by (rule runs_atomic [OF saved_on_disk saved_on_disk]) (use sync_dir_saved in blast)+
  ultimately have "runs (saved p S tmp bs) (bindW (syscall (\<lambda>w. w) (\<lambda>k w. w) (\<lambda>k w. w)) (\<lambda>_. syscall eff_sync_dir (\<lambda>k w. w) (atomic eff_sync_dir)))
      (\<lambda>_. saved p S tmp bs) (saved p S tmp bs)" by (rule runs_bind)
  from runs_either [OF this assms] assms show ?thesis by (simp add: sync_parent_def)
qed

lemma runs_save_atomic:
  assumes "tmp = with_extension p (''tmp.'' @ pid)" "tmp \<noteq> p" "dual_to_bytes d = Ok bs"
  shows "runs (saving p S tmp) (save_atomic pid d p) (\<lambda>_. saved p S tmp bs) (saving p (insert (Some bs) S) tmp)"
proof -
  let ?R = "saving p (insert (Some bs) S) tmp"
  have weak: "saving p S tmp w \<Longrightarrow> ?R w" for w by (rule saving_mono) auto
  have last: "runs (holds_only p S tmp n \<lparr>f_data = bs, f_safe = length bs\<rparr>)
      (\<lambda>w3. case rename tmp p w3 of (Ok _, w4) \<Rightarrow> (Ok (), sync_parent p w4)
              | (r, w4) \<Rightarrow> (r, snd (remove_file tmp w4))) (\<lambda>_. saved p S tmp bs) ?R" for n
    using runs_rename_tmp [OF assms(2), of S n bs] sync_parent_saved remove_saving [OF assms(2)]
    unfolding runs_def by (fastforce split: outcome.splits prod.splits)
  have o: "runs (saving p S tmp) (open_create True tmp) (\<lambda>n. holds_only p S tmp n \<lparr>f_data = [], f_safe = 0\<rparr>) ?R"
    by (rule runs_weaken [OF runs_open_tmp [OF assms(2)]]) (rule weak)
  have wr: "runs (holds_only p S tmp n \<lparr>f_data = [], f_safe = 0\<rparr>) (write_all n bs)
      (\<lambda>_. holds_only p S tmp n \<lparr>f_data = bs, f_safe = 0\<rparr>) ?R" for n
    by (rule runs_weaken [OF runs_write_tmp]) (rule weak)
  have sy: "runs (holds_only p S tmp n \<lparr>f_data = bs, f_safe = 0\<rparr>) (sync_file n)
      (\<lambda>_. holds_only p S tmp n \<lparr>f_data = bs, f_safe = length bs\<rparr>) ?R" for n
    by (rule runs_weaken [OF runs_sync_tmp]) (rule weak)
  have "save_atomic pid d p = bindW (open_create True tmp) (\<lambda>file. bindW (write_all file bs) (\<lambda>_.
            bindW (sync_file file) (\<lambda>_ w3. case rename tmp p w3 of (Ok _, w4) \<Rightarrow> (Ok (), sync_parent p w4)
              | (r, w4) \<Rightarrow> (r, snd (remove_file tmp w4)))))"
    by (rule ext) (simp only: save_atomic_def assms(1) [symmetric] assms(3) Let_def outcome.case)
  moreover have "runs (saving p S tmp) \<dots> (\<lambda>_. saved p S tmp bs) ?R"
    by (rule runs_bind [OF o], rule runs_bind [OF wr], rule runs_bind [OF sy last])
  ultimately show ?thesis by simp
qed

section \<open>Appending to the log\<close>

text \<open>The file is known to the medium under the path, with \<open>old\<close> synchronized and a beginning of \<open>fr\<close> behind it.\<close>

definition log_file :: "path \<Rightarrow> nat \<Rightarrow> bytes \<Rightarrow> bytes \<Rightarrow> world \<Rightarrow> bool" where
  "log_file p i old fr w \<longleftrightarrow> (\<forall>D \<in> set (dir w # past_dirs w). D p = Some i)
     \<and> (\<exists>k s. inodes w i = \<lparr>f_data = old @ take k fr, f_safe = s\<rparr> \<and> length old \<le> s)"

definition log_done :: "path \<Rightarrow> nat \<Rightarrow> bytes \<Rightarrow> world \<Rightarrow> bool" where
  "log_done p i bs w \<longleftrightarrow> (\<forall>D \<in> set (dir w # past_dirs w). D p = Some i)
     \<and> inodes w i = \<lparr>f_data = bs, f_safe = length bs\<rparr>"

lemma log_on_disk: "on_disk (log_file p i old fr)" "on_disk (log_done p i bs)"
  by (simp_all add: on_disk_def log_file_def log_done_def)

lemma log_done_file: "log_done p i old w \<Longrightarrow> log_file p i old fr w"
  unfolding log_done_def log_file_def by (auto intro!: exI [of _ 0])

lemma log_done_full: "log_done p i (old @ fr) w \<Longrightarrow> log_file p i old fr w"
  unfolding log_done_def log_file_def by (auto intro!: exI [of _ "length fr"])

lemma log_file_survives: "log_file p i old fr w \<Longrightarrow> survives cut_tear w p \<subseteq> {Some (old @ take k fr) |k. True}"
proof -
  assume a: "log_file p i old fr w"
  then obtain k s where f: "inodes w i = \<lparr>f_data = old @ take k fr, f_safe = s\<rparr>" "length old \<le> s" by (auto simp: log_file_def)
  have "survives cut_tear w p = Some ` after_cut cut_tear (inodes w i)"
    using a by (auto simp: survives_def log_file_def)
  moreover have "y \<in> {old @ take k fr |k. True}" if "y \<in> after_cut cut_tear (inodes w i)" for y
  proof -
    from that obtain m where "y = take s (old @ take k fr) @ take m (drop s (old @ take k fr))"
      by (auto simp: after_cut_def cut_tear_def f(1))
    then have "y = take (s + m) (old @ take k fr)" by (metis take_add)
    then have "y = old @ take (min (s + m - length old) k) fr" using f(2) by simp
    then show ?thesis by blast
  qed
  ultimately show ?thesis by auto
qed

lemma log_done_survives: "log_done p i bs w \<Longrightarrow> survives cut_tear w p = {Some bs}"
  by (auto simp: survives_def log_done_def after_cut_def cut_tear_def)

lemma append_writes:
  assumes "encode_append_frame C j q = (Ok fr, j')" "log_done p i old w" "append_to_file C j p q w = ((r, j2), w')"
  shows "j2 = j'" "r \<noteq> Panic" "r = Ok () \<Longrightarrow> log_done p i (old @ fr) w'" "log_file p i old fr w'"
proof -
  let ?m = "bindW (open_create False p) (\<lambda>file. bindW (write_all file fr) (\<lambda>_. bindW (sync_file file) (\<lambda>_ w. (Ok (), w))))"
  let ?R = "log_file p i old fr"
  let ?half = "\<lambda>xs w. (\<forall>D \<in> set (dir w # past_dirs w). D p = Some i) \<and> inodes w i = \<lparr>f_data = old @ xs, f_safe = length old\<rparr>"
  have half: "?R w" if "?half (take k fr) w" for w k using that by (auto simp: log_file_def)
  have half_disk: "on_disk (?half xs)" for xs by (simp add: on_disk_def)
  have openR: "runs (log_done p i old) (open_create False p) (\<lambda>n w. n = i \<and> log_done p i old w) ?R"
    unfolding open_create_def
  proof (rule runs_bind)
    have e: "eff_open False p w = w" if "log_done p i old w" for w using that by (simp add: eff_open_def log_done_def)
    show "runs (log_done p i old) (syscall (eff_open False p) (\<lambda>k w. w) (atomic (eff_open False p))) (\<lambda>_. log_done p i old) ?R"
      by (rule runs_atomic [OF log_on_disk(2,1)]) (use e log_done_file in \<open>simp_all\<close>)
    show "runs (log_done p i old) (\<lambda>w. (Ok (the (dir w p)), w)) (\<lambda>n w. n = i \<and> log_done p i old w) ?R"
      by (simp add: runs_def log_done_def)
  qed
  have writeR: "runs (\<lambda>w. n = i \<and> log_done p i old w) (write_all n fr) (\<lambda>_ w. n = i \<and> ?half fr w) ?R" for n
  proof -
    have e: "?half xs (eff_write i xs w)" if "log_done p i old w" for w xs
      using that by (simp add: log_done_def eff_write_def set_file_def)
    have d: "on_disk (\<lambda>w. n = i \<and> log_done p i old w)" using log_on_disk(2) by (simp add: on_disk_def)
    show ?thesis unfolding write_all_def
      by (rule runs_syscall [OF d log_on_disk(1)]) (use e half log_done_file in blast)+
  qed
  have syncR: "runs (\<lambda>w. n = i \<and> ?half fr w) (sync_file n) (\<lambda>_. log_done p i (old @ fr)) ?R" for n
  proof -
    have e: "log_done p i (old @ fr) (eff_sync i w)" if "?half fr w" for w
      using that by (simp add: log_done_def eff_sync_def set_file_def)
    have d: "on_disk (\<lambda>w. n = i \<and> ?half fr w)" by (simp add: on_disk_def)
    have f: "?R w" if "?half fr w" for w using half [of w "length fr"] that by simp
    show ?thesis unfolding sync_file_def
      by (rule runs_atomic [OF d log_on_disk(1)]) (use e f log_done_full in blast)+
  qed
  have retR: "runs (log_done p i (old @ fr)) (\<lambda>w. (Ok (), w)) (\<lambda>_. log_done p i (old @ fr)) ?R" by (simp add: runs_def)
  have "runs (log_done p i old) ?m (\<lambda>_. log_done p i (old @ fr)) ?R"
    by (rule runs_bind [OF openR], rule runs_bind [OF writeR], rule runs_bind [OF syncR retR])
  moreover have m: "?m w = (r, w')" "j2 = j'" using assms(1,3) by (auto simp: append_to_file_def split: prod.splits)
  ultimately have "case (r, w') of (Ok x, w') \<Rightarrow> log_done p i (old @ fr) w' | (Err e, w') \<Rightarrow> ?R w' | (Panic, w') \<Rightarrow> False"
    using assms(2) unfolding runs_def by (metis (no_types, lifting))
  then show "r \<noteq> Panic" "r = Ok () \<Longrightarrow> log_done p i (old @ fr) w'" "log_file p i old fr w'"
    using log_done_full by (auto split: outcome.splits)
  show "j2 = j'" by (rule m(2))
qed

section \<open>Recovery from the file\<close>

definition calm :: "world \<Rightarrow> bool" where
  "calm w \<longleftrightarrow> faults w = [] \<and> \<not> dead w"

lemma syscall_calm: "calm w \<Longrightarrow> syscall eff part pcut w = (Ok (), eff w)"
  by (simp add: calm_def syscall_def)

lemma calm_effects [simp]: "calm (set_file i f w) = calm w"
  by (simp add: calm_def set_file_def)

lemma recovers_calm:
  assumes "calm w" "dir w p = Some i" "inodes w i = \<lparr>f_data = bs, f_safe = s\<rparr>" "recover_from_bytes C bs = Ok r"
    and "valid_bytes_len r \<le> length bs"
  shows "\<exists>w' s'. recover_from_file C p w = (Ok (wal_from_head (head_chain_sha256 r) (word_of_nat (length (r_packets r))), r), w')
    \<and> calm w' \<and> dir w' p = Some i \<and> inodes w' i = \<lparr>f_data = (if had_truncated_tail r then take (valid_bytes_len r) bs else bs), f_safe = s'\<rparr>"
proof -
  have e: "path_exists p w = (True, w)" "read_file p w = (Ok bs, w)" "open_write p w = (Ok i, w)"
    using assms(1-3) by (simp_all add: path_exists_def read_file_def open_write_def bindW_def syscall_calm content_def)
  let ?f = "\<lparr>f_data = take (valid_bytes_len r) bs, f_safe = min (valid_bytes_len r) s\<rparr>"
  let ?w1 = "set_file i ?f w" and ?w2 = "set_file i \<lparr>f_data = take (valid_bytes_len r) bs, f_safe = valid_bytes_len r\<rparr> w"
  have "eff_set_len i (valid_bytes_len r) w = ?w1"
    using assms(3,5) by (simp add: eff_set_len_def Let_def)
  then have l: "set_len i (valid_bytes_len r) w = (Ok (), ?w1)"
    using assms(1) by (simp add: set_len_def syscall_calm)
  have "eff_sync i ?w1 = ?w2" using assms(5) by (simp add: eff_sync_def set_file_def)
  then have y: "sync_file i ?w1 = (Ok (), ?w2)" using assms(1) by (simp add: sync_file_def syscall_calm)
  show ?thesis
  proof (cases "had_truncated_tail r")
    case True
    then have "recover_from_file C p w = (Ok (wal_from_head (head_chain_sha256 r) (word_of_nat (length (r_packets r))), r), ?w2)"
      by (simp add: recover_from_file_def e bindW_def assms(4) l y)
    moreover have "calm ?w2" "dir ?w2 p = Some i" "inodes ?w2 i = \<lparr>f_data = take (valid_bytes_len r) bs, f_safe = valid_bytes_len r\<rparr>"
      using assms(1,2) by simp (simp_all add: set_file_def assms(2))
    ultimately show ?thesis using True by auto
  next
    case False
    then have "recover_from_file C p w = (Ok (wal_from_head (head_chain_sha256 r) (word_of_nat (length (r_packets r))), r), w)"
      by (simp add: recover_from_file_def e bindW_def assms(4))
    with False assms(1-3) show ?thesis by auto
  qed
qed

lemma append_calm:
  assumes "calm w" "dir w p = Some i" "encode_append_frame C j q = (Ok fr, j')"
  shows "\<exists>w'. append_to_file C j p q w = ((Ok (), j'), w') \<and> content w' p = Some (f_data (inodes w i) @ fr)"
proof -
  have o: "open_create False p w = (Ok i, w)"
    using assms(1,2) by (simp add: open_create_def bindW_def syscall_calm eff_open_def)
  have wr: "write_all i fr w = (Ok (), eff_write i fr w)" "calm (eff_write i fr w)"
    using assms(1) by (simp_all add: write_all_def syscall_calm eff_write_def)
  then have sy: "sync_file i (eff_write i fr w) = (Ok (), eff_sync i (eff_write i fr w))"
    by (simp add: sync_file_def syscall_calm)
  have "content (eff_sync i (eff_write i fr w)) p = Some (f_data (inodes w i) @ fr)"
    using assms(2) by (simp add: content_def eff_sync_def eff_write_def set_file_def)
  then show ?thesis using assms(3) o wr(1) sy by (simp add: append_to_file_def bindW_def)
qed

text \<open>What a save leaves on the medium, and in the file when it succeeds.\<close>

lemma save_post:
  assumes "dual_to_bytes d = Ok bs" "CHR ''.'' \<notin> set pid" "saving path S (with_extension path (''tmp.'' @ pid)) w"
    and "save_atomic pid d path w = (r, w')"
  shows "case r of Ok x \<Rightarrow> saved path S (with_extension path (''tmp.'' @ pid)) bs w'
     | Err e \<Rightarrow> saving path (insert (Some bs) S) (with_extension path (''tmp.'' @ pid)) w' | Panic \<Rightarrow> False"
  using runs_save_atomic [OF refl tmp_differs [OF assms(2), of path] assms(1), of S] assms(3,4)
  unfolding runs_def by (metis (no_types, lifting) case_prod_conv)

lemma save_leaves:
  assumes "dual_to_bytes d = Ok bs" "CHR ''.'' \<notin> set pid" "saving path S (with_extension path (''tmp.'' @ pid)) w"
    and "save_atomic pid d path w = (r, w')"
  shows "survives any_tear w' path \<subseteq> insert (Some bs) S" "r = Ok () \<Longrightarrow> content w' path = Some bs"
  using save_post [OF assms] by (auto simp: saved_def saving_def content_def split: outcome.splits)

text \<open>The next \<open>k\<close> calls work; calls that do work, one after the other.\<close>

definition works :: "nat \<Rightarrow> world \<Rightarrow> bool" where
  "works k w \<longleftrightarrow> \<not> dead w \<and> (\<forall>f \<in> set (take k (faults w)). f = Works)"

definition smooth :: "nat \<Rightarrow> 'a io \<Rightarrow> bool" where
  "smooth k m \<longleftrightarrow> (\<forall>w j. works (k + j) w \<longrightarrow> (\<exists>x w'. m w = (Ok x, w') \<and> works j w'))"

lemma syscall_works:
  assumes "works (Suc k) w"
  obtains v where "syscall eff part pcut w = (Ok (), eff v)" "v = w\<lparr>faults := tl (faults w)\<rparr>" "works k v"
  using assms by (cases w; cases "faults w") (auto simp: works_def syscall_def)

lemma smooth_syscall:
  assumes "\<And>w. faults (eff w) = faults w \<and> dead (eff w) = dead w"
  shows "smooth 1 (syscall eff part pcut)"
  unfolding smooth_def
proof (intro allI impI)
  fix w j
  assume "works (1 + j) w"
  then obtain v where v: "syscall eff part pcut w = (Ok (), eff v)" "works j v" by (auto elim: syscall_works)
  moreover have "works j (eff v)" using v(2) assms [of v] by (simp add: works_def)
  ultimately show "\<exists>x w'. syscall eff part pcut w = (Ok x, w') \<and> works j w'" by blast
qed

lemma smoothD: "smooth 1 m \<Longrightarrow> works (Suc j) w \<Longrightarrow> \<exists>x w'. m w = (Ok x, w') \<and> works j w'"
  by (simp add: smooth_def)

lemma smooth_bind: "smooth k m \<Longrightarrow> (\<And>x. smooth l (f x)) \<Longrightarrow> smooth (k + l) (bindW m f)"
  unfolding smooth_def bindW_def by (fastforce simp: add.assoc)

lemma smooth_pure: "smooth 0 (\<lambda>w. (Ok (f w), w))"
  by (simp add: smooth_def)

lemma smooth_calls:
  "smooth 1 (open_create trunc p)" "smooth 1 (write_all i bs)" "smooth 1 (sync_file i)" "smooth 1 (rename p q)"
proof -
  have o: "faults (eff_open trunc p w) = faults w \<and> dead (eff_open trunc p w) = dead w" for w
    by (auto simp: eff_open_def set_file_def set_dir_def split: option.splits)
  show "smooth 1 (open_create trunc p)"
    using smooth_bind [OF smooth_syscall smooth_pure, OF o] unfolding open_create_def by simp
  show "smooth 1 (write_all i bs)" "smooth 1 (sync_file i)" "smooth 1 (rename p q)"
    unfolding write_all_def sync_file_def rename_def
    by (rule smooth_syscall, simp add: eff_write_def eff_sync_def eff_rename_def set_file_def set_dir_def)+
qed

lemma sync_parent_works:
  assumes "works 2 w" "parent_dir p \<noteq> []"
  shows "past_dirs (sync_parent p w) = []"
proof -
  have two: "works (Suc (Suc 0)) w" using assms(1) by (simp add: numeral_2_eq_2)
  obtain v where v: "syscall (\<lambda>w. w) (\<lambda>k w. w) (\<lambda>k w. w) w = (Ok (), v)" "works (Suc 0) v"
    by (rule syscall_works [OF two]) auto
  obtain u where "syscall eff_sync_dir (\<lambda>k w. w) (atomic eff_sync_dir) v = (Ok (), eff_sync_dir u)"
    by (rule syscall_works [OF v(2)]) auto
  with v(1) assms(2) show ?thesis by (simp add: sync_parent_def bindW_def eff_sync_dir_def)
qed

text \<open>The six calls of \<open>save_atomic\<close> working, it succeeds and the new state is the only one a cut can leave.\<close>

lemma save_works:
  assumes "dual_to_bytes d = Ok bs" "works 6 w"
  shows "\<exists>w'. save_atomic pid d p w = (Ok (), w') \<and> (parent_dir p \<noteq> [] \<longrightarrow> past_dirs w' = [])"
proof -
  let ?tmp = "with_extension p (''tmp.'' @ pid)"
  have "works (Suc 5) w" using assms(2) by simp
  then obtain n w1 where 1: "open_create True ?tmp w = (Ok n, w1)" "works (Suc 4) w1"
    using smoothD [OF smooth_calls(1)] by fastforce
  obtain w2 where 2: "write_all n bs w1 = (Ok (), w2)" "works (Suc 3) w2"
    using smoothD [OF smooth_calls(2) 1(2), of n bs] by auto
  obtain w3 where 3: "sync_file n w2 = (Ok (), w3)" "works (Suc 2) w3"
    using smoothD [OF smooth_calls(3) 2(2), of n] by auto
  obtain w4 where 4: "rename ?tmp p w3 = (Ok (), w4)" "works 2 w4"
    using smoothD [OF smooth_calls(4) 3(2), of ?tmp p] by auto
  have "save_atomic pid d p w = (Ok (), sync_parent p w4)"
    unfolding save_atomic_def assms(1) Let_def
    by (simp only: bindW_def 1(1) 2(1) 3(1) 4(1) outcome.case prod.case)
  with sync_parent_works [OF 4(2), of p] show ?thesis by blast
qed

lemma save_durable:
  assumes "dual_to_bytes d = Ok bs" "CHR ''.'' \<notin> set pid" "saving path S (with_extension path (''tmp.'' @ pid)) w"
    and "save_atomic pid d path w = (r, w')" "works 6 w" "parent_dir path \<noteq> []"
  shows "r = Ok () \<and> survives any_tear w' path = {Some bs}"
proof -
  have r: "r = Ok ()" "past_dirs w' = []" using save_works [OF assms(1,5), of pid path] assms(4,6) by auto
  from save_post [OF assms(1-4)] have "saved path S (with_extension path (''tmp.'' @ pid)) bs w'" by (simp add: r(1))
  then obtain n where "dir w' path = Some n" "inodes w' n = \<lparr>f_data = bs, f_safe = length bs\<rparr>" by (auto simp: saved_def)
  with r show ?thesis by (simp add: survives_def after_cut_synced)
qed

section \<open>Properties\<close>

text \<open>
  C8: saving survives a power cut. The container on disk is the one after some commits; one more
  commit and \<open>save_atomic\<close>, with any failures of the system and a cut at any point. Whatever the file
  can then hold reads back as a container from which the last or the previous state is recovered; and
  if the call succeeded, the file holds the new one, which a later cut can still undo. When all six
  calls of the system work, the two on the directory included, whose failures the code ignores, and
  the path names a directory, the save succeeds and nothing but the new state can be found after a cut.
\<close>

theorem save_survives_power_cut:
  assumes "aead_roundtrip C" and "aead_length C" and "\<forall>o1 \<in> set (ops @ [op]). length (fst o1) = 12"
    and "dual_run C wrap ops = (d, q # rest)" and "dual_run C wrap (ops @ [op]) = (d', p # q # rest)"
    and "dual_to_bytes d = Ok bs" and "dual_to_bytes d' = Ok bs'" and "CHR ''.'' \<notin> set pid"
    and "saving path {Some bs} (with_extension path (''tmp.'' @ pid)) w" and "save_atomic pid d' path w = (r, w')"
  shows "(\<forall>c \<in> survives any_tear w' path. \<exists>x e g s. c = Some x \<and> dual_from_bytes x = Ok e
      \<and> recover_latest_valid C e wrap = Ok (g, s) \<and> s \<in> {p, q})
    \<and> (r = Ok () \<longrightarrow> content w' path = Some bs')
    \<and> (works 6 w \<and> parent_dir path \<noteq> [] \<longrightarrow> r = Ok () \<and> (\<forall>c \<in> survives any_tear w' path. \<exists>x e g. c = Some x
         \<and> dual_from_bytes x = Ok e \<and> recover_latest_valid C e wrap = Ok (g, p)))"
proof -
  have reads: "dual_from_bytes bs = Ok d" "dual_from_bytes bs' = Ok d'"
    using assms(6,7) from_prefix [of d "length bs"] from_prefix [of d' "length bs'"] length_dual_layout
    unfolding dual_to_bytes_Ok_iff by simp_all
  have o: "\<forall>o1 \<in> set ops. length (fst o1) = 12" using assms(3) by simp
  have rec: "\<exists>g. recover_latest_valid C d wrap = Ok (g, q)" "\<exists>g. recover_latest_valid C d' wrap = Ok (g, p)"
    using dual_rel_recover [OF dual_run_rel [OF assms(1,2) o, of wrap]] dual_rel_recover [OF dual_run_rel [OF assms(1-3), of wrap]]
    by (simp_all add: assms(4,5))
  from save_leaves [OF assms(7-10)] have "survives any_tear w' path \<subseteq> {Some bs', Some bs}" "r = Ok () \<Longrightarrow> content w' path = Some bs'"
    by simp_all
  moreover from save_durable [OF assms(7-10)]
  have "works 6 w \<and> parent_dir path \<noteq> [] \<Longrightarrow> r = Ok () \<and> survives any_tear w' path = {Some bs'}" by blast
  ultimately show ?thesis using reads rec by blast
qed

text \<open>A directory holding one synchronized file, for the witnesses.\<close>

definition one_file :: "path \<Rightarrow> bytes \<Rightarrow> fault list \<Rightarrow> world" where
  "one_file p bs fs = \<lparr>dir = [p \<mapsto> 0], past_dirs = [], inodes = (\<lambda>i. \<lparr>f_data = bs, f_safe = length bs\<rparr>),
     next_ino = 1, faults = fs, dead = False\<rparr>"

definition sample_path :: path where
  "sample_path = \<lparr>parent_dir = ''/var'', file_name = ''s.db''\<rparr>"

lemma one_file_saving: "tmp \<noteq> p \<Longrightarrow> saving p {Some bs} tmp (one_file p bs fs)"
  by (simp add: saving_def ready_def hidden_def survives_def one_file_def after_cut_synced)

lemma one_file_log: "log_done p 0 bs (one_file p bs fs)"
  by (simp add: log_done_def one_file_def)

theorem save_survives_power_cut_witness:
  "\<exists>d d' bs bs' r w' v. dual_run toy [8] sample_dual = (d, [[20, 21], [10]])
     \<and> dual_run toy [8] sample_dual3 = (d', [[30], [20, 21], [10]]) \<and> dual_to_bytes d = Ok bs \<and> dual_to_bytes d' = Ok bs'
     \<and> save_atomic ''7'' d' sample_path (one_file sample_path bs [Works, PowerCut 9]) = (r, w')
     \<and> (\<forall>c \<in> survives any_tear w' sample_path. \<exists>x e g s. c = Some x \<and> dual_from_bytes x = Ok e
          \<and> recover_latest_valid toy e [8] = Ok (g, s) \<and> s \<in> {[30], [20, 21]})
     \<and> save_atomic ''7'' d' sample_path (one_file sample_path bs []) = (Ok (), v)
     \<and> (\<forall>c \<in> survives any_tear v sample_path. \<exists>x e g. c = Some x \<and> dual_from_bytes x = Ok e
          \<and> recover_latest_valid toy e [8] = Ok (g, [30]))"
proof -
  obtain d where d: "dual_run toy [8] sample_dual = (d, [[20, 21], [10]])" "dual_to_bytes d = Ok (dual_layout d)"
    by (rule sample_dual_state)
  obtain d' where d': "dual_run toy [8] (sample_dual @ [(replicate 12 3, [30])]) = (d', [[30], [20, 21], [10]])"
      "dual_to_bytes d' = Ok (dual_layout d')"
    using sample_dual_state3 unfolding sample_dual3_def by metis
  have pid: "CHR ''.'' \<notin> set ''7''" by simp
  have n: "\<forall>o1 \<in> set (sample_dual @ [(replicate 12 3, [30])]). length (fst o1) = 12"
    using sample_dual_nonces(2) unfolding sample_dual3_def .
  note s = one_file_saving [OF tmp_differs [OF pid], of sample_path "dual_layout d"]
  note save = save_survives_power_cut [OF toy_aead_roundtrip toy_aead_length n d(1) d'(1) d(2) d'(2) pid s]
  let ?w = "one_file sample_path (dual_layout d) [Works, PowerCut 9]" and ?v = "one_file sample_path (dual_layout d) []"
  obtain r w' where r: "save_atomic ''7'' d' sample_path ?w = (r, w')" by fastforce
  obtain q v where q: "save_atomic ''7'' d' sample_path ?v = (q, v)" by fastforce
  have "works 6 ?v" "parent_dir sample_path \<noteq> []" by (simp_all add: works_def one_file_def sample_path_def)
  then have dur: "q = Ok () \<and> (\<forall>c \<in> survives any_tear v sample_path. \<exists>x e g. c = Some x
      \<and> dual_from_bytes x = Ok e \<and> recover_latest_valid toy e [8] = Ok (g, [30]))"
    using save [OF q] by blast
  have "\<forall>c \<in> survives any_tear w' sample_path. \<exists>x e g s. c = Some x \<and> dual_from_bytes x = Ok e
      \<and> recover_latest_valid toy e [8] = Ok (g, s) \<and> s \<in> {[30], [20, 21]}"
    by (rule save [OF r, THEN conjunct1])
  with d d' r q dur show ?thesis unfolding sample_dual3_def
    by (intro exI [of _ d] exI [of _ d'] exI [of _ "dual_layout d"] exI [of _ "dual_layout d'"] exI [of _ r] exI [of _ w'] exI [of _ v]
        conjI) simp_all
qed

text \<open>
  But the save of a bare file name is not durable. When the path has no directory part, the directory
  is not synchronized: \<open>save_atomic\<close> succeeds without any failure, and a power cut afterwards can bring the
  old file back.
\<close>

theorem save_bare_name_not_durable:
  assumes "parent_dir path = []" and "CHR ''.'' \<notin> set pid" and "dual_to_bytes d = Ok bs'"
    and "w = one_file path bs []" and "save_atomic pid d path w = (r, w')"
  shows "r = Ok () \<and> content w' path = Some bs' \<and> Some bs \<in> survives any_tear w' path"
proof -
  let ?tmp = "with_extension path (''tmp.'' @ pid)"
  note t = tmp_differs [OF assms(2), of path]
  let ?f = "\<lambda>xs k. \<lparr>f_data = xs, f_safe = k\<rparr>"
  let ?D = "[path \<mapsto> 0, ?tmp \<mapsto> 1]"
  define v where "v = \<lparr>dir = ?D, past_dirs = [[path \<mapsto> 0]], inodes = (\<lambda>i. ?f bs (length bs))(1 := ?f bs' (length bs')),
    next_ino = 2, faults = [], dead = False\<rparr>"
  have c: "calm w" by (simp add: assms(4) calm_def one_file_def)
  let ?w1 = "(set_file 1 (?f [] 0) (set_dir ?D w))\<lparr>next_ino := 2\<rparr>"
  have "eff_open True ?tmp w = ?w1"
    using t by (simp add: eff_open_def assms(4) one_file_def)
  then have o: "open_create True ?tmp w = (Ok 1, ?w1)"
    using c by (simp add: open_create_def bindW_def syscall_calm) (simp add: set_file_def set_dir_def)
  have c1: "calm ?w1" using c by (simp add: calm_def set_file_def set_dir_def)
  have wr: "write_all 1 bs' ?w1 = (Ok (), eff_write 1 bs' ?w1)" using c1 by (simp add: write_all_def syscall_calm)
  have c2: "calm (eff_write 1 bs' ?w1)" using c1 by (simp add: eff_write_def)
  have v: "eff_sync 1 (eff_write 1 bs' ?w1) = v"
    using t by (simp add: eff_sync_def eff_write_def set_file_def set_dir_def assms(4) one_file_def v_def)
  have sy: "sync_file 1 (eff_write 1 bs' ?w1) = (Ok (), v)" using c2 v by (simp add: sync_file_def syscall_calm)
  have "calm v" by (simp add: calm_def v_def)
  then have rn: "rename ?tmp path v = (Ok (), eff_rename ?tmp path v)" by (simp add: rename_def syscall_calm)
  have "save_atomic pid d path w = (Ok (), eff_rename ?tmp path v)"
    unfolding save_atomic_def assms(3) Let_def by (simp only: bindW_def o wr sy rn outcome.case prod.case sync_parent_def assms(1) if_True refl)
  then have "r = Ok ()" and w': "w' = eff_rename ?tmp path v" using assms(5) by simp_all
  moreover have "content w' path = Some bs'" using t by (simp add: w' content_def eff_rename_def set_dir_def v_def)
  moreover have "Some bs \<in> survives any_tear w' path"
    using t by (simp add: w' survives_def eff_rename_def set_dir_def v_def after_cut_synced)
  ultimately show ?thesis by simp
qed

theorem save_bare_name_not_durable_witness:
  "\<exists>d bs' r w'. dual_to_bytes d = Ok bs'
     \<and> save_atomic ''7'' d \<lparr>parent_dir = [], file_name = ''s.db''\<rparr> (one_file \<lparr>parent_dir = [], file_name = ''s.db''\<rparr> [1, 2] []) = (r, w')
     \<and> r = Ok () \<and> Some [1, 2] \<in> survives any_tear w' \<lparr>parent_dir = [], file_name = ''s.db''\<rparr>"
proof -
  let ?p = "\<lparr>parent_dir = [], file_name = ''s.db''\<rparr>"
  have b: "dual_to_bytes dual_new = Ok (dual_layout dual_new)" by (simp add: dual_to_bytes_Ok_iff dual_new_def)
  obtain r w' where r: "save_atomic ''7'' dual_new ?p (one_file ?p [1, 2] []) = (r, w')" by fastforce
  from save_bare_name_not_durable [OF _ _ b refl r] b r show ?thesis by auto
qed

text \<open>
  C9: appending survives a power cut. The file holds a log and is synchronized; \<open>append_to_file\<close> runs with any
  failures and a cut at any point. What the file can then hold recovers to the packets before, or to
  these and the new one; and once the call has succeeded, to these and the new one only.
\<close>

theorem append_survives_power_cut:
  assumes "hash_lengths C" and "\<forall>p \<in> set (ps @ [q]). wf_packet p" and "append_all C wal_new ps = (old, j)"
    and "fits q" and "log_done path i old w" and "append_to_file C j path q w = ((r, j'), w')"
  shows "(\<forall>c \<in> survives cut_tear w' path. \<exists>x s. c = Some x \<and> recover_from_bytes C x = Ok s
      \<and> (r_packets s = logged ps \<or> r_packets s = logged (ps @ [q])))
    \<and> (r = Ok () \<longrightarrow> (\<forall>c \<in> survives cut_tear w' path. \<exists>x s. c = Some x \<and> recover_from_bytes C x = Ok s
      \<and> r_packets s = logged (ps @ [q]) \<and> \<not> had_truncated_tail s \<and> head_chain_sha256 s = head_sha256 j'))"
proof -
  let ?fr = "frame C (head_sha256 j) (to_bytes q)"
  have wf: "\<forall>p \<in> set ps. wf_packet p" using assms(2) by simp
  have old: "old = frames C wal_zero (logged ps)" "head_sha256 j = chain_head C wal_zero (logged ps)"
    using append_all_logged [OF wf assms(3)] by (simp_all add: wal_new_def)
  note lg = logged_loggable [OF wf] logged_loggable [OF assms(2)]
  have snoc: "logged (ps @ [q]) = logged ps @ [wire_view q]" using assms(4) by (simp add: logged_def)
  have q: "wf_packet q" "length (to_bytes q) < 2 ^ 32" using assms(2,4) by (simp_all add: fits_def)
  have all: "frames C wal_zero (logged (ps @ [q])) = old @ ?fr"
    "chain_head C wal_zero (logged (ps @ [q])) = compute_frame_sha256 C (head_sha256 j) (to_bytes q)"
    using q(1) by (simp_all add: snoc frames_append chain_head_append old to_bytes_wire_view)
  note a = append_writes [OF encode_fits [OF assms(4)] assms(5,6)]
  have part: "\<exists>s. recover_from_bytes C (old @ take k ?fr) = Ok s \<and> (r_packets s = logged ps \<or> r_packets s = logged (ps @ [q]))" for k
  proof (cases "k < length ?fr")
    case True
    have "take k ?fr = [] \<or> incomplete (take k ?fr)"
    proof (cases "k = 0")
      case False
      then show ?thesis using frame_cut_incomplete [OF assms(1) _ q(2) _ True] old(2) assms(1) by simp
    qed simp
    with recover_frames [OF assms(1) lg(1)] show ?thesis unfolding old(1) by auto
  next
    case False
    with recover_frames [OF assms(1) lg(2), of "[]"] all(1) show ?thesis by auto
  qed
  have "\<exists>x s. c = Some x \<and> recover_from_bytes C x = Ok s \<and> (r_packets s = logged ps \<or> r_packets s = logged (ps @ [q]))"
    if c: "c \<in> survives cut_tear w' path" for c
  proof -
    from log_file_survives [OF a(4)] c obtain k where "c = Some (old @ take k ?fr)" by blast
    with part [of k] show ?thesis by blast
  qed
  moreover have "\<exists>x s. c = Some x \<and> recover_from_bytes C x = Ok s \<and> r_packets s = logged (ps @ [q])
      \<and> \<not> had_truncated_tail s \<and> head_chain_sha256 s = head_sha256 j'"
    if "r = Ok ()" and c: "c \<in> survives cut_tear w' path" for c
  proof -
    have "c = Some (old @ ?fr)" using log_done_survives [OF a(3) [OF that(1)]] c by blast
    with recover_frames [OF assms(1) lg(2), of "[]"] show ?thesis by (simp add: all a(1))
  qed
  ultimately show ?thesis by blast
qed

theorem append_survives_power_cut_witness:
  "\<exists>old j r j' w'. append_all toy wal_new [wal_packet 0] = (old, j)
     \<and> append_to_file toy j sample_path (wal_packet 1) (one_file sample_path old [Works, PowerCut 9]) = ((r, j'), w')
     \<and> (\<forall>c \<in> survives cut_tear w' sample_path. \<exists>x s. c = Some x \<and> recover_from_bytes toy x = Ok s
          \<and> (r_packets s = [wal_packet 0] \<or> r_packets s = [wal_packet 0, wal_packet 1]))"
proof -
  obtain old j where a: "append_all toy wal_new [wal_packet 0] = (old, j)" by fastforce
  obtain r j' w' where r: "append_to_file toy j sample_path (wal_packet 1) (one_file sample_path old [Works, PowerCut 9]) = ((r, j'), w')"
    by (metis prod.collapse)
  have wf: "\<forall>p \<in> set ([wal_packet 0] @ [wal_packet 1]). wf_packet p" by simp
  have l: "logged [wal_packet 0] = [wal_packet 0]" "logged ([wal_packet 0] @ [wal_packet 1]) = [wal_packet 0, wal_packet 1]"
    by (simp_all add: logged_def)
  from append_survives_power_cut [OF toy_hash_lengths wf a wal_packet_simps(5) one_file_log r] a r
  show ?thesis unfolding l by blast
qed

text \<open>
  C28: repair. \<open>recover_from_file\<close> on a file that scans cuts it to its valid length, and the journal it returns
  goes on where the file ends: a packet appended with it, without failures, leaves a file that scans to
  the recovered packets and the new one, with no rest.
\<close>

theorem repaired_log_goes_on:
  assumes "hash_lengths C" and "faults w = []" and "\<not> dead w" and "content w path = Some bs"
    and "recover_from_bytes C bs = Ok s" and "wf_packet q" and "fits q"
  shows "\<exists>j w1 j2 w2 bs2 s2. recover_from_file C path w = (Ok (j, s), w1)
    \<and> append_to_file C j path q w1 = ((Ok (), j2), w2) \<and> content w2 path = Some bs2
    \<and> recover_from_bytes C bs2 = Ok s2 \<and> r_packets s2 = r_packets s @ [wire_view q] \<and> \<not> had_truncated_tail s2
    \<and> head_chain_sha256 s2 = head_sha256 j2"
proof -
  obtain ps t where s: "bs = frames C wal_zero ps @ t" "\<forall>p \<in> set ps. loggable p" "s = report_of C ps (t \<noteq> [])"
    using assms(5) unfolding recover_exact [OF assms(1)] by blast
  obtain i k where i: "dir w path = Some i" "inodes w i = \<lparr>f_data = bs, f_safe = k\<rparr>"
  proof -
    obtain i where "dir w path = Some i" "f_data (inodes w i) = bs" using assms(4) by (auto simp: content_def)
    then show thesis using that [of i "f_safe (inodes w i)"] by (metis inode.surjective unit.exhaust)
  qed
  have calm: "calm w" using assms(2,3) by (simp add: calm_def)
  have "valid_bytes_len s \<le> length bs" by (simp add: s(1,3))
  from recovers_calm [OF calm i assms(5) this] obtain w1 m where
    w1: "recover_from_file C path w = (Ok (wal_from_head (head_chain_sha256 s) (word_of_nat (length (r_packets s))), s), w1)"
      "calm w1" "dir w1 path = Some i"
      "inodes w1 i = \<lparr>f_data = (if had_truncated_tail s then take (valid_bytes_len s) bs else bs), f_safe = m\<rparr>" by blast
  then have data: "f_data (inodes w1 i) = frames C wal_zero ps" by (simp add: s)
  let ?j = "wal_from_head (head_chain_sha256 s) (word_of_nat (length (r_packets s)))"
  have h: "head_sha256 ?j = chain_head C wal_zero ps" by (simp add: wal_from_head_def s(3))
  from append_calm [OF w1(2,3) encode_fits [OF assms(7), of C ?j]] obtain w2 j2 where
    w2: "append_to_file C ?j path q w1 = ((Ok (), j2), w2)" "head_sha256 j2 = compute_frame_sha256 C (head_sha256 ?j) (to_bytes q)"
      "content w2 path = Some (frames C wal_zero ps @ frame C (head_sha256 ?j) (to_bytes q))" by (auto simp: data)
  have "frames C wal_zero ps @ frame C (head_sha256 ?j) (to_bytes q) = frames C wal_zero (ps @ [wire_view q]) @ []"
    using assms(6) by (simp add: frames_append to_bytes_wire_view h)
  moreover have "\<forall>p \<in> set (ps @ [wire_view q]). loggable p"
    using s(2) logged_loggable [of "[q]"] assms(6,7) by (simp add: logged_def)
  moreover have "head_sha256 j2 = chain_head C wal_zero (ps @ [wire_view q])"
    using assms(6) by (simp add: w2(2) h chain_head_append to_bytes_wire_view)
  ultimately show ?thesis
    using w1(1) w2(1,3) recover_frames [OF assms(1), of "ps @ [wire_view q]" "[]"] by (simp add: s(3))
qed

theorem repaired_log_goes_on_witness:
  "\<exists>bs s j w1 j2 w2 bs2 s2. content (one_file sample_path bs []) sample_path = Some bs
     \<and> recover_from_bytes toy bs = Ok s \<and> had_truncated_tail s
     \<and> recover_from_file toy sample_path (one_file sample_path bs []) = (Ok (j, s), w1)
     \<and> append_to_file toy j sample_path (wal_packet 1) w1 = ((Ok (), j2), w2) \<and> content w2 sample_path = Some bs2
     \<and> recover_from_bytes toy bs2 = Ok s2 \<and> r_packets s2 = [wal_packet 0, wal_packet 1]"
proof -
  let ?bs = "frames toy wal_zero [wal_packet 0] @ [67]" and ?s = "report_of toy [wal_packet 0] True"
  have s: "recover_from_bytes toy ?bs = Ok ?s"
    using recover_frames [OF toy_hash_lengths, of "[wal_packet 0]" "[67]"] by (simp add: incomplete_def)
  have w: "faults (one_file sample_path ?bs []) = []" "\<not> dead (one_file sample_path ?bs [])"
    "content (one_file sample_path ?bs []) sample_path = Some ?bs"
    by (simp_all add: one_file_def content_def)
  have p: "r_packets ?s @ [wire_view (wal_packet 1)] = [wal_packet 0, wal_packet 1]" "had_truncated_tail ?s" by simp_all
  from repaired_log_goes_on [OF toy_hash_lengths w s wal_packet_simps(1,5) [of 1]] w(3) s p show ?thesis by metis
qed

text \<open>
  A file that cannot be examined counts as absent. If the first call of \<open>recover_from_file\<close> fails on an
  existing log, the answer is an empty journal and no error; the packet appended next starts a new
  chain behind the old one, and the log no longer recovers.
\<close>

theorem unexamined_log_is_lost:
  assumes "hash_lengths C" and "faults w = [Fails msg k]" and "\<not> dead w" and "content w path = Some bs"
    and "recover_from_bytes C bs = Ok s" and "\<not> had_truncated_tail s" and "head_chain_sha256 s \<noteq> wal_zero" and "fits q"
  shows "\<exists>s0 w1 j2 w2 bs2. recover_from_file C path w = (Ok (wal_new, s0), w1) \<and> r_packets s0 = []
    \<and> append_to_file C wal_new path q w1 = ((Ok (), j2), w2) \<and> content w2 path = Some bs2
    \<and> recover_from_bytes C bs2 = Err IntegridadContextoCorrupta"
proof -
  let ?w1 = "w\<lparr>faults := []\<rparr>"
  obtain ps where s: "bs = frames C wal_zero ps" "\<forall>p \<in> set ps. loggable p" "s = report_of C ps False"
    using assms(5,6) unfolding recover_exact [OF assms(1)] by auto
  obtain i where i: "dir w path = Some i" "f_data (inodes w i) = bs" using assms(4) by (auto simp: content_def)
  have r: "recover_from_file C path w = (Ok (wal_new, \<lparr>r_packets = [], head_chain_sha256 = wal_zero, valid_bytes_len = 0,
      had_truncated_tail = False\<rparr>), ?w1)"
    using assms(2,3) by (simp add: recover_from_file_def path_exists_def syscall_def Let_def)
  let ?fr = "frame C wal_zero (to_bytes q)"
  have "calm ?w1" "dir ?w1 path = Some i" using assms(3) i(1) by (simp_all add: calm_def)
  from append_calm [OF this encode_fits [OF assms(8), of C wal_new]] obtain w2 j2 where
    w2: "append_to_file C wal_new path q ?w1 = ((Ok (), j2), w2)" "content w2 path = Some (bs @ ?fr)"
    by (auto simp: i(2) wal_new_def)
  have "recover_from_bytes C (bs @ ?fr) = Err IntegridadContextoCorrupta"
    unfolding s(1) using recover_wrong_chain [OF assms(1) s(2) length_wal_zero, of q "[]"] assms(7,8)
    by (simp add: s(3) fits_def)
  moreover have "r_packets \<lparr>r_packets = [], head_chain_sha256 = wal_zero, valid_bytes_len = 0, had_truncated_tail = False\<rparr> = []"
    by simp
  ultimately show ?thesis using r w2 by blast
qed

theorem unexamined_log_is_lost_witness:
  "\<exists>bs s0 w1 j2 w2 bs2. content (one_file sample_path bs [Fails ''EACCES'' 0]) sample_path = Some bs
     \<and> recover_from_file toy sample_path (one_file sample_path bs [Fails ''EACCES'' 0]) = (Ok (wal_new, s0), w1)
     \<and> append_to_file toy wal_new sample_path (wal_packet 1) w1 = ((Ok (), j2), w2) \<and> content w2 sample_path = Some bs2
     \<and> recover_from_bytes toy bs2 = Err IntegridadContextoCorrupta"
proof -
  let ?bs = "frames toy wal_zero [wal_packet 0]" and ?s = "report_of toy [wal_packet 0] False"
  have s: "recover_from_bytes toy ?bs = Ok ?s"
    using recover_frames [OF toy_hash_lengths, of "[wal_packet 0]" "[]"] by simp
  have w: "faults (one_file sample_path ?bs [Fails ''EACCES'' 0]) = [Fails ''EACCES'' 0]"
    "\<not> dead (one_file sample_path ?bs [Fails ''EACCES'' 0])"
    "content (one_file sample_path ?bs [Fails ''EACCES'' 0]) sample_path = Some ?bs"
    by (simp_all add: one_file_def content_def)
  have "compute_frame_sha256 toy wal_zero (to_bytes (wal_packet 0)) \<noteq> wal_zero" by code_simp
  then have "head_chain_sha256 ?s \<noteq> wal_zero" "\<not> had_truncated_tail ?s" by simp_all
  from unexamined_log_is_lost [OF toy_hash_lengths w s this(2,1) wal_packet_simps(5) [of 1]] w(3) show ?thesis by blast
qed

text \<open>
  A new log file may vanish. The first append creates the file but does not synchronize the directory:
  it succeeds without failures, and after a power cut the file may not exist.
\<close>

theorem new_log_not_durable:
  assumes "faults w = []" and "\<not> dead w" and "dir w path = None" and "fits q"
    and "append_to_file C j path q w = ((r, j'), w')"
  shows "r = Ok () \<and> content w' path = Some (frame C (head_sha256 j) (to_bytes q)) \<and> None \<in> survives cut_tear w' path"
proof -
  let ?fr = "frame C (head_sha256 j) (to_bytes q)" and ?n = "next_ino w"
  let ?w1 = "(set_file ?n \<lparr>f_data = [], f_safe = 0\<rparr> (set_dir ((dir w)(path \<mapsto> ?n)) w))\<lparr>next_ino := Suc ?n\<rparr>"
  have calm: "calm w" using assms(1,2) by (simp add: calm_def)
  have "eff_open False path w = ?w1" by (simp add: eff_open_def assms(3))
  then have o: "open_create False path w = (Ok ?n, ?w1)"
    using calm by (simp add: open_create_def bindW_def syscall_calm) (simp add: set_file_def set_dir_def)
  have "calm ?w1" using calm by (simp add: calm_def set_file_def set_dir_def)
  then have wr: "write_all ?n ?fr ?w1 = (Ok (), eff_write ?n ?fr ?w1)" and "calm (eff_write ?n ?fr ?w1)"
    by (simp_all add: write_all_def syscall_calm eff_write_def)
  then have sy: "sync_file ?n (eff_write ?n ?fr ?w1) = (Ok (), eff_sync ?n (eff_write ?n ?fr ?w1))"
    by (simp add: sync_file_def syscall_calm)
  have w': "r = Ok ()" "w' = eff_sync ?n (eff_write ?n ?fr ?w1)"
    using assms(5) encode_fits [OF assms(4), of C j] o wr sy by (auto simp: append_to_file_def bindW_def)
  have "dir w' path = Some ?n" "past_dirs w' = dir w # past_dirs w" "f_data (inodes w' ?n) = ?fr"
    by (simp_all add: w'(2) eff_sync_def eff_write_def set_file_def set_dir_def)
  then show ?thesis using w'(1) by (simp add: content_def survives_def assms(3))
qed

theorem new_log_not_durable_witness:
  "\<exists>r j' w'. append_to_file toy wal_new \<lparr>parent_dir = ''/var'', file_name = ''w''\<rparr> (wal_packet 0) (one_file sample_path [] []) = ((r, j'), w')
     \<and> r = Ok () \<and> None \<in> survives cut_tear w' \<lparr>parent_dir = ''/var'', file_name = ''w''\<rparr>"
proof -
  let ?p = "\<lparr>parent_dir = ''/var'', file_name = ''w''\<rparr>" and ?w = "one_file sample_path [] []"
  have w: "faults ?w = []" "\<not> dead ?w" "dir ?w ?p = None" by (simp_all add: one_file_def sample_path_def)
  obtain r j' w' where r: "append_to_file toy wal_new ?p (wal_packet 0) ?w = ((r, j'), w')" by (metis prod.collapse)
  from new_log_not_durable [OF w wal_packet_simps(5) r] r show ?thesis by blast
qed

end
