(* ===== verification/Ffi.thy ===== *)
theory Ffi
  imports Checkpoint DualSlot Wal Seed
begin

text \<open>
  \<open>src/ffi.rs\<close>: the C ABI. A handle owns a node, its wrap key, a dual-slot container and a log. A pointer
  argument is \<open>None\<close> when null; a buffer the caller passes in is its bytes, of which the function uses the first
  \<open>len\<close> (that there are so many is the caller's contract). Where a function writes, \<open>out\<close> holds the output
  buffer, its capacity and the length cell, and is returned as the function leaves it. Every function
  returns an \<open>i32\<close>; \<open>catch_unwind\<close> turns a panic into the code of \<open>FfiParametroInvalido\<close>. \<open>cn_mesh_free\<close> is in the theory
  \<open>Secrets\<close>.
\<close>

record handle =
  h_node :: mesh_node
  h_wrap_key :: bytes
  h_dual_slot :: dual_slot
  h_wal :: journal

record out =
  o_buf :: "bytes option"
  o_cap :: nat
  o_len :: "nat option"

definition slice_from_raw :: "bytes option \<Rightarrow> nat \<Rightarrow> bytes outcome" where
  "slice_from_raw ptr len =
     (if len = 0 then Ok []
      else case ptr of None \<Rightarrow> Err FfiParametroInvalido | Some b \<Rightarrow> Ok (take len b))"

text \<open>\<open>src.len() as i32\<close>\<close>

definition as_i32 :: "nat \<Rightarrow> int" where
  "as_i32 n = sint (word_of_nat n :: 32 word)"

definition write_output :: "bytes \<Rightarrow> out \<Rightarrow> int outcome \<times> out" where
  "write_output src ob =
     (case o_len ob of
        None \<Rightarrow> (Err FfiParametroInvalido, ob)
      | Some _ \<Rightarrow>
        (let ob1 = ob\<lparr>o_len := Some (length src)\<rparr>
         in case o_buf ob of
              None \<Rightarrow> (Err FfiParametroInvalido, ob1)
            | Some b \<Rightarrow>
              if o_cap ob < length src then (Err FfiParametroInvalido, ob1)
              else (Ok (as_i32 (length src)), ob1\<lparr>o_buf := Some (src @ drop (length src) b)\<rparr>)))"

text \<open>The result code of a call, the panics of \<open>catch_unwind\<close> included.\<close>

definition ffi_code :: "int outcome \<Rightarrow> int" where
  "ffi_code r = (case r of Ok c \<Rightarrow> c | Err e \<Rightarrow> to_ffi_code e | Panic \<Rightarrow> to_ffi_code FfiParametroInvalido)"

definition cn_generate_master_seed :: "bytes \<Rightarrow> bytes option \<Rightarrow> int \<times> bytes option" where
  "cn_generate_master_seed rnd out_seed_32 =
     (case out_seed_32 of
        None \<Rightarrow> (to_ffi_code FfiParametroInvalido, None)
      | Some b \<Rightarrow> (0, Some (seed_bytes (generate rnd) @ drop 32 b)))"

definition cn_mesh_new :: "crypto \<Rightarrow> bytes option \<Rightarrow> nat \<Rightarrow> bytes option \<Rightarrow> nat \<Rightarrow> u32 \<Rightarrow> u64 \<Rightarrow> u64 \<Rightarrow> handle option" where
  "cn_mesh_new C seed_ptr seed_len context_ptr context_len nid boot_epoch max_drift =
     (case seed_ptr of
        None \<Rightarrow> None
      | Some s \<Rightarrow>
        if seed_len \<noteq> 32 then None
        else (case seed_from_bytes (take 32 s) of
          Ok seed \<Rightarrow>
            (case slice_from_raw context_ptr context_len of
               Ok context \<Rightarrow>
                 Some \<lparr>h_node = new_mesh C seed context nid boot_epoch max_drift,
                       h_wrap_key = derive_wrap_key C seed context, h_dual_slot = dual_new, h_wal = wal_new\<rparr>
             | _ \<Rightarrow> None)
        | _ \<Rightarrow> None))"

text \<open>
  The body of a call on a handle that is not null: a result, the handle and the output as it leaves
  them.
\<close>

definition with_handle :: "(handle \<Rightarrow> (int outcome \<times> out) \<times> handle) \<Rightarrow> handle option \<Rightarrow> out \<Rightarrow> int \<times> handle option \<times> out" where
  "with_handle body hp ob =
     (case hp of
        None \<Rightarrow> (to_ffi_code FfiParametroInvalido, None, ob)
      | Some h \<Rightarrow> (case body h of ((r, ob'), h') \<Rightarrow> (ffi_code r, Some h', ob')))"

text \<open>\<open>?\<close> on a pure step: on failure nothing has been written and the handle is as before.\<close>

definition try_h :: "'a outcome \<Rightarrow> handle \<Rightarrow> out \<Rightarrow> ('a \<Rightarrow> (int outcome \<times> out) \<times> handle) \<Rightarrow> (int outcome \<times> out) \<times> handle" where
  "try_h m h ob k = (case m of Ok x \<Rightarrow> k x | Err e \<Rightarrow> ((Err e, ob), h) | Panic \<Rightarrow> ((Panic, ob), h))"

definition cn_mesh_seal_realtime ::
    "crypto \<Rightarrow> handle option \<Rightarrow> bytes option \<Rightarrow> nat \<Rightarrow> bytes option \<Rightarrow> nat \<Rightarrow> u64 \<Rightarrow> out \<Rightarrow> int \<times> handle option \<times> out" where
  "cn_mesh_seal_realtime C hp pt_ptr pt_len aad_ptr aad_len now_ms ob =
     with_handle (\<lambda>h.
       try_h (slice_from_raw pt_ptr pt_len) h ob (\<lambda>pt.
       try_h (slice_from_raw aad_ptr aad_len) h ob (\<lambda>aad.
         (case seal_realtime C (h_node h) pt aad now_ms of
            (r, n) \<Rightarrow> try_h r (h\<lparr>h_node := n\<rparr>) ob (\<lambda>pkt. (write_output (to_bytes pkt) ob, h\<lparr>h_node := n\<rparr>)))))) hp ob"

definition cn_mesh_open_realtime ::
    "crypto \<Rightarrow> handle option \<Rightarrow> bytes option \<Rightarrow> nat \<Rightarrow> bytes option \<Rightarrow> nat \<Rightarrow> u64 \<Rightarrow> out \<Rightarrow> int \<times> handle option \<times> out" where
  "cn_mesh_open_realtime C hp packet_ptr packet_len aad_ptr aad_len now_ms ob =
     with_handle (\<lambda>h.
       try_h (slice_from_raw packet_ptr packet_len) h ob (\<lambda>pkt_bytes.
       try_h (slice_from_raw aad_ptr aad_len) h ob (\<lambda>aad.
       try_h (from_bytes pkt_bytes) h ob (\<lambda>pkt.
         (case open_realtime C (h_node h) pkt aad now_ms of
            (r, n) \<Rightarrow> try_h r (h\<lparr>h_node := n\<rparr>) ob (\<lambda>pt. (write_output pt ob, h\<lparr>h_node := n\<rparr>))))))) hp ob"

definition cn_mesh_open_persisted ::
    "crypto \<Rightarrow> handle option \<Rightarrow> bytes option \<Rightarrow> nat \<Rightarrow> bytes option \<Rightarrow> nat \<Rightarrow> out \<Rightarrow> int \<times> handle option \<times> out" where
  "cn_mesh_open_persisted C hp packet_ptr packet_len aad_ptr aad_len ob =
     with_handle (\<lambda>h.
       try_h (slice_from_raw packet_ptr packet_len) h ob (\<lambda>pkt_bytes.
       try_h (slice_from_raw aad_ptr aad_len) h ob (\<lambda>aad.
       try_h (from_bytes pkt_bytes) h ob (\<lambda>pkt.
       try_h (open_persisted_record C (h_node h) pkt aad) h ob (\<lambda>pt. (write_output pt ob, h)))))) hp ob"

definition cn_mesh_seal_wal_frame ::
    "crypto \<Rightarrow> handle option \<Rightarrow> bytes option \<Rightarrow> nat \<Rightarrow> bytes option \<Rightarrow> nat \<Rightarrow> u64 \<Rightarrow> out \<Rightarrow> int \<times> handle option \<times> out" where
  "cn_mesh_seal_wal_frame C hp pt_ptr pt_len aad_ptr aad_len now_ms ob =
     with_handle (\<lambda>h.
       try_h (slice_from_raw pt_ptr pt_len) h ob (\<lambda>pt.
       try_h (slice_from_raw aad_ptr aad_len) h ob (\<lambda>aad.
         (case seal_realtime C (h_node h) pt aad now_ms of
            (r, n) \<Rightarrow> try_h r (h\<lparr>h_node := n\<rparr>) ob (\<lambda>pkt.
              (case encode_append_frame C (h_wal h) pkt of
                 (r2, j) \<Rightarrow> try_h r2 (h\<lparr>h_node := n, h_wal := j\<rparr>) ob (\<lambda>fr.
                   (write_output fr ob, h\<lparr>h_node := n, h_wal := j\<rparr>)))))))) hp ob"

definition cn_mesh_export_dualslot_state ::
    "crypto \<Rightarrow> bytes \<Rightarrow> bytes \<Rightarrow> handle option \<Rightarrow> out \<Rightarrow> int \<times> handle option \<times> out" where
  "cn_mesh_export_dualslot_state C rnd rnd2 hp ob =
     with_handle (\<lambda>h.
       try_h (export_checkpoint C rnd (h_node h) (h_wrap_key h)) h ob (\<lambda>checkpoint.
         (case commit_state C rnd2 (h_dual_slot h) checkpoint (h_wrap_key h) of
            (r, d) \<Rightarrow> try_h r (h\<lparr>h_dual_slot := d\<rparr>) ob (\<lambda>_.
              try_h (dual_to_bytes d) (h\<lparr>h_dual_slot := d\<rparr>) ob (\<lambda>bs.
                (write_output bs ob, h\<lparr>h_dual_slot := d\<rparr>)))))) hp ob"

text \<open>The output arguments of an import do not exist; \<open>ob\<close> is passed through.\<close>

definition cn_mesh_import_dualslot_state ::
    "crypto \<Rightarrow> handle option \<Rightarrow> bytes option \<Rightarrow> nat \<Rightarrow> out \<Rightarrow> int \<times> handle option \<times> out" where
  "cn_mesh_import_dualslot_state C hp state_ptr state_len ob =
     with_handle (\<lambda>h.
       try_h (slice_from_raw state_ptr state_len) h ob (\<lambda>raw.
       try_h (dual_from_bytes raw) h ob (\<lambda>container.
       try_h (recover_latest_valid C container (h_wrap_key h)) h ob (\<lambda>(gen, checkpoint).
         (case restore_checkpoint C (h_node h) checkpoint (h_wrap_key h) of
            (r, n) \<Rightarrow> try_h r (h\<lparr>h_node := n\<rparr>) ob (\<lambda>_.
              ((Ok 0, ob), h\<lparr>h_node := n, h_dual_slot := container\<rparr>))))))) hp ob"

definition cn_mesh_get_integrity_sha256 :: "handle option \<Rightarrow> bytes option \<Rightarrow> int \<times> bytes option" where
  "cn_mesh_get_integrity_sha256 hp out_sha =
     (case (hp, out_sha) of
        (Some h, Some b) \<Rightarrow> (0, Some (current_integrity_sha256 (h_node h) @ drop 32 b))
      | _ \<Rightarrow> (to_ffi_code FfiParametroInvalido, out_sha))"

section \<open>What a call may write\<close>

lemma with_handle_simps [simp]:
  "with_handle body None ob = (to_ffi_code FfiParametroInvalido, None, ob)"
  "with_handle body (Some h) ob = (ffi_code (fst (fst (body h))), Some (snd (body h)), snd (fst (body h)))"
  by (simp_all add: with_handle_def split: prod.splits)

lemma try_h_Ok [simp]: "try_h (Ok x) h ob k = k x"
  by (simp add: try_h_def)

text \<open>Nothing is written but the length, or the whole result into a buffer that has room for it.\<close>

definition wrote :: "bytes \<Rightarrow> int outcome \<Rightarrow> out \<Rightarrow> out \<Rightarrow> bool" where
  "wrote src r ob ob' \<longleftrightarrow> (\<exists>b l. ob = \<lparr>o_buf = Some b, o_cap = o_cap ob, o_len = Some l\<rparr> \<and> length src \<le> o_cap ob
     \<and> ob' = \<lparr>o_buf = Some (src @ drop (length src) b), o_cap = o_cap ob, o_len = Some (length src)\<rparr> \<and> r = Ok (as_i32 (length src)))"

definition refused :: "int outcome \<Rightarrow> out \<Rightarrow> out \<Rightarrow> bool" where
  "refused r ob ob' \<longleftrightarrow> (\<exists>e. r = Err e) \<and> (ob' = ob \<or> (\<exists>n. ob' = ob\<lparr>o_len := Some n\<rparr>))"

lemma write_output_outcomes: "write_output src ob = (r, ob') \<Longrightarrow> refused r ob ob' \<or> wrote src r ob ob'"
  by (cases ob) (auto simp: write_output_def refused_def wrote_def Let_def split: option.splits if_splits)

lemma slice_from_raw_not_Panic: "slice_from_raw p n \<noteq> Panic"
  by (simp add: slice_from_raw_def split: option.splits)

lemma seal_realtime_not_Panic: "fst (seal_realtime C n pt aad now) \<noteq> Panic"
  by (cases rule: seal_realtime_cases [where C = C and n = n and pt = pt and aad = aad and now = now]) simp_all

lemma open_realtime_not_Panic: "fst (open_realtime C n p aad now) \<noteq> Panic"
  by (cases rule: open_realtime_cases [where C = C and n = n and p = p and aad = aad and now = now]) simp_all

lemma encode_append_not_Panic: "fst (encode_append_frame C j p) \<noteq> Panic"
  by (cases "fits p") (simp_all add: encode_fits encode_refuses)

lemma commit_not_Panic: "fst (commit_state C rnd d p wrap) \<noteq> Panic"
  by (cases rule: commit_cases [where C = C and rnd = rnd and d = d and p = p and wrap = wrap]) simp_all

lemma restore_not_Panic: "fst (restore_checkpoint C n bs wrap) \<noteq> Panic"
  by (cases rule: restore_cases [where C = C and n = n and bs = bs and wrap = wrap]) simp_all

lemma export_checkpoint_not_Panic: "export_checkpoint C rnd n wrap \<noteq> Panic"
  by (auto simp: export_checkpoint_def bindO_Panic_iff Let_def)

lemma open_persisted_not_Panic: "open_persisted_record C n p aad \<noteq> Panic"
  by (simp add: open_persisted_record_def decrypt_v3_not_Panic)

lemmas not_Panic = slice_from_raw_not_Panic from_bytes_not_Panic seal_realtime_not_Panic open_realtime_not_Panic
  encode_append_not_Panic commit_not_Panic restore_not_Panic export_checkpoint_not_Panic open_persisted_not_Panic
  dual_from_bytes_not_Panic dual_to_bytes_outcomes(1)

text \<open>The functions with an output buffer, as calls.\<close>

datatype ffi_call =
    SealRealtime "bytes option" nat "bytes option" nat u64
  | OpenRealtime "bytes option" nat "bytes option" nat u64
  | OpenPersisted "bytes option" nat "bytes option" nat
  | SealWalFrame "bytes option" nat "bytes option" nat u64
  | ExportState bytes bytes
  | ImportState "bytes option" nat

fun ffi_step :: "crypto \<Rightarrow> ffi_call \<Rightarrow> handle option \<Rightarrow> out \<Rightarrow> int \<times> handle option \<times> out" where
  "ffi_step C (SealRealtime p pl a al now) = (\<lambda>hp ob. cn_mesh_seal_realtime C hp p pl a al now ob)"
| "ffi_step C (OpenRealtime p pl a al now) = (\<lambda>hp ob. cn_mesh_open_realtime C hp p pl a al now ob)"
| "ffi_step C (OpenPersisted p pl a al) = (\<lambda>hp ob. cn_mesh_open_persisted C hp p pl a al ob)"
| "ffi_step C (SealWalFrame p pl a al now) = (\<lambda>hp ob. cn_mesh_seal_wal_frame C hp p pl a al now ob)"
| "ffi_step C (ExportState r1 r2) = (\<lambda>hp ob. cn_mesh_export_dualslot_state C r1 r2 hp ob)"
| "ffi_step C (ImportState s sl) = (\<lambda>hp ob. cn_mesh_import_dualslot_state C hp s sl ob)"

definition ffi_run :: "crypto \<Rightarrow> (ffi_call \<times> out) list \<Rightarrow> handle option \<Rightarrow> handle option" where
  "ffi_run C calls hp = fold (\<lambda>(call, ob) hp. fst (snd (ffi_step C call hp ob))) calls hp"

lemma recover_latest_not_Panic: "recover_latest_valid C d wrap \<noteq> Panic"
  by (simp only: recover_alt first_valid_outcomes not_False_eq_True)

section \<open>The invariant of a handle\<close>

definition handle_ok :: "handle \<Rightarrow> bool" where
  "handle_ok h \<longleftrightarrow> node_ok (h_node h) \<and> \<not> m_poisoned (h_node h) \<and> replay_window (h_node h) = 128
     \<and> length (h_wrap_key h) = 32 \<and> length (head_sha256 (h_wal h)) = 32"

lemma node_ok_sealed: "node_ok n \<Longrightarrow> \<not> m_poisoned n \<Longrightarrow> node_ok (snd (seal_realtime C n pt aad now))
    \<and> \<not> m_poisoned (snd (seal_realtime C n pt aad now)) \<and> replay_window (snd (seal_realtime C n pt aad now)) = replay_window n"
  by (cases rule: seal_realtime_cases [where C = C and n = n and pt = pt and aad = aad and now = now])
    (auto simp: node_ok_def fold_packet_into_integrity_hash_def sealed_node_def fold_in_def Let_def)

lemma node_ok_opened: "node_ok n \<Longrightarrow> \<not> m_poisoned n \<Longrightarrow> node_ok (snd (open_realtime C n p aad now))
    \<and> \<not> m_poisoned (snd (open_realtime C n p aad now)) \<and> replay_window (snd (open_realtime C n p aad now)) = replay_window n"
  by (cases rule: open_realtime_cases [where C = C and n = n and p = p and aad = aad and now = now])
    (auto simp: node_ok_def fold_packet_into_integrity_hash_def accepted_node_def fold_in_def Let_def btree_insert_ok)

lemma parse_peers_ok: "btree_ok m \<Longrightarrow> parse_peers raw k off m = Ok m' \<Longrightarrow> btree_ok m'"
  by (induction raw k off m rule: parse_peers.induct) (auto simp: bindO_Ok_iff btree_insert_ok)

lemma read_checkpoint_ok:
  assumes "read_checkpoint C n bs wrap = Ok st"
  shows "btree_ok (saved_peers st) \<and> length (saved_hash st) = 32"
proof -
  from assms obtain raw where d: "decode_checkpoint n raw = Ok st"
    by (auto simp: read_checkpoint_def bindO_Ok_iff split: if_splits)
  then have "\<not> length raw < 56" by (auto simp: decode_checkpoint_def)
  then obtain i e s h c where r: "unwrap_u32 raw 0 = Ok i" "unwrap_u64 raw 4 = Ok e" "unwrap_u64 raw 12 = Ok s"
    "copy_slice 32 raw 20 52 = Ok h" "unwrap_u32 raw 52 = Ok c" "length h = 32"
    by simp
  from d obtain ps where "parse_peers raw (unat c) 56 [] = Ok ps" "saved_peers st = ps" "saved_hash st = h"
    unfolding decode_checkpoint_def r(1-5) bindO.simps by (auto simp: bindO_Ok_iff split: if_splits)
  then show ?thesis using parse_peers_ok [of "[]"] r(6) by (auto simp: btree_ok_def)
qed

lemma node_ok_restored: "node_ok n \<Longrightarrow> \<not> m_poisoned n \<Longrightarrow> node_ok (snd (restore_checkpoint C n bs wrap))
    \<and> \<not> m_poisoned (snd (restore_checkpoint C n bs wrap)) \<and> replay_window (snd (restore_checkpoint C n bs wrap)) = replay_window n"
  by (cases rule: restore_cases [where C = C and n = n and bs = bs and wrap = wrap])
    (auto simp: node_ok_def dest: read_checkpoint_ok)

lemma handle_ok_node:
  "handle_ok h \<Longrightarrow> handle_ok (h\<lparr>h_node := snd (seal_realtime C (h_node h) pt aad now)\<rparr>)"
  "handle_ok h \<Longrightarrow> handle_ok (h\<lparr>h_node := snd (open_realtime C (h_node h) p aad now)\<rparr>)"
  "handle_ok h \<Longrightarrow> handle_ok (h\<lparr>h_node := snd (restore_checkpoint C (h_node h) bs wrap)\<rparr>)"
  by (simp_all add: handle_ok_def node_ok_sealed node_ok_opened node_ok_restored)

lemma handle_ok_parts:
  "hash_lengths C \<Longrightarrow> handle_ok h \<Longrightarrow> handle_ok (h\<lparr>h_wal := snd (encode_append_frame C (h_wal h) p)\<rparr>)"
  "handle_ok h \<Longrightarrow> handle_ok (h\<lparr>h_dual_slot := d\<rparr>)"
  by (cases "fits p") (simp_all add: handle_ok_def encode_fits encode_refuses)

text \<open>
  The interface between the calls and an invariant of a handle: it has to survive the steps of the
  node, an appended frame and a new container, and then survives every call.
\<close>

locale handle_invariant =
  fixes C :: crypto and I :: "handle \<Rightarrow> bool"
  assumes keep_seal: "I h \<Longrightarrow> I (h\<lparr>h_node := snd (seal_realtime C (h_node h) pt aad now)\<rparr>)"
    and keep_open: "I h \<Longrightarrow> I (h\<lparr>h_node := snd (open_realtime C (h_node h) p aad now)\<rparr>)"
    and keep_restore: "I h \<Longrightarrow> I (h\<lparr>h_node := snd (restore_checkpoint C (h_node h) bs wrap)\<rparr>)"
    and keep_wal: "I h \<Longrightarrow> I (h\<lparr>h_wal := snd (encode_append_frame C (h_wal h) p)\<rparr>)"
    and keep_dual: "I h \<Longrightarrow> I (h\<lparr>h_dual_slot := d\<rparr>)"
begin

lemma keep_sealed_wal:
  "I h \<Longrightarrow> I (h\<lparr>h_node := snd (seal_realtime C (h_node h) pt aad now), h_wal := snd (encode_append_frame C (h_wal h) p)\<rparr>)"
  using keep_wal [OF keep_seal [of h pt aad now], of p] by simp

lemma keep_restored:
  "I h \<Longrightarrow> I (h\<lparr>h_node := snd (restore_checkpoint C (h_node h) bs wrap), h_dual_slot := d\<rparr>)"
  using keep_dual [OF keep_restore [of h bs wrap], of d] by simp

lemma keep_try: "I h \<Longrightarrow> (\<And>x. I (snd (k x))) \<Longrightarrow> I (snd (try_h m h ob k))"
  by (cases m) (simp_all add: try_h_def)

lemma keep_snd: "I h \<Longrightarrow> I (snd (x, h))"
  by simp

lemma keep_call: "(\<And>h. I h \<Longrightarrow> I (snd (body h))) \<Longrightarrow> pred_option I hp
    \<Longrightarrow> pred_option I (fst (snd (with_handle body hp ob)))"
  by (cases hp) simp_all

lemma step_keeps:
  assumes "pred_option I hp"
  shows "pred_option I (fst (snd (ffi_step C call hp ob)))"
proof (cases call)
  case (SealWalFrame p pl a al now)
  show ?thesis
    unfolding SealWalFrame ffi_step.simps cn_mesh_seal_wal_frame_def case_prod_beta
    by (rule keep_call [OF _ assms]) (intro keep_try keep_snd keep_seal keep_sealed_wal; assumption)
next
  case (ImportState s sl)
  show ?thesis
    unfolding ImportState ffi_step.simps cn_mesh_import_dualslot_state_def case_prod_beta
    by (rule keep_call [OF _ assms]) (intro keep_try keep_snd keep_restore keep_restored; assumption)
next
  case (ExportState r1 r2)
  show ?thesis
    unfolding ExportState ffi_step.simps cn_mesh_export_dualslot_state_def case_prod_beta
    by (rule keep_call [OF _ assms]) (intro keep_try keep_snd keep_dual; assumption)
next
  case (SealRealtime p pl a al now)
  show ?thesis
    unfolding SealRealtime ffi_step.simps cn_mesh_seal_realtime_def case_prod_beta
    by (rule keep_call [OF _ assms]) (intro keep_try keep_snd keep_seal; assumption)
next
  case (OpenRealtime p pl a al now)
  show ?thesis
    unfolding OpenRealtime ffi_step.simps cn_mesh_open_realtime_def case_prod_beta
    by (rule keep_call [OF _ assms]) (intro keep_try keep_snd keep_open; assumption)
next
  case (OpenPersisted p pl a al)
  show ?thesis
    unfolding OpenPersisted ffi_step.simps cn_mesh_open_persisted_def case_prod_beta
    by (rule keep_call [OF _ assms]) (intro keep_try keep_snd; assumption)
qed

lemma run_keeps: "pred_option I hp \<Longrightarrow> pred_option I (ffi_run C calls hp)"
  by (induction calls arbitrary: hp) (auto simp: ffi_run_def step_keeps)

end

text \<open>Which node a handle is: keys, identity and wrap key.\<close>

definition kin :: "handle \<Rightarrow> handle \<Rightarrow> bool" where
  "kin a h \<longleftrightarrow> same_keys (h_node a) (h_node h) \<and> m_node_id (h_node a) = m_node_id (h_node h) \<and> h_wrap_key a = h_wrap_key h"

lemma restore_kin: "same_keys n (snd (restore_checkpoint C n bs wrap)) \<and> m_node_id (snd (restore_checkpoint C n bs wrap)) = m_node_id n"
  by (auto simp: restore_checkpoint_def same_keys_def lock_rx_def Let_def split: outcome.splits)

lemma seal_kin: "same_keys n (snd (seal_realtime C n pt aad now)) \<and> m_node_id (snd (seal_realtime C n pt aad now)) = m_node_id n"
  using sealed_node_config [of n C]
  by (cases rule: seal_realtime_cases [where C = C and n = n and pt = pt and aad = aad and now = now])
    (auto simp: same_config_def same_keys_def)

lemma open_kin: "same_keys n (snd (open_realtime C n p aad now)) \<and> m_node_id (snd (open_realtime C n p aad now)) = m_node_id n"
  using open_realtime_frame [of C n p aad now] by (auto simp: same_config_def prod_eq_iff)

interpretation hok: handle_invariant C "\<lambda>h. hash_lengths C \<longrightarrow> handle_ok h" for C
  by unfold_locales (auto simp: handle_ok_node handle_ok_parts)

interpretation hkin: handle_invariant C "kin a" for C a
proof
  fix h pt aad now p bs wrap d
  assume h: "kin a h"
  show "kin a (h\<lparr>h_node := snd (seal_realtime C (h_node h) pt aad now)\<rparr>)"
    using h seal_kin [of "h_node h" C pt aad now] by (auto simp: kin_def same_keys_def)
  show "kin a (h\<lparr>h_node := snd (open_realtime C (h_node h) p aad now)\<rparr>)"
    using h open_kin [of "h_node h" C p aad now] by (auto simp: kin_def same_keys_def)
  show "kin a (h\<lparr>h_node := snd (restore_checkpoint C (h_node h) bs wrap)\<rparr>)"
    using h restore_kin [of "h_node h" C bs wrap] by (auto simp: kin_def same_keys_def)
  show "kin a (h\<lparr>h_wal := snd (encode_append_frame C (h_wal h) p)\<rparr>)" "kin a (h\<lparr>h_dual_slot := d\<rparr>)"
    using h by (simp_all add: kin_def)
qed

lemma keeps_drift:
  "max_time_drift_ms (snd (seal_realtime C n pt aad now)) = max_time_drift_ms n"
  "max_time_drift_ms (snd (open_realtime C n p aad now)) = max_time_drift_ms n"
  "max_time_drift_ms (snd (restore_checkpoint C n bs wrap)) = max_time_drift_ms n"
  subgoal using sealed_node_config [of n C]
    by (cases rule: seal_realtime_cases [where C = C and n = n and pt = pt and aad = aad and now = now])
      (auto simp: same_config_def)
  subgoal using open_realtime_frame [of C n p aad now] by (auto simp: same_config_def prod_eq_iff)
  subgoal by (auto simp: restore_checkpoint_def lock_rx_def Let_def split: outcome.splits)
  done

interpretation hdrift: handle_invariant C "\<lambda>h. max_time_drift_ms (h_node h) = d" for C d
  by unfold_locales (simp_all add: keeps_drift)

lemma new_handle_ok:
  assumes "hash_lengths C" "cn_mesh_new C s sl ctx cl i e d = Some h"
  shows "handle_ok h"
proof -
  obtain seed cx where "h = \<lparr>h_node = new_mesh C seed cx i e d,
      h_wrap_key = derive_wrap_key C seed cx, h_dual_slot = dual_new, h_wal = wal_new\<rparr>"
    using assms(2) by (auto simp: cn_mesh_new_def split: option.splits outcome.splits if_splits)
  then show ?thesis
    using new_mesh_ok [of C seed cx i e d] assms(1)
    by (simp add: handle_ok_def derive_wrap_key_def hash_lengthsD wal_new_def) (simp add: new_mesh_def Let_def MESH_WINDOW_def)
qed

section \<open>Results of calls\<close>

lemma as_i32_small: "n < 2 ^ 31 \<Longrightarrow> as_i32 n = int n"
  by (simp add: as_i32_def signed_take_bit_int_eq_self_iff signed_of_nat)

lemma as_i32_large: "2 ^ 31 \<le> n \<Longrightarrow> n < 2 ^ 32 \<Longrightarrow> as_i32 n = int n - 2 ^ 32"
proof -
  assume a: "2 ^ 31 \<le> n" "n < 2 ^ 32"
  have "signed_take_bit 31 (int n) = signed_take_bit 31 (int n - 2 ^ 32)"
    unfolding signed_take_bit_eq_iff_take_bit_eq by (simp add: take_bit_eq_mod)
  also have "\<dots> = int n - 2 ^ 32"
    using a by (subst signed_take_bit_int_eq_self_iff) auto
  finally show ?thesis by (simp add: as_i32_def signed_of_nat)
qed

lemma negative_codes [simp]: "ffi_code (Err e) < 0" "ffi_code Panic < 0"
proof -
  have "to_ffi_code x < 0" for x using to_ffi_code_range [of x] by linarith
  then show "ffi_code (Err e) < 0" "ffi_code Panic < 0" by (simp_all add: ffi_code_def)
qed

lemma nonneg_code: "0 \<le> ffi_code r \<Longrightarrow> \<exists>c. r = Ok c"
  using negative_codes by (cases r) (auto simp: not_less [symmetric])

text \<open>A nonnegative code says how much is in the buffer.\<close>

lemma write_output_code:
  assumes "write_output src ob = (r, ob')" "o_cap ob < 2 ^ 31" "0 \<le> ffi_code r"
  shows "ffi_code r = int (length src)" "\<exists>b. o_buf ob' = Some (src @ b)"
proof -
  have "\<not> refused r ob ob'"
    using nonneg_code [OF assms(3)] by (auto simp: refused_def)
  then have "wrote src r ob ob'" using write_output_outcomes [OF assms(1)] by blast
  then show "ffi_code r = int (length src)" "\<exists>b. o_buf ob' = Some (src @ b)"
    using assms(2) by (auto simp: wrote_def ffi_code_def as_i32_small)
qed

lemma write_output_fits:
  assumes "o_buf ob = Some b" "o_len ob = Some l" "length src \<le> o_cap ob" "o_cap ob < 2 ^ 31"
  shows "write_output src ob = (Ok (int (length src)), ob\<lparr>o_buf := Some (src @ drop (length src) b), o_len := Some (length src)\<rparr>)"
  using assms by (simp add: write_output_def Let_def as_i32_small)

lemma try_h_code:
  assumes "0 \<le> ffi_code (fst (fst (try_h m h ob k)))"
  obtains x where "m = Ok x" "try_h m h ob k = k x"
  using nonneg_code [OF assms] by (cases m) (auto simp: try_h_def)

lemma seal_wal_code:
  assumes "cn_mesh_seal_wal_frame C (Some h) p pl a al now ob = (c, Some h', ob')" "0 \<le> c" "o_cap ob < 2 ^ 31"
  obtains pkt f b where "encode_append_frame C (h_wal h) pkt = (Ok f, h_wal h')" "c = int (length f)" "o_buf ob' = Some (f @ b)"
proof -
  note def = cn_mesh_seal_wal_frame_def [of C "Some h" p pl a al now ob] 
  from assms(1,2) obtain pt where pt: "slice_from_raw p pl = Ok pt"
    unfolding def by (auto elim: try_h_code)
  from assms(1,2) obtain ad where ad: "slice_from_raw a al = Ok ad"
    unfolding def by (auto simp: pt elim: try_h_code)
  obtain r n where s: "seal_realtime C (h_node h) pt ad now = (r, n)" by fastforce
  from assms(1,2) obtain pkt where pkt: "r = Ok pkt"
    unfolding def by (auto simp: pt ad s elim: try_h_code)
  obtain r2 j where e: "encode_append_frame C (h_wal h) pkt = (r2, j)" by fastforce
  from assms(1,2) obtain f where f: "r2 = Ok f"
    unfolding def by (auto simp: pt ad s pkt e elim: try_h_code)
  obtain r3 o3 where w: "write_output f ob = (r3, o3)" by fastforce
  have "c = ffi_code r3" "ob' = o3" "h_wal h' = j"
    using assms(1) unfolding def by (auto simp: pt ad s pkt e f w)
  with write_output_code [OF w assms(3)] assms(2) e f that show thesis by metis
qed

lemma slice_from_raw_all [simp]: "slice_from_raw (Some b) (length b) = Ok b"
  by (simp add: slice_from_raw_def)

lemma slice_from_raw_front [simp]: "slice_from_raw (Some (x @ b)) (length x) = Ok x"
  by (simp add: slice_from_raw_def)

lemma seal_realtime_code:
  assumes "cn_mesh_seal_realtime C (Some h) (Some pt) (length pt) (Some aad) (length aad) now ob = (c, Some h', ob')"
    and "0 \<le> c" "o_cap ob < 2 ^ 31"
  obtains pkt b where "seal_at C (h_node h) (m_epoch (h_node h)) (m_tx_seq (h_node h)) pt aad now = Ok pkt"
    "c = int (length (to_bytes pkt))" "o_buf ob' = Some (to_bytes pkt @ b)"
proof -
  note def = cn_mesh_seal_realtime_def [of C "Some h" "Some pt" "length pt" "Some aad" "length aad" now ob]
  obtain r n where s: "seal_realtime C (h_node h) pt aad now = (r, n)" by fastforce
  from assms(1,2) obtain pkt where pkt: "r = Ok pkt" unfolding def by (auto simp: s elim: try_h_code)
  have sa: "seal_at C (h_node h) (m_epoch (h_node h)) (m_tx_seq (h_node h)) pt aad now = Ok pkt"
    using s pkt by (cases rule: seal_realtime_cases [where C = C and n = "h_node h" and pt = pt and aad = aad and now = now]) auto
  obtain r3 o3 where w: "write_output (to_bytes pkt) ob = (r3, o3)" by fastforce
  have "c = ffi_code r3" "ob' = o3" using assms(1) unfolding def by (auto simp: s pkt w)
  with write_output_code [OF w assms(3)] assms(2) sa that show thesis by metis
qed

lemma export_written:
  assumes "cn_mesh_export_dualslot_state C r1 r2 (Some h) ob = (c, Some h', ob')" "0 \<le> c" "o_cap ob < 2 ^ 31"
  obtains cp g d bs b where "export_checkpoint C r1 (h_node h) (h_wrap_key h) = Ok cp"
    "commit_state C r2 (h_dual_slot h) cp (h_wrap_key h) = (Ok g, d)" "dual_to_bytes d = Ok bs"
    "c = int (length bs)" "o_buf ob' = Some (bs @ b)" "h_node h' = h_node h" "h_dual_slot h' = d"
proof -
  note def = cn_mesh_export_dualslot_state_def [of C r1 r2 "Some h" ob]
  from assms(1,2) obtain cp where cp: "export_checkpoint C r1 (h_node h) (h_wrap_key h) = Ok cp"
    unfolding def by (auto elim: try_h_code)
  obtain r d where s: "commit_state C r2 (h_dual_slot h) cp (h_wrap_key h) = (r, d)" by fastforce
  from assms(1,2) obtain g where g: "r = Ok g" unfolding def by (auto simp: cp s elim: try_h_code)
  from assms(1,2) obtain bs where bs: "dual_to_bytes d = Ok bs" unfolding def by (auto simp: cp s g elim: try_h_code)
  obtain r3 o3 where w: "write_output bs ob = (r3, o3)" by fastforce
  have "c = ffi_code r3" "ob' = o3" "h' = h\<lparr>h_dual_slot := d\<rparr>" using assms(1) unfolding def by (auto simp: cp s g bs w)
  with write_output_code [OF w assms(3)] assms(2) cp s g bs that [of cp g d bs] show thesis by auto
qed

text \<open>A committed state is what the next reader of the container finds first.\<close>

lemma commit_recovers:
  assumes "aead_roundtrip C" "aead_length C" "length rnd = 12" "commit_state C rnd d p wrap = (Ok g, d')" "dual_to_bytes d' = Ok bs"
  shows "dual_from_bytes bs = Ok d' \<and> recover_latest_valid C d' wrap = Ok (g, p)"
proof -
  have "recover_latest_valid C d' wrap = Ok (g, p)"
  proof (cases rule: commit_cases [where C = C and rnd = rnd and d = d and p = p and wrap = wrap])
    case (ok s e)
    have "0 < snd (newest d) + 1" using unat_Suc [OF ok(1)] by (simp add: word_less_nat_alt)
    then have "holds C wrap s (snd (newest d) + 1) p" using sealed_holds [OF assms(1-3) _ ok(2)] by blast
    from first_valid_hit [OF this] show ?thesis using ok(3,4) assms(4) by (simp add: recover_alt)
  qed (use assms(4) in auto)
  moreover have "dual_from_bytes bs = Ok d'"
    using assms(5) from_prefix [of d' "length bs"] length_dual_layout unfolding dual_to_bytes_Ok_iff by simp
  ultimately show ?thesis by blast
qed

text \<open>A packet of one node at the C ABI of another that has accepted nothing yet.\<close>

lemma new_mesh_fields [simp]:
  "m_tx_seq (new_mesh C seed cx i e d) = 0" "m_epoch (new_mesh C seed cx i e d) = e" "m_node_id (new_mesh C seed cx i e d) = i"
  "m_poisoned (new_mesh C seed cx i e d) = False" "max_time_drift_ms (new_mesh C seed cx i e d) = d"
  "replay_window (new_mesh C seed cx i e d) = 128" "peers (m_rx_state (new_mesh C seed cx i e d)) = []"
  by (simp_all add: new_mesh_def Let_def MESH_WINDOW_def)

lemma new_handles:
  assumes "cn_mesh_new C s sl cp cl i e d = Some a" "cn_mesh_new C s sl cp cl i' e' d' = Some b"
  obtains seed cx where "h_node a = new_mesh C seed cx i e d" "h_node b = new_mesh C seed cx i' e' d'"
    "h_wrap_key a = derive_wrap_key C seed cx" "h_wrap_key b = derive_wrap_key C seed cx" "h_wal b = wal_new"
  using assms by (auto simp: cn_mesh_new_def split: option.splits outcome.splits if_splits)

lemma foreign_packet_opens:
  assumes "aead_roundtrip C" "seal_at C (new_mesh C seed cx i e d) ep sq pt aad now = Ok p"
    and "n = new_mesh C seed cx i' e' d'" "abs_diff now' now \<le> d'"
  shows "open_realtime C n p aad now' = (Ok pt, accepted_node C n p)"
proof (rule open_realtime_accepts)
  show dec: "decrypt_v3 C n p aad = Ok pt"
    unfolding assms(3) by (rule seal_at_opens [OF assms(1) new_mesh_keys assms(2)])
  show "chrono_genuine C n (p, aad, now')"
    using assms(4) seal_at_header [OF assms(2)] dec by (simp add: chrono_genuine_def assms(3))
  show "peer_check (peer_of n (peer_key_of p)) (p_sequence p) (replay_window n) = Ok ()"
    by (simp add: peer_of_def btree_get_def assms(3) peer_check_default)
qed

lemma second_open_refused:
  assumes "chrono_genuine C n (p, aad, now)" "peers (m_rx_state n) = []" "replay_window n = 128"
  shows "open_realtime C (accepted_node C n p) p aad now = (Err Repetido, accepted_node C n p)"
proof -
  let ?m = "accepted_node C n p"
  have "chrono_genuine C ?m (p, aad, now)" using genuine_same_config [OF accepted_node_config] assms(1) by metis
  then have g: "p_version p = 3" "\<not> max_time_drift_ms ?m < abs_diff now (p_timestamp_ms p)" "\<not> m_poisoned ?m"
    by (auto simp: chrono_genuine_def not_less)
  let ?s = "peer_record peer_default (p_sequence p) 128"
  have get: "btree_get (peers (m_rx_state ?m)) (peer_key_of p) = Some ?s"
    by (simp add: accepted_node_def fold_in_def Let_def assms(2,3) btree_get_def peer_of_def)
  have "shl128 1 0 = 1" by (simp add: shl128_def)
  then have "peer_check ?s (p_sequence p) 128 = Err Repetido"
    by (simp add: peer_record_def peer_check_def peer_default_def Let_def)
  then show ?thesis using g by (simp add: open_realtime_def lock_rx_def get assms(3))
qed

lemma open_realtime_decrypts:
  assumes "p_version p = 3" "\<not> m_poisoned n" "decrypt_v3 C n p aad = Ok pt"
  shows "open_realtime C n p aad now =
    (if max_time_drift_ms n < abs_diff now (p_timestamp_ms p) then (Err TiempoExpiradoOInvalido, n)
     else case peer_check (peer_of n (peer_key_of p)) (p_sequence p) (replay_window n) of
        Ok _ \<Rightarrow> (Ok pt, accepted_node C n p) | Err x \<Rightarrow> (Err x, n) | Panic \<Rightarrow> (Panic, n))"
proof (cases "max_time_drift_ms n < abs_diff now (p_timestamp_ms p)")
  case True
  then show ?thesis using assms(1) by (simp add: open_realtime_def)
next
  case False
  show ?thesis
  proof (cases "peer_check (peer_of n (peer_key_of p)) (p_sequence p) (replay_window n) = Ok ()")
    case True
    moreover have "chrono_genuine C n (p, aad, now)" using False assms by (simp add: chrono_genuine_def not_less)
    ultimately show ?thesis using open_realtime_accepts [of C n p aad now pt] False assms(3) by simp
  next
    case False
    then show ?thesis using assms(1,2) \<open>\<not> max_time_drift_ms n < _\<close>
      by (auto simp: open_realtime_def lock_rx_def peer_of_def peer_check_default split: option.splits outcome.splits)
  qed
qed

text \<open>What a handle is after any calls.\<close>

lemma run_handle_ok:
  assumes "hash_lengths C" "cn_mesh_new C s sl cp cl i e d = Some h0" "ffi_run C calls (Some h0) = Some h"
  shows "handle_ok h"
  using hok.run_keeps [of C "Some h0" calls] new_handle_ok [OF assms(1,2)] assms(1,3) by simp

lemma run_drift:
  assumes "cn_mesh_new C s sl cp cl i e d = Some h0" "ffi_run C calls (Some h0) = Some h"
  shows "max_time_drift_ms (h_node h) = d"
  using hdrift.run_keeps [of d "Some h0" C calls] assms by (auto simp: cn_mesh_new_def split: option.splits outcome.splits if_splits)

lemma run_kin:
  assumes "cn_mesh_new C s sl cp cl i e d = Some a0" "ffi_run C calls (Some a0) = Some a"
    and "cn_mesh_new C s sl cp cl i' e' d' = Some b0" "ffi_run C calls' (Some b0) = Some b"
  shows "same_keys (h_node a) (h_node b)" "m_node_id (h_node a) = i"
proof -
  obtain seed cx where n: "h_node a0 = new_mesh C seed cx i e d" "h_node b0 = new_mesh C seed cx i' e' d'"
    by (rule new_handles [OF assms(1,3)])
  have "kin a0 a" "kin b0 b"
    using hkin.run_keeps [of a0 "Some a0" C calls] hkin.run_keeps [of b0 "Some b0" C calls'] assms(2,4)
    by (simp_all add: kin_def same_keys_def)
  then show "same_keys (h_node a) (h_node b)" "m_node_id (h_node a) = i"
    using new_mesh_keys [of C seed cx i e d i' e' d'] by (auto simp: kin_def same_keys_def n)
qed

text \<open>Only \<open>cn_mesh_seal_wal_frame\<close> moves the log of a handle.\<close>

fun writes_log :: "ffi_call \<Rightarrow> bool" where
  "writes_log (SealWalFrame p pl a al now) = True"
| "writes_log _ = False"

lemma try_h_wal: "(\<And>x. h_wal (snd (k x)) = w) \<Longrightarrow> h_wal h = w \<Longrightarrow> h_wal (snd (try_h m h ob k)) = w"
  by (cases m) (simp_all add: try_h_def)

lemma snd_wal: "h_wal h = w \<Longrightarrow> h_wal (snd (x, h)) = w"
  by simp

lemma with_handle_wal: "(\<And>h. h_wal h = w \<Longrightarrow> h_wal (snd (body h)) = w) \<Longrightarrow> pred_option (\<lambda>h. h_wal h = w) hp
    \<Longrightarrow> pred_option (\<lambda>h. h_wal h = w) (fst (snd (with_handle body hp ob)))"
  by (cases hp) simp_all

lemma node_dual_wal: "h_wal h = w \<Longrightarrow> h_wal (h\<lparr>h_node := n\<rparr>) = w" "h_wal h = w \<Longrightarrow> h_wal (h\<lparr>h_dual_slot := d\<rparr>) = w"
  "h_wal h = w \<Longrightarrow> h_wal (h\<lparr>h_node := n, h_dual_slot := d\<rparr>) = w"
  by simp_all

lemma step_keeps_wal:
  assumes "\<not> writes_log call" "pred_option (\<lambda>h. h_wal h = w) hp"
  shows "pred_option (\<lambda>h. h_wal h = w) (fst (snd (ffi_step C call hp ob)))"
  by (cases call)
    (use assms(1) in \<open>simp_all only: writes_log.simps not_True_eq_False ffi_step.simps cn_mesh_seal_realtime_def
      cn_mesh_open_realtime_def cn_mesh_open_persisted_def cn_mesh_export_dualslot_state_def
      cn_mesh_import_dualslot_state_def case_prod_unfold\<close>,
     (intro with_handle_wal [OF _ assms(2)] try_h_wal snd_wal node_dual_wal; assumption)+)

lemma run_keeps_wal:
  assumes "\<forall>x \<in> set calls. \<not> writes_log (fst x)" "pred_option (\<lambda>h. h_wal h = w) hp"
  shows "pred_option (\<lambda>h. h_wal h = w) (ffi_run C calls hp)"
  using assms by (induction calls arbitrary: hp) (auto simp: ffi_run_def step_keeps_wal)

section \<open>Properties\<close>

text \<open>
  The reference: what a call computes, without pointers, buffers and codes. It reads its arguments, makes
  the calls of the library one after another, and stops at the first error; the result is the bytes to
  deliver, or nothing for an import.
\<close>

definition reading :: "'a outcome \<Rightarrow> handle \<Rightarrow> ('a \<Rightarrow> bytes option outcome \<times> handle) \<Rightarrow> bytes option outcome \<times> handle" where
  "reading m h k = (case m of Ok x \<Rightarrow> k x | Err e \<Rightarrow> (Err e, h) | Panic \<Rightarrow> (Panic, h))"

fun answer :: "crypto \<Rightarrow> ffi_call \<Rightarrow> handle \<Rightarrow> bytes option outcome \<times> handle" where
  "answer C (SealRealtime p pl a al now) h =
     reading (slice_from_raw p pl) h (\<lambda>pt. reading (slice_from_raw a al) h (\<lambda>aad.
       (case seal_realtime C (h_node h) pt aad now of (r, n) \<Rightarrow> (bindO r (\<lambda>pkt. Ok (Some (to_bytes pkt))), h\<lparr>h_node := n\<rparr>))))"
| "answer C (OpenRealtime p pl a al now) h =
     reading (slice_from_raw p pl) h (\<lambda>bs. reading (slice_from_raw a al) h (\<lambda>aad. reading (from_bytes bs) h (\<lambda>pkt.
       (case open_realtime C (h_node h) pkt aad now of (r, n) \<Rightarrow> (bindO r (\<lambda>pt. Ok (Some pt)), h\<lparr>h_node := n\<rparr>)))))"
| "answer C (OpenPersisted p pl a al) h =
     reading (slice_from_raw p pl) h (\<lambda>bs. reading (slice_from_raw a al) h (\<lambda>aad. reading (from_bytes bs) h (\<lambda>pkt.
       (bindO (open_persisted_record C (h_node h) pkt aad) (\<lambda>pt. Ok (Some pt)), h))))"
| "answer C (SealWalFrame p pl a al now) h =
     reading (slice_from_raw p pl) h (\<lambda>pt. reading (slice_from_raw a al) h (\<lambda>aad.
       (case seal_realtime C (h_node h) pt aad now of (r, n) \<Rightarrow> reading r (h\<lparr>h_node := n\<rparr>) (\<lambda>pkt.
         (case encode_append_frame C (h_wal h) pkt of (r2, j) \<Rightarrow> (bindO r2 (\<lambda>f. Ok (Some f)), h\<lparr>h_node := n, h_wal := j\<rparr>))))))"
| "answer C (ExportState r1 r2) h =
     reading (export_checkpoint C r1 (h_node h) (h_wrap_key h)) h (\<lambda>cp.
       (case commit_state C r2 (h_dual_slot h) cp (h_wrap_key h) of
          (r, d) \<Rightarrow> (bindO r (\<lambda>_. bindO (dual_to_bytes d) (\<lambda>bs. Ok (Some bs))), h\<lparr>h_dual_slot := d\<rparr>)))"
| "answer C (ImportState s sl) h =
     reading (slice_from_raw s sl) h (\<lambda>raw. reading (dual_from_bytes raw) h (\<lambda>d.
       reading (recover_latest_valid C d (h_wrap_key h)) h (\<lambda>(gen, cp).
         (case restore_checkpoint C (h_node h) cp (h_wrap_key h) of
            (r, n) \<Rightarrow> reading r (h\<lparr>h_node := n\<rparr>) (\<lambda>_. (Ok None, h\<lparr>h_node := n, h_dual_slot := d\<rparr>))))))"

text \<open>How an answer has to be handed to the caller.\<close>

definition delivered :: "bytes option outcome \<Rightarrow> out \<Rightarrow> int \<times> out" where
  "delivered r ob = (case r of
      Err e \<Rightarrow> (to_ffi_code e, ob)
    | Panic \<Rightarrow> (- 16, ob)
    | Ok None \<Rightarrow> (0, ob)
    | Ok (Some src) \<Rightarrow>
        if o_len ob = None then (- 16, ob)
        else (case o_buf ob of
            Some b \<Rightarrow> if length src \<le> o_cap ob
              then (int (length src), ob\<lparr>o_buf := Some (src @ drop (length src) b), o_len := Some (length src)\<rparr>)
              else (- 16, ob\<lparr>o_len := Some (length src)\<rparr>)
          | None \<Rightarrow> (- 16, ob\<lparr>o_len := Some (length src)\<rparr>)))"

definition hands_over :: "out \<Rightarrow> (int outcome \<times> out) \<times> handle \<Rightarrow> bytes option outcome \<times> handle \<Rightarrow> bool" where
  "hands_over ob x y \<longleftrightarrow> snd x = snd y \<and> (ffi_code (fst (fst x)), snd (fst x)) = delivered (fst y) ob"

lemma hands_over_write: "o_cap ob < 2 ^ 31 \<Longrightarrow> hands_over ob (write_output src ob, h) (Ok (Some src), h)"
  by (cases ob) (auto simp: hands_over_def delivered_def write_output_def Let_def ffi_code_def as_i32_small split: option.splits)

lemma hands_over_zero: "hands_over ob ((Ok 0, ob), h) (Ok None, h)"
  by (simp add: hands_over_def delivered_def ffi_code_def)

lemma hands_over_reading:
  "(\<And>x. m = Ok x \<Longrightarrow> hands_over ob (k x) (k' x)) \<Longrightarrow> hands_over ob (try_h m h ob k) (reading m h k')"
  by (cases m) (simp_all add: try_h_def reading_def hands_over_def delivered_def ffi_code_def)

lemma hands_over_last:
  "(\<And>x. m = Ok x \<Longrightarrow> hands_over ob (k x) (f x, h)) \<Longrightarrow> hands_over ob (try_h m h ob k) (bindO m f, h)"
  by (cases m) (simp_all add: try_h_def hands_over_def delivered_def ffi_code_def)

lemmas hands_over_rules = hands_over_write hands_over_zero hands_over_last hands_over_reading

lemma hands_over_handle:
  "hands_over ob (body h) y \<Longrightarrow> with_handle body (Some h) ob = (fst (delivered (fst y) ob), Some (snd y), snd (delivered (fst y) ob))"
  by (auto simp: hands_over_def prod_eq_iff)

lemma reading_not_Panic: "m \<noteq> Panic \<Longrightarrow> (\<And>x. fst (k x) \<noteq> Panic) \<Longrightarrow> fst (reading m h k) \<noteq> Panic"
  by (cases m) (simp_all add: reading_def)

lemma last_not_Panic: "m \<noteq> Panic \<Longrightarrow> (\<And>x. f x \<noteq> Panic) \<Longrightarrow> fst (bindO m f, h) \<noteq> Panic"
  by (cases m) simp_all

lemma bindO_not_Panic: "m \<noteq> Panic \<Longrightarrow> (\<And>x. f x \<noteq> Panic) \<Longrightarrow> bindO m f \<noteq> Panic"
  by (cases m) simp_all

lemma Ok_not_Panic: "Ok x \<noteq> Panic" "fst (Ok x, h) \<noteq> Panic"
  by simp_all

lemma answer_not_Panic: "fst (answer C call h) \<noteq> Panic"
  by (cases call; simp only: answer.simps case_prod_unfold;
      intro reading_not_Panic last_not_Panic bindO_not_Panic Ok_not_Panic not_Panic recover_latest_not_Panic)

text \<open>
  C22: what a call returns and writes. Every call on a handle, with an output buffer of less than 2^31
  bytes, computes the reference answer and leaves the handle as the reference does, whether or not the
  result can be delivered. An error gives its code, between -17 and -1, and the output untouched. A
  result is delivered in full, at the front of the buffer, with its length as code and in the length
  cell; the rest of the buffer is as before. Without a length cell, without a buffer or without room for
  it the code is -16 and nothing is written but the needed length, where there is a cell for it. An import gives
  0. No call panics, and a null handle gives -16 and changes nothing.
\<close>

theorem ffi_output_contract:
  assumes "o_cap ob < 2 ^ 31"
  shows "ffi_step C call (Some h) ob =
      (fst (delivered (fst (answer C call h)) ob), Some (snd (answer C call h)), snd (delivered (fst (answer C call h)) ob))
    \<and> fst (answer C call h) \<noteq> Panic
    \<and> (\<forall>e. fst (answer C call h) = Err e \<longrightarrow> fst (ffi_step C call (Some h) ob) \<in> {- 17 .. - 1})
    \<and> ffi_step C call None ob = (- 16, None, ob)"
proof -
  have "ffi_step C call (Some h) ob =
      (fst (delivered (fst (answer C call h)) ob), Some (snd (answer C call h)), snd (delivered (fst (answer C call h)) ob))"
  proof (cases call)
    case (SealRealtime p pl a al now)
    show ?thesis
      unfolding SealRealtime ffi_step.simps cn_mesh_seal_realtime_def answer.simps case_prod_beta
      by (rule hands_over_handle) (intro hands_over_rules assms)
  next
    case (OpenRealtime p pl a al now)
    show ?thesis
      unfolding OpenRealtime ffi_step.simps cn_mesh_open_realtime_def answer.simps case_prod_beta
      by (rule hands_over_handle) (intro hands_over_rules assms)
  next
    case (OpenPersisted p pl a al)
    show ?thesis
      unfolding OpenPersisted ffi_step.simps cn_mesh_open_persisted_def answer.simps case_prod_beta
      by (rule hands_over_handle) (intro hands_over_rules assms)
  next
    case (SealWalFrame p pl a al now)
    show ?thesis
      unfolding SealWalFrame ffi_step.simps cn_mesh_seal_wal_frame_def answer.simps case_prod_beta
      by (rule hands_over_handle) (intro hands_over_rules assms)
  next
    case (ExportState r1 r2)
    show ?thesis
      unfolding ExportState ffi_step.simps cn_mesh_export_dualslot_state_def answer.simps case_prod_beta
      by (rule hands_over_handle) (intro hands_over_rules assms)
  next
    case (ImportState s sl)
    show ?thesis
      unfolding ImportState ffi_step.simps cn_mesh_import_dualslot_state_def answer.simps case_prod_beta
      by (rule hands_over_handle) (intro hands_over_rules assms)
  qed
  moreover have "ffi_step C call None ob = (- 16, None, ob)"
    by (cases call) (simp_all add: cn_mesh_seal_realtime_def cn_mesh_open_realtime_def cn_mesh_open_persisted_def
      cn_mesh_seal_wal_frame_def cn_mesh_export_dualslot_state_def cn_mesh_import_dualslot_state_def)
  ultimately show ?thesis using answer_not_Panic to_ffi_code_range by (auto simp: delivered_def)
qed

definition sample_out :: "nat \<Rightarrow> out" where
  "sample_out n = \<lparr>o_buf = Some (replicate n 0), o_cap = n, o_len = Some 0\<rparr>"

definition sample_seed_bytes :: bytes where
  "sample_seed_bytes = replicate 31 0 @ [1]"

definition sample_handle :: "u32 \<Rightarrow> u64 \<Rightarrow> handle" where
  "sample_handle i e = \<lparr>h_node = new_mesh toy \<lparr>seed_bytes = sample_seed_bytes\<rparr> [] i e 1000,
     h_wrap_key = derive_wrap_key toy \<lparr>seed_bytes = sample_seed_bytes\<rparr> [], h_dual_slot = dual_new, h_wal = wal_new\<rparr>"

lemma sample_handle_new: "cn_mesh_new toy (Some sample_seed_bytes) 32 None 0 i e 1000 = Some (sample_handle i e)"
proof -
  have "seed_from_bytes sample_seed_bytes = Ok \<lparr>seed_bytes = sample_seed_bytes\<rparr>" by code_simp
  moreover have "take 32 sample_seed_bytes = sample_seed_bytes" by (simp add: sample_seed_bytes_def)
  ultimately show ?thesis by (simp add: cn_mesh_new_def slice_from_raw_def sample_handle_def)
qed

theorem ffi_output_contract_witness:
  "fst (answer toy (SealRealtime (Some [104]) 1 (Some [7]) 1 50) (sample_handle 1 5)) \<noteq> Panic
   \<and> fst (ffi_step toy (SealRealtime (Some [104]) 1 (Some [7]) 1 50) (Some (sample_handle 1 5)) (sample_out 99)) = 59
   \<and> fst (ffi_step toy (SealRealtime (Some [104]) 1 (Some [7]) 1 50) (Some (sample_handle 1 5)) (sample_out 58)) = - 16"
proof -
  let ?call = "SealRealtime (Some [104]) 1 (Some [7]) 1 50"
  have c: "o_cap (sample_out 99) < 2 ^ 31" "o_cap (sample_out 58) < 2 ^ 31" by (simp_all add: sample_out_def)
  have "case fst (answer toy ?call (sample_handle 1 5)) of Ok (Some bs) \<Rightarrow> length bs = 59 | _ \<Rightarrow> False" by code_simp
  then obtain bs where "fst (answer toy ?call (sample_handle 1 5)) = Ok (Some bs)" "length bs = 59"
    by (auto split: outcome.splits option.splits)
  then have "fst (delivered (fst (answer toy ?call (sample_handle 1 5))) (sample_out 99)) = 59"
    "fst (delivered (fst (answer toy ?call (sample_handle 1 5))) (sample_out 58)) = - 16"
    by (simp_all add: delivered_def sample_out_def)
  with ffi_output_contract [OF c(1), of toy ?call "sample_handle 1 5"] ffi_output_contract [OF c(2), of toy ?call "sample_handle 1 5"]
  show ?thesis by (metis fst_conv)
qed

text \<open>
  C13: delivery at the C ABI. Two handles are made from the same seed and context, with any identities
  and epochs, and have gone through any calls. What the first seals into its buffer (of less than 2^31
  bytes), the second opens from that buffer to the plaintext, with the plaintext's length as the code,
  if its own buffer has room for it: always with \<open>cn_mesh_open_persisted\<close>, and with
  \<open>cn_mesh_open_realtime\<close> when the clocks are within its drift and its window for this sender and epoch
  accepts the sequence. A packet that the window does not accept returns the code of the window's
  error, one out of the drift -13, and neither touches handle nor buffer.
\<close>

theorem ffi_delivery:
  assumes "aead_roundtrip C" and "aead_length C" and "hash_lengths C"
    and "cn_mesh_new C s sl cp cl i e d = Some a0" and "ffi_run C calls (Some a0) = Some a"
    and "cn_mesh_new C s sl cp cl i' e' d' = Some b0" and "ffi_run C calls' (Some b0) = Some b"
    and "cn_mesh_seal_realtime C (Some a) (Some pt) (length pt) (Some aad) (length aad) now ob = (c, Some a', ob')"
    and "0 \<le> c" and "o_cap ob < 2 ^ 31"
    and "o_buf ob2 = Some buf" and "o_len ob2 = Some l" and "length pt \<le> o_cap ob2" and "o_cap ob2 < 2 ^ 31"
  shows "let filled = ob2\<lparr>o_buf := Some (pt @ drop (length pt) buf), o_len := Some (length pt)\<rparr>;
           live = cn_mesh_open_realtime C (Some b) (o_buf ob') (nat c) (Some aad) (length aad) now' ob2
         in cn_mesh_open_persisted C (Some b) (o_buf ob') (nat c) (Some aad) (length aad) ob2 = (int (length pt), Some b, filled)
           \<and> (if d' < abs_diff now' now then live = (- 13, Some b, ob2)
              else case peer_check (peer_of (h_node b) (PeerKey i (m_epoch (h_node a)))) (m_tx_seq (h_node a)) 128 of
                  Ok _ \<Rightarrow> (\<exists>b'. live = (int (length pt), Some b', filled))
                | Err x \<Rightarrow> live = (to_ffi_code x, Some b, ob2)
                | Panic \<Rightarrow> False)"
proof -
  have h: "same_keys (h_node a) (h_node b)" "m_node_id (h_node a) = i" "\<not> m_poisoned (h_node b)"
    "max_time_drift_ms (h_node b) = d'" "replay_window (h_node b) = 128"
    using run_kin [OF assms(4-7)] run_drift [OF assms(6,7)] run_handle_ok [OF assms(3,6,7)] by (simp_all add: handle_ok_def)
  obtain pkt rest where p: "seal_at C (h_node a) (m_epoch (h_node a)) (m_tx_seq (h_node a)) pt aad now = Ok pkt"
    "c = int (length (to_bytes pkt))" "o_buf ob' = Some (to_bytes pkt @ rest)"
    by (rule seal_realtime_code [OF assms(8-10)])
  have parse: "from_bytes (to_bytes pkt) = Ok pkt"
    using from_bytes_to_bytes sealed_packet_loggable [OF assms(3,2) p(1)] by metis
  note hd = seal_at_header [OF p(1)]
  have dec: "decrypt_v3 C (h_node b) pkt aad = Ok pt" by (rule seal_at_opens [OF assms(1) h(1) p(1)])
  note w = write_output_fits [OF assms(11-14)]
  have k: "peer_key_of pkt = PeerKey i (m_epoch (h_node a))" using hd h(2) by (simp add: peer_key_of_def)
  note o = open_realtime_decrypts [OF _ h(3) dec, of now', unfolded h(4,5) k]
  show ?thesis
  proof (cases "peer_check (peer_of (h_node b) (PeerKey i (m_epoch (h_node a)))) (m_tx_seq (h_node a)) 128")
    case (Ok u)
    then show ?thesis using o hd
      by (simp add: cn_mesh_open_realtime_def cn_mesh_open_persisted_def open_persisted_record_def p(2,3) parse dec w try_h_def ffi_code_def Let_def)
  next
    case (Err x)
    then show ?thesis using o hd
      by (simp add: cn_mesh_open_realtime_def cn_mesh_open_persisted_def open_persisted_record_def p(2,3) parse dec w try_h_def ffi_code_def Let_def)
  next
    case Panic
    then show ?thesis using peer_check_not_Panic by simp
  qed
qed

lemma sample_seal:
  obtains p where "cn_mesh_seal_realtime toy (Some (sample_handle 1 5)) (Some [104]) (length ([104]::bytes)) (Some [7]) (length ([7]::bytes)) 50 (sample_out 99)
      = (59, Some (sample_handle 1 5\<lparr>h_node := sealed_node toy (h_node (sample_handle 1 5)) p\<rparr>),
         \<lparr>o_buf = Some (to_bytes p @ replicate 40 0), o_cap = 99, o_len = Some 59\<rparr>)"
proof -
  let ?n = "h_node (sample_handle 1 5)"
  have "m_tx_seq ?n \<noteq> - 1" by (simp add: sample_handle_def)
  then obtain p where p: "seal_realtime toy ?n [104] [7] 50 = (Ok p, sealed_node toy ?n p)"
    "seal_at toy ?n (m_epoch ?n) (m_tx_seq ?n) [104] [7] 50 = Ok p" by (rule toy_seal)
  have "length (p_ciphertext p) = 17"
    using p(2) aead_lengthD [OF toy_aead_length] unfolding seal_at_Ok_iff by fastforce
  then have "length (to_bytes p) = 59"
    using length_to_bytes [OF sealed_packet_loggable(1) [OF toy_hash_lengths toy_aead_length p(2)]] seal_at_header [OF p(2)] by simp
  then have "write_output (to_bytes p) (sample_out 99) = (Ok 59, \<lparr>o_buf = Some (to_bytes p @ replicate 40 0), o_cap = 99, o_len = Some 59\<rparr>)"
    by (simp add: write_output_def sample_out_def as_i32_small)
  then show thesis using that p(1)
    by (simp add: cn_mesh_seal_realtime_def slice_from_raw_def ffi_code_def)
qed

theorem ffi_delivery_witness:
  "\<exists>c a' ob' b' ob3. cn_mesh_seal_realtime toy (Some (sample_handle 1 5)) (Some [104]) (length ([104]::bytes)) (Some [7]) (length ([7]::bytes)) 50 (sample_out 99) = (c, Some a', ob')
     \<and> cn_mesh_open_realtime toy (Some (sample_handle 2 0)) (o_buf ob') (nat c) (Some [7]) (length ([7]::bytes)) 60 (sample_out 8) = (1, Some b', ob3)
     \<and> o_buf ob3 = Some (104 # replicate 7 0)"
proof -
  obtain c a' ob' where f: "cn_mesh_seal_realtime toy (Some (sample_handle 1 5)) (Some [104]) (length ([104]::bytes)) (Some [7]) (length ([7]::bytes)) 50 (sample_out 99) = (c, Some a', ob')" "c = 59"
    by (rule sample_seal) blast
  have s: "0 \<le> c" "o_cap (sample_out 99) < 2 ^ 31" "o_buf (sample_out 8) = Some (replicate 8 0)"
    "o_len (sample_out 8) = Some 0" "length ([104]::bytes) \<le> o_cap (sample_out 8)" "o_cap (sample_out 8) < 2 ^ 31"
    by (simp_all add: f(2) sample_out_def)
  have r: "ffi_run toy [] (Some (sample_handle j e)) = Some (sample_handle j e)" for j e by (simp add: ffi_run_def)
  have "[104] @ drop (length ([104]::bytes)) (replicate 8 0) = 104 # replicate 7 (0::u8)" by (simp add: eval_nat_numeral)
  moreover have "abs_diff (60::u64) 50 = 10" by (simp add: abs_diff_def)
  ultimately show ?thesis
    using ffi_delivery [where now' = 60 and i' = 2 and e' = 0, OF toy_aead_roundtrip toy_aead_length toy_hash_lengths sample_handle_new r sample_handle_new r f(1) s] f(1)
    by (auto simp: Let_def peer_of_def btree_get_def sample_handle_def peer_check_default)
qed

text \<open>
  A buffer that is too small loses the message. Opening a packet with less room than its plaintext
  returns -16 and the needed length, but the node has accepted the packet: the same call with any
  buffer returns -10 (\<open>Repetido\<close>) from then on.
\<close>

theorem ffi_small_buffer_loses_message:
  assumes "aead_roundtrip C" and "aead_length C" and "hash_lengths C"
    and "cn_mesh_new C s sl cp cl i e d = Some a" and "cn_mesh_new C s sl cp cl i' e' d' = Some b"
    and "cn_mesh_seal_realtime C (Some a) (Some pt) (length pt) (Some aad) (length aad) now ob = (c, Some a', ob')"
    and "0 \<le> c" and "o_cap ob < 2 ^ 31" and "abs_diff now' now \<le> d'"
    and "o_len ob2 = Some l" and "o_cap ob2 < length pt"
  shows "\<exists>b'. cn_mesh_open_realtime C (Some b) (o_buf ob') (nat c) (Some aad) (length aad) now' ob2
      = (- 16, Some b', ob2\<lparr>o_len := Some (length pt)\<rparr>)
    \<and> (\<forall>ob3. cn_mesh_open_realtime C (Some b') (o_buf ob') (nat c) (Some aad) (length aad) now' ob3 = (- 10, Some b', ob3))"
proof -
  obtain seed cx where n: "h_node a = new_mesh C seed cx i e d" "h_node b = new_mesh C seed cx i' e' d'"
    by (rule new_handles [OF assms(4,5)])
  obtain pkt rest where p: "seal_at C (h_node a) (m_epoch (h_node a)) (m_tx_seq (h_node a)) pt aad now = Ok pkt"
    "c = int (length (to_bytes pkt))" "o_buf ob' = Some (to_bytes pkt @ rest)"
    by (rule seal_realtime_code [OF assms(6-8)])
  have parse: "from_bytes (to_bytes pkt) = Ok pkt"
    using from_bytes_to_bytes sealed_packet_loggable [OF assms(3,2) p(1)] by metis
  let ?b = "b\<lparr>h_node := accepted_node C (h_node b) pkt\<rparr>"
  note o = foreign_packet_opens [OF assms(1) p(1) [unfolded n(1)] n(2) assms(9)]
  have "chrono_genuine C (h_node b) (pkt, aad, now')"
    using o by (cases rule: open_realtime_cases [where C = C and n = "h_node b" and p = pkt and aad = aad and now = now']) auto
  from second_open_refused [OF this] have o2: "open_realtime C (accepted_node C (h_node b) pkt) pkt aad now' = (Err Repetido, accepted_node C (h_node b) pkt)"
    by (simp add: n(2))
  have w: "write_output pt ob2 = (Err FfiParametroInvalido, ob2\<lparr>o_len := Some (length pt)\<rparr>)"
    using assms(10,11) by (simp add: write_output_def Let_def split: option.splits)
  have "cn_mesh_open_realtime C (Some b) (o_buf ob') (nat c) (Some aad) (length aad) now' ob2
      = (- 16, Some ?b, ob2\<lparr>o_len := Some (length pt)\<rparr>)"
    by (simp add: cn_mesh_open_realtime_def p(2,3) parse o w ffi_code_def)
  moreover have "cn_mesh_open_realtime C (Some ?b) (o_buf ob') (nat c) (Some aad) (length aad) now' ob3 = (- 10, Some ?b, ob3)" for ob3
    by (simp add: cn_mesh_open_realtime_def p(2,3) parse o2 try_h_def ffi_code_def)
  ultimately show ?thesis by blast
qed

theorem ffi_small_buffer_loses_message_witness:
  "\<exists>c a' ob' b'. cn_mesh_seal_realtime toy (Some (sample_handle 1 5)) (Some [104]) (length ([104]::bytes)) (Some [7]) (length ([7]::bytes)) 50 (sample_out 99) = (c, Some a', ob')
     \<and> fst (cn_mesh_open_realtime toy (Some (sample_handle 2 0)) (o_buf ob') (nat c) (Some [7]) (length ([7]::bytes)) 60 (sample_out 0)) = - 16
     \<and> fst (cn_mesh_open_realtime toy (Some b') (o_buf ob') (nat c) (Some [7]) (length ([7]::bytes)) 60 (sample_out 8)) = - 10"
proof -
  obtain c a' ob' where f: "cn_mesh_seal_realtime toy (Some (sample_handle 1 5)) (Some [104]) (length ([104]::bytes)) (Some [7]) (length ([7]::bytes)) 50 (sample_out 99) = (c, Some a', ob')" "c = 59"
    by (rule sample_seal) blast
  have s: "0 \<le> c" "o_cap (sample_out 99) < 2 ^ 31" "abs_diff (60::u64) 50 \<le> 1000" "o_len (sample_out 0) = Some 0"
    "o_cap (sample_out 0) < length ([104]::bytes)"
    by (simp_all add: f(2) sample_out_def abs_diff_def)
  from ffi_small_buffer_loses_message [OF toy_aead_roundtrip toy_aead_length toy_hash_lengths sample_handle_new sample_handle_new f(1) s] f(1)
  show ?thesis by (metis fst_conv)
qed

text \<open>
  C30: restart from the dual-slot blob. A handle after any calls exports its state; a new handle of the
  same seed, context and identity imports the written bytes: it returns 0, and its node has the later of
  its own epoch and the exported one plus one, and the exported sequence and integrity hash. Its log,
  however, starts at the zero hash.
\<close>

theorem ffi_restart:
  assumes "aead_roundtrip C" and "aead_length C" and "hash_lengths C" and "length r1 = 12" and "length r2 = 12"
    and "cn_mesh_new C s sl cp cl i e d = Some a0" and "ffi_run C calls (Some a0) = Some a"
    and "cn_mesh_export_dualslot_state C r1 r2 (Some a) ob = (c, Some a', ob')" and "0 \<le> c" and "o_cap ob < 2 ^ 31"
    and "cn_mesh_new C s sl cp cl i e2 d2 = Some b"
  shows "\<exists>b'. cn_mesh_import_dualslot_state C (Some b) (o_buf ob') (nat c) ob2 = (0, Some b', ob2)
    \<and> current_epoch (h_node b') = max e2 (saturating_add (current_epoch (h_node a)) 1)
    \<and> current_tx_seq (h_node b') = current_tx_seq (h_node a)
    \<and> current_integrity_sha256 (h_node b') = current_integrity_sha256 (h_node a)
    \<and> h_dual_slot b' = h_dual_slot a' \<and> h_wal b' = wal_new"
proof -
  obtain seed cx where n: "h_node a0 = new_mesh C seed cx i e d" "h_node b = new_mesh C seed cx i e2 d2"
    "h_wrap_key a0 = h_wrap_key b" "h_wal b = wal_new"
    using new_handles [OF assms(6,11)] by metis
  have ok: "node_ok (h_node a)" "\<not> m_poisoned (h_node a)"
    using hok.run_keeps [of C "Some a0" calls] new_handle_ok [OF assms(3,6)] assms(3,7) by (simp_all add: handle_ok_def)
  have "kin a0 a" using hkin.run_keeps [of a0 "Some a0" C calls] assms(7) by (simp add: kin_def same_keys_def)
  then have k: "same_keys (h_node a) (h_node b)" "m_node_id (h_node a) = m_node_id (h_node b)" "h_wrap_key a = h_wrap_key b"
    using new_mesh_keys [of C seed cx i e d i e2 d2] by (auto simp: kin_def same_keys_def n)
  obtain cp2 g dd bs rest where x: "export_checkpoint C r1 (h_node a) (h_wrap_key a) = Ok cp2"
    "commit_state C r2 (h_dual_slot a) cp2 (h_wrap_key a) = (Ok g, dd)" "dual_to_bytes dd = Ok bs" "c = int (length bs)"
    "o_buf ob' = Some (bs @ rest)" "h_dual_slot a' = dd"
    by (rule export_written [OF assms(8-10)])
  have rec: "dual_from_bytes bs = Ok dd" "recover_latest_valid C dd (h_wrap_key b) = Ok (g, cp2)"
    using commit_recovers [OF assms(1,2,5) x(2,3)] by (simp_all add: k(3))
  have rd: "read_checkpoint C (h_node b) cp2 (h_wrap_key b) = Ok \<lparr>saved_epoch = m_epoch (h_node a), saved_tx_seq = m_tx_seq (h_node a),
      saved_hash = multiset_integrity_hash (m_rx_state (h_node a)), saved_peers = stored_peers (peers (m_rx_state (h_node a)))\<rparr>"
    using read_exported [OF assms(1,2,4) ok(1) x(1) k(1,2)] by (simp add: k(3))
  let ?n = "(h_node b)\<lparr>m_epoch := max e2 (saturating_add (m_epoch (h_node a)) 1), m_tx_seq := m_tx_seq (h_node a),
      m_rx_state := \<lparr>peers = stored_peers (peers (m_rx_state (h_node a))),
        multiset_integrity_hash = multiset_integrity_hash (m_rx_state (h_node a))\<rparr>\<rparr>"
  have "restore_checkpoint C (h_node b) cp2 (h_wrap_key b) = (Ok (), ?n)"
    unfolding restore_checkpoint_def rd by (simp add: lock_rx_def Let_def n(2))
  then have "cn_mesh_import_dualslot_state C (Some b) (o_buf ob') (nat c) ob2 = (0, Some (b\<lparr>h_node := ?n, h_dual_slot := dd\<rparr>), ob2)"
    by (simp add: cn_mesh_import_dualslot_state_def x(4,5) rec ffi_code_def)
  then show ?thesis
    using ok(2) by (simp add: current_epoch_def current_tx_seq_def current_integrity_sha256_def lock_rx_def n(2,4) x(6))
qed

lemma sample_export_code:
  "fst (cn_mesh_export_dualslot_state toy (replicate 12 1) (replicate 12 2) (Some (sample_handle 1 5)) (sample_out 200)) = 153"
  by code_simp

theorem ffi_restart_witness:
  "\<exists>c a' ob' b'. cn_mesh_export_dualslot_state toy (replicate 12 1) (replicate 12 2) (Some (sample_handle 1 5)) (sample_out 200) = (c, Some a', ob')
     \<and> cn_mesh_import_dualslot_state toy (Some (sample_handle 1 0)) (o_buf ob') (nat c) (sample_out 0) = (0, Some b', sample_out 0)
     \<and> current_epoch (h_node b') = 6"
proof -
  obtain c a' ob' where e: "cn_mesh_export_dualslot_state toy (replicate 12 1) (replicate 12 2) (Some (sample_handle 1 5)) (sample_out 200) = (c, Some a', ob')"
    by (cases "cn_mesh_export_dualslot_state toy (replicate 12 1) (replicate 12 2) (Some (sample_handle 1 5)) (sample_out 200)")
      (auto simp: cn_mesh_export_dualslot_state_def)
  then have c: "0 \<le> c" using sample_export_code by simp
  have r: "ffi_run toy [] (Some (sample_handle 1 5)) = Some (sample_handle 1 5)" by (simp add: ffi_run_def)
  have o: "o_cap (sample_out 200) < 2 ^ 31" by (simp add: sample_out_def)
  from ffi_restart [OF toy_aead_roundtrip toy_aead_length toy_hash_lengths _ _ sample_handle_new r e c o sample_handle_new, of 0 "sample_out 0"]
  obtain b' where b: "cn_mesh_import_dualslot_state toy (Some (sample_handle 1 0)) (o_buf ob') (nat c) (sample_out 0) = (0, Some b', sample_out 0)"
    "current_epoch (h_node b') = max 0 (saturating_add (current_epoch (h_node (sample_handle 1 5))) 1)" by auto
  then have "current_epoch (h_node b') = 6" by (simp add: current_epoch_def sample_handle_def saturating_add_def)
  with e b(1) show ?thesis by blast
qed

text \<open>
  No log survives a restart at the C ABI. A log written by one handle is continued by another one
  after a restart, new or with the dual-slot state imported: as no function sets the head of a handle's
  log, its first frame starts a new chain, and the whole log then fails with
  \<open>IntegridadContextoCorrupta\<close>.
\<close>

theorem ffi_restart_breaks_log:
  assumes "hash_lengths C" and "\<forall>q \<in> set ps. wf_packet q" and "append_all C wal_new ps = (log, j)" and "head_sha256 j \<noteq> wal_zero"
    and "cn_mesh_new C s sl cp cl i e d = Some b0"
    and "\<forall>x \<in> set calls. \<not> writes_log (fst x)" and "ffi_run C calls (Some b0) = Some b"
    and "cn_mesh_seal_wal_frame C (Some b) p pl a al now ob = (c, Some b', ob')" and "0 \<le> c" and "o_cap ob < 2 ^ 31"
    and "o_buf ob' = Some buf"
  shows "recover_from_bytes C (log @ take (nat c) buf) = Err IntegridadContextoCorrupta"
proof -
  have "h_wal b0 = wal_new" using assms(5) by (auto simp: cn_mesh_new_def split: option.splits outcome.splits if_splits)
  then have w: "head_sha256 (h_wal b) = wal_zero"
    using run_keeps_wal [OF assms(6), of wal_new "Some b0" C] assms(7) by (simp add: wal_new_def)
  obtain pkt f rest where f: "encode_append_frame C (h_wal b) pkt = (Ok f, h_wal b')" "c = int (length f)" "o_buf ob' = Some (f @ rest)"
    by (rule seal_wal_code [OF assms(8-10)])
  then have "fits pkt" using encode_refuses [of pkt C "h_wal b"] by (cases "fits pkt") auto
  then have "take (nat c) buf = frame C wal_zero (to_bytes pkt) @ []" "length (to_bytes pkt) < 2 ^ 32"
    using f assms(11) encode_fits [of pkt C "h_wal b"] w by (auto simp: fits_def)
  moreover have "log = frames C wal_zero (logged ps)" "head_sha256 j = chain_head C wal_zero (logged ps)"
    using append_all_logged [OF assms(2,3)] by (simp_all add: wal_new_def)
  ultimately show ?thesis
    using recover_wrong_chain [OF assms(1) logged_loggable [OF assms(2)] length_wal_zero, of pkt "[]"] assms(4) by simp
qed

lemma sample_wal_call:
  obtains b' ob' f rest where "cn_mesh_seal_wal_frame toy (Some (sample_handle 1 5)) (Some [104]) 1 None 0 50 (sample_out 200) = (130 + 1, Some b', ob')"
    "o_buf ob' = Some (f @ rest)" "length f = 131"
proof -
  have c: "fst (cn_mesh_seal_wal_frame toy (Some (sample_handle 1 5)) (Some [104]) 1 None 0 50 (sample_out 200)) = 131"
    by code_simp
  obtain b' ob' where e: "cn_mesh_seal_wal_frame toy (Some (sample_handle 1 5)) (Some [104]) 1 None 0 50 (sample_out 200) = (131, Some b', ob')"
    using c by (cases "cn_mesh_seal_wal_frame toy (Some (sample_handle 1 5)) (Some [104]) 1 None 0 50 (sample_out 200)")
      (auto simp: cn_mesh_seal_wal_frame_def)
  have "o_cap (sample_out 200) < 2 ^ 31" by (simp add: sample_out_def)
  moreover have "0 \<le> (131::int)" by simp
  ultimately obtain pkt f rest where "encode_append_frame toy (h_wal (sample_handle 1 5)) pkt = (Ok f, h_wal b')" "131 = int (length f)"
    "o_buf ob' = Some (f @ rest)"
    using seal_wal_code [OF e] by blast
  with e that show thesis by simp
qed

theorem ffi_restart_breaks_log_witness:
  "\<exists>log j c b' ob' buf. append_all toy wal_new [wal_packet 0] = (log, j)
     \<and> cn_mesh_seal_wal_frame toy (Some (sample_handle 1 5)) (Some [104]) 1 None 0 50 (sample_out 200) = (c, Some b', ob') \<and> c = 131
     \<and> o_buf ob' = Some buf \<and> recover_from_bytes toy (log @ take (nat c) buf) = Err IntegridadContextoCorrupta"
proof -
  obtain log j where l: "append_all toy wal_new [wal_packet 0] = (log, j)" by fastforce
  have "compute_frame_sha256 toy wal_zero (to_bytes (wal_packet 0)) \<noteq> wal_zero" by code_simp
  then have h: "head_sha256 j \<noteq> wal_zero" using l by (auto simp: wal_new_def encode_fits)
  obtain c b' ob' buf where s: "cn_mesh_seal_wal_frame toy (Some (sample_handle 1 5)) (Some [104]) 1 None 0 50 (sample_out 200) = (c, Some b', ob')"
    "c = 131" "o_buf ob' = Some buf"
    by (rule sample_wal_call) simp
  have r: "ffi_run toy [] (Some (sample_handle 1 5)) = Some (sample_handle 1 5)" by (simp add: ffi_run_def)
  have c: "0 \<le> c" "o_cap (sample_out 200) < 2 ^ 31" by (simp_all add: s(2) sample_out_def)
  from ffi_restart_breaks_log [OF toy_hash_lengths _ l h sample_handle_new _ r s(1) c s(3)] l s
  show ?thesis by auto
qed

text \<open>
  A buffer that is too small breaks the log. \<open>cn_mesh_seal_wal_frame\<close> with less than 72 bytes of room
  returns -16 without a frame, but the journal of the handle has moved: written behind the log, the next
  frame the handle delivers makes it fail with \<open>IntegridadContextoCorrupta\<close>.
\<close>

theorem ffi_small_buffer_breaks_log:
  assumes "hash_lengths C" and "\<forall>q \<in> set ps. wf_packet q" and "append_all C wal_new ps = (log, h_wal h)"
    and "slice_from_raw p pl = Ok pt" and "slice_from_raw a al = Ok aad"
    and "seal_realtime C (h_node h) pt aad now = (Ok pkt, n)" and "fits pkt"
    and "compute_frame_sha256 C (head_sha256 (h_wal h)) (to_bytes pkt) \<noteq> head_sha256 (h_wal h)"
    and "o_len ob = Some l" and "o_cap ob < 72"
  shows "\<exists>h1 ob1. cn_mesh_seal_wal_frame C (Some h) p pl a al now ob = (- 16, Some h1, ob1)
    \<and> (\<forall>p2 pl2 now2 ob2 c h2 ob3 buf. cn_mesh_seal_wal_frame C (Some h1) p2 pl2 a al now2 ob2 = (c, Some h2, ob3)
         \<and> 0 \<le> c \<and> o_cap ob2 < 2 ^ 31 \<and> o_buf ob3 = Some buf \<longrightarrow>
         recover_from_bytes C (log @ take (nat c) buf) = Err IntegridadContextoCorrupta)"
proof -
  let ?f = "frame C (head_sha256 (h_wal h)) (to_bytes pkt)" and ?s = "compute_frame_sha256 C (head_sha256 (h_wal h)) (to_bytes pkt)"
  let ?j = "\<lparr>head_sha256 = ?s, frames_count = saturating_add (frames_count (h_wal h)) 1\<rparr>"
  let ?h1 = "h\<lparr>h_node := n, h_wal := ?j\<rparr>"
  have log: "log = frames C wal_zero (logged ps)" "head_sha256 (h_wal h) = chain_head C wal_zero (logged ps)"
    using append_all_logged [OF assms(2,3)] by (simp_all add: wal_new_def)
  have "length ?f = 72 + length (to_bytes pkt)" using length_frame [OF assms(1)] assms(1) by (simp add: log(2))
  then have w: "write_output ?f ob = (Err FfiParametroInvalido, ob\<lparr>o_len := Some (length ?f)\<rparr>)"
    using assms(9,10) by (simp add: write_output_def Let_def split: option.splits)
  have first: "cn_mesh_seal_wal_frame C (Some h) p pl a al now ob = (- 16, Some ?h1, ob\<lparr>o_len := Some (length ?f)\<rparr>)"
    by (simp add: cn_mesh_seal_wal_frame_def assms(4-6) encode_fits [OF assms(7)] w ffi_code_def)
  have "recover_from_bytes C (log @ take (nat c) buf) = Err IntegridadContextoCorrupta"
    if s: "cn_mesh_seal_wal_frame C (Some ?h1) p2 pl2 a al now2 ob2 = (c, Some h2, ob3)" "0 \<le> c" "o_cap ob2 < 2 ^ 31" "o_buf ob3 = Some buf"
    for p2 pl2 now2 ob2 c h2 ob3 buf
  proof -
    obtain pkt2 f rest where f: "encode_append_frame C (h_wal ?h1) pkt2 = (Ok f, h_wal h2)" "c = int (length f)" "o_buf ob3 = Some (f @ rest)"
      by (rule seal_wal_code [OF s(1-3)])
    then have "fits pkt2" using encode_refuses [of pkt2 C "h_wal ?h1"] by (cases "fits pkt2") auto
    then have t: "take (nat c) buf = frame C ?s (to_bytes pkt2) @ []" "length (to_bytes pkt2) < 2 ^ 32"
      using f s(4) encode_fits [of pkt2 C "h_wal ?h1"] by (auto simp: fits_def)
    have "length ?s = 32" using assms(1) by simp
    from recover_wrong_chain [OF assms(1) logged_loggable [OF assms(2)] this t(2), of "[]"] assms(8)
    show ?thesis unfolding log(1) t(1) by (simp add: log(2))
  qed
  with first show ?thesis by blast
qed

theorem ffi_small_buffer_breaks_log_witness:
  "\<exists>h1 ob1 c h2 ob3 buf. cn_mesh_seal_wal_frame toy (Some (sample_handle 1 5)) (Some [104]) 1 (Some [7]) 1 50 (sample_out 8) = (- 16, Some h1, ob1)
     \<and> cn_mesh_seal_wal_frame toy (Some h1) (Some [105]) 1 (Some [7]) 1 51 (sample_out 200) = (c, Some h2, ob3) \<and> 0 \<le> c
     \<and> o_buf ob3 = Some buf \<and> recover_from_bytes toy (take (nat c) buf) = Err IntegridadContextoCorrupta"
proof -
  let ?h = "sample_handle 1 5"
  have ev: "case fst (seal_realtime toy (h_node ?h) [104] [7] 50) of
      Ok p \<Rightarrow> compute_frame_sha256 toy wal_zero (to_bytes p) \<noteq> wal_zero \<and> fits p | _ \<Rightarrow> False"
    by code_simp
  then obtain pkt n where p: "seal_realtime toy (h_node ?h) [104] [7] 50 = (Ok pkt, n)" "fits pkt"
    "compute_frame_sha256 toy wal_zero (to_bytes pkt) \<noteq> wal_zero"
    by (cases "seal_realtime toy (h_node ?h) [104] [7] 50") (auto split: outcome.splits)
  have s: "slice_from_raw (Some [104]) 1 = Ok [104]" "slice_from_raw (Some [7]) 1 = Ok [7]" by (simp_all add: slice_from_raw_def)
  have l: "append_all toy wal_new [] = ([], h_wal ?h)" by (simp add: sample_handle_def)
  have hd: "head_sha256 (h_wal ?h) = wal_zero" by (simp add: sample_handle_def wal_new_def)
  have o: "o_len (sample_out 8) = Some 0" "o_cap (sample_out 8) < 72" by (simp_all add: sample_out_def)
  from ffi_small_buffer_breaks_log [OF toy_hash_lengths _ l s p(1,2) _ o] p(3) hd obtain h1 ob1 where
    f: "cn_mesh_seal_wal_frame toy (Some ?h) (Some [104]) 1 (Some [7]) 1 50 (sample_out 8) = (- 16, Some h1, ob1)"
      "\<forall>p2 pl2 now2 ob2 c h2 ob3 buf. cn_mesh_seal_wal_frame toy (Some h1) p2 pl2 (Some [7]) 1 now2 ob2 = (c, Some h2, ob3)
         \<and> 0 \<le> c \<and> o_cap ob2 < 2 ^ 31 \<and> o_buf ob3 = Some buf \<longrightarrow>
         recover_from_bytes toy (take (nat c) buf) = Err IntegridadContextoCorrupta" by auto
  have "fst (cn_mesh_seal_wal_frame toy (fst (snd (cn_mesh_seal_wal_frame toy (Some ?h) (Some [104]) 1 (Some [7]) 1 50 (sample_out 8))))
      (Some [105]) 1 (Some [7]) 1 51 (sample_out 200)) = 131"
    by code_simp
  then obtain h2 ob3 where g: "cn_mesh_seal_wal_frame toy (Some h1) (Some [105]) 1 (Some [7]) 1 51 (sample_out 200) = (131, Some h2, ob3)"
    unfolding f(1)
    by (cases "cn_mesh_seal_wal_frame toy (Some h1) (Some [105]) 1 (Some [7]) 1 51 (sample_out 200)")
      (auto simp: cn_mesh_seal_wal_frame_def)
  have c: "o_cap (sample_out 200) < 2 ^ 31" by (simp add: sample_out_def)
  moreover have "0 \<le> (131::int)" by simp
  ultimately obtain pkt2 fr rest where b: "encode_append_frame toy (h_wal h1) pkt2 = (Ok fr, h_wal h2)" "131 = int (length fr)"
    "o_buf ob3 = Some (fr @ rest)"
    using seal_wal_code [OF g] by blast
  have "recover_from_bytes toy (take (nat 131) (fr @ rest)) = Err IntegridadContextoCorrupta"
    using f(2) g b(3) c by (metis zero_le_numeral)
  with f(1) g b(3) show ?thesis by (metis zero_le_numeral)
qed

text \<open>
  A large result looks like an error. The length is returned as an \<open>i32\<close>: a result of 2^32 - k bytes, for k
  up to 17, is written in full and returns -k, the code of an error.
\<close>

theorem ffi_large_output_looks_like_error:
  assumes "1 \<le> k" and "k \<le> 17" and "length src = 2 ^ 32 - k" and "o_buf ob = Some b" and "o_len ob = Some l"
    and "length src \<le> o_cap ob" and "write_output src ob = (r, ob')"
  shows "ffi_code r = - int k \<and> (\<exists>e. to_ffi_code e = - int k) \<and> o_buf ob' = Some (src @ drop (length src) b)"
proof -
  have "2 ^ 31 \<le> length src" "length src < 2 ^ 32" using assms(1-3) by simp_all
  then have c: "as_i32 (length src) = - int k" using as_i32_large [of "length src"] assms(2,3) by (simp add: of_nat_diff)
  let ?es = "[Base64 [], PaqueteCorrupto, VersionNoSoportada 0, Autenticacion, Utf8, Cifrado, SemillaInvalida, EnlaceInvalido,
    ModoInvalido, Repetido, FueraDeOrden, EstadoSinReanudar, TiempoExpiradoOInvalido, AadDemasiadoLargo,
    IntegridadContextoCorrupta, FfiParametroInvalido, Io []]"
  have "list_all (\<lambda>m. to_ffi_code (?es ! (m - 1)) = - int m) [1..<18]" by code_simp
  moreover have "k \<in> set [1..<18]" using assms(1,2) by simp
  ultimately have "\<exists>e. to_ffi_code e = - int k" unfolding list_all_iff by blast
  with assms c show ?thesis by (auto simp: write_output_def Let_def ffi_code_def)
qed

theorem ffi_large_output_looks_like_error_witness:
  "\<exists>src ob r ob'. length src = 2 ^ 32 - 10 \<and> write_output src ob = (r, ob') \<and> ffi_code r = - 10 \<and> o_buf ob' = Some src"
proof -
  define src :: bytes where "src = replicate (2 ^ 32 - 10) 0"
  define ob where "ob = \<lparr>o_buf = Some [], o_cap = 2 ^ 32, o_len = Some 0\<rparr>"
  have l: "length src = 2 ^ 32 - 10" unfolding src_def by (rule length_replicate)
  obtain r ob' where w: "write_output src ob = (r, ob')" by fastforce
  have "1 \<le> (10::nat)" "(10::nat) \<le> 17" "o_buf ob = Some []" "o_len ob = Some 0" "length src \<le> o_cap ob"
    unfolding l ob_def by simp_all
  from ffi_large_output_looks_like_error [OF this(1,2) l this(3-5) w]
  have "ffi_code r = - 10" "o_buf ob' = Some src" by simp_all
  with l w show ?thesis by blast
qed

end
