(* ===== verification/Concurrency.thy ===== *)
theory Concurrency
  imports Checkpoint
begin

text \<open>
  Concurrent calls on one mesh node (\<open>src/modes/chrono.rs\<close>). The methods take \<open>&self\<close>: the epoch and the
  sequence counter are atomics and the receiving state is behind a mutex, so threads may interleave
  between the accesses. Here a call is a task that makes one access per step: \<open>seal_realtime\<close> loads the
  epoch, draws a sequence, and folds the packet in under the lock; \<open>open_realtime\<close> checks the window under
  the lock, and after decrypting checks it again and records under a second lock; \<open>restore_checkpoint\<close>
  loads the epoch, stores it, stores the sequence, and replaces the receiving state; \<open>export_checkpoint\<close> is one
  step, because it holds the lock from copying the receiving state until both counters are loaded (this is
  exact while no restore stores them). A section under the lock is one step here; the theory \<open>Locking\<close>
  has the lock itself and shows that nothing is lost by that. A step of the
  system is a step of any task. Accesses take effect in the order of the steps; the code loads the epoch
  with \<open>Acquire\<close> and draws with \<open>Relaxed\<close>, and while no restore runs the epoch does not change, so a
  weaker order could not be observed.
\<close>

section \<open>The steps of a call\<close>

datatype task =
    SealStart bytes bytes u64
  | SealDraw u64 bytes bytes u64
  | SealFold packet
  | OpenStart packet bytes u64
  | OpenRecord packet bytes
  | RestoreStart bytes bytes
  | RestoreEpoch saved_state u64
  | RestoreSeq saved_state
  | RestoreRx saved_state
  | ExportStart bytes bytes
  | Sealed "packet outcome"
  | Opened "bytes outcome"
  | Restored "unit outcome"
  | Exported "bytes outcome"

text \<open>\<open>open_realtime\<close> up to the decryption, with its first lock, and from the second lock on.\<close>

definition open_guard :: "crypto \<Rightarrow> mesh_node \<Rightarrow> packet \<Rightarrow> bytes \<Rightarrow> u64 \<Rightarrow> bytes outcome" where
  "open_guard C n packet user_aad now_ms =
     (if p_version packet \<noteq> WIRE_VERSION_V3 then Err (VersionNoSoportada (p_version packet))
      else if max_time_drift_ms n < abs_diff now_ms (p_timestamp_ms packet) then Err TiempoExpiradoOInvalido
      else case lock_rx n of
        None \<Rightarrow> Err Autenticacion
      | Some guard \<Rightarrow>
          bindO (case btree_get (peers guard) (peer_key_of packet) of
                   Some peer \<Rightarrow> peer_check peer (p_sequence packet) (replay_window n)
                 | None \<Rightarrow> Ok ()) (\<lambda>_. decrypt_v3 C n packet user_aad))"

definition open_record :: "crypto \<Rightarrow> mesh_node \<Rightarrow> packet \<Rightarrow> bytes \<Rightarrow> bytes outcome \<times> mesh_node" where
  "open_record C n packet plaintext =
     (case lock_rx n of
        None \<Rightarrow> (Err Autenticacion, n)
      | Some guard \<Rightarrow>
        (let peer = (case btree_get (peers guard) (peer_key_of packet) of Some s \<Rightarrow> s | None \<Rightarrow> peer_default)
         in case peer_check peer (p_sequence packet) (replay_window n) of
              Err e \<Rightarrow> (Err e, n\<lparr>m_rx_state := guard\<lparr>peers := btree_insert (peers guard) (peer_key_of packet) peer\<rparr>\<rparr>)
            | Panic \<Rightarrow> (Panic, n\<lparr>m_poisoned := True\<rparr>)
            | Ok _ \<Rightarrow>
              (let peer' = peer_record peer (p_sequence packet) (replay_window n);
                   guard2 = guard\<lparr>peers := btree_insert (peers guard) (peer_key_of packet) peer'\<rparr>
               in (Ok plaintext, n\<lparr>m_rx_state := fold_in C packet guard2\<rparr>))))"

fun task_step :: "crypto \<Rightarrow> task \<Rightarrow> mesh_node \<Rightarrow> task \<times> mesh_node" where
  "task_step C (SealStart plaintext user_aad now_ms) n = (SealDraw (m_epoch n) plaintext user_aad now_ms, n)"
| "task_step C (SealDraw epoch plaintext user_aad now_ms) n =
     (let seq = m_tx_seq n; n1 = n\<lparr>m_tx_seq := m_tx_seq n + 1\<rparr>
      in case seal_at C n epoch seq plaintext user_aad now_ms of
           Err e \<Rightarrow> (Sealed (Err e), n1) | Panic \<Rightarrow> (Sealed Panic, n1) | Ok packet \<Rightarrow> (SealFold packet, n1))"
| "task_step C (SealFold packet) n =
     (Sealed (Ok packet), case lock_rx n of None \<Rightarrow> n | Some rx \<Rightarrow> n\<lparr>m_rx_state := fold_in C packet rx\<rparr>)"
| "task_step C (OpenStart packet user_aad now_ms) n =
     (case open_guard C n packet user_aad now_ms of
        Err e \<Rightarrow> (Opened (Err e), n) | Panic \<Rightarrow> (Opened Panic, n) | Ok plaintext \<Rightarrow> (OpenRecord packet plaintext, n))"
| "task_step C (OpenRecord packet plaintext) n = (case open_record C n packet plaintext of (r, n') \<Rightarrow> (Opened r, n'))"
| "task_step C (RestoreStart bs wrap_key) n =
     (case read_checkpoint C n bs wrap_key of
        Err e \<Rightarrow> (Restored (Err e), n) | Panic \<Rightarrow> (Restored Panic, n)
      | Ok st \<Rightarrow> (RestoreEpoch st (max (m_epoch n) (saturating_add (saved_epoch st) 1)), n))"
| "task_step C (RestoreEpoch st new_epoch) n = (RestoreSeq st, n\<lparr>m_epoch := new_epoch\<rparr>)"
| "task_step C (RestoreSeq st) n = (RestoreRx st, n\<lparr>m_tx_seq := saved_tx_seq st\<rparr>)"
| "task_step C (RestoreRx st) n =
     (case lock_rx n of
        None \<Rightarrow> (Restored (Err Cifrado), n)
      | Some guard \<Rightarrow>
          (Restored (Ok ()), n\<lparr>m_rx_state := guard\<lparr>peers := saved_peers st, multiset_integrity_hash := saved_hash st\<rparr>\<rparr>))"
| "task_step C (ExportStart rnd wrap_key) n = (Exported (export_checkpoint C rnd n wrap_key), n)"
| "task_step C t n = (t, n)"

text \<open>The steps a call has left, at most; a call with none left is finished.\<close>

fun steps_left :: "task \<Rightarrow> nat" where
  "steps_left (SealStart pt aad now) = 3"
| "steps_left (SealDraw e pt aad now) = 2"
| "steps_left (SealFold p) = 1"
| "steps_left (OpenStart p aad now) = 2"
| "steps_left (OpenRecord p pt) = 1"
| "steps_left (RestoreStart bs wrap) = 4"
| "steps_left (RestoreEpoch st e) = 3"
| "steps_left (RestoreSeq st) = 2"
| "steps_left (RestoreRx st) = 1"
| "steps_left (ExportStart rnd wrap) = 1"
| "steps_left t = 0"

definition finished :: "task \<Rightarrow> bool" where
  "finished t \<longleftrightarrow> steps_left t = 0"

type_synonym system = "task list \<times> mesh_node"

inductive sys_step :: "crypto \<Rightarrow> system \<Rightarrow> system \<Rightarrow> bool" for C where
  run: "i < length ts \<Longrightarrow> \<not> finished (ts ! i) \<Longrightarrow> task_step C (ts ! i) n = (t, n') \<Longrightarrow>
    sys_step C (ts, n) (ts[i := t], n')"

inductive_cases sys_stepE [elim]: "sys_step C (ts, n) s"

inductive sys_reach :: "crypto \<Rightarrow> system \<Rightarrow> nat \<Rightarrow> system \<Rightarrow> bool" for C s0 where
  start: "sys_reach C s0 0 s0"
| step: "sys_reach C s0 k s \<Longrightarrow> sys_step C s t \<Longrightarrow> sys_reach C s0 (Suc k) t"

text \<open>A call run to its end without interference.\<close>

fun run_alone :: "crypto \<Rightarrow> nat \<Rightarrow> task \<Rightarrow> mesh_node \<Rightarrow> task \<times> mesh_node" where
  "run_alone C 0 t n = (t, n)"
| "run_alone C (Suc k) t n = (case task_step C t n of (t', n') \<Rightarrow> run_alone C k t' n')"

lemma finished_simps [simp]:
  "\<not> finished (SealStart pt aad now)" "\<not> finished (SealDraw e pt aad now)" "\<not> finished (SealFold p)"
  "\<not> finished (OpenStart p aad now)" "\<not> finished (OpenRecord p pt)" "\<not> finished (RestoreStart bs wrap)"
  "\<not> finished (RestoreEpoch st e)" "\<not> finished (RestoreSeq st)" "\<not> finished (RestoreRx st)" "\<not> finished (ExportStart rnd wrap)"
  "finished (Sealed r)" "finished (Opened m)" "finished (Restored u)" "finished (Exported v)"
  by (simp_all add: finished_def)

lemma run_alone_finished [simp]: "finished t \<Longrightarrow> run_alone C k t n = (t, n)"
  by (induction k) (cases t; simp)+

lemma open_realtime_split:
  "open_realtime C n p aad now =
     (case open_guard C n p aad now of Err e \<Rightarrow> (Err e, n) | Panic \<Rightarrow> (Panic, n) | Ok pt \<Rightarrow> open_record C n p pt)"
proof (cases "lock_rx n")
  case None
  then show ?thesis by (simp add: open_realtime_def open_guard_def)
next
  case (Some g)
  then show ?thesis
    by (cases "case btree_get (peers g) (peer_key_of p) of Some peer \<Rightarrow> peer_check peer (p_sequence p) (replay_window n) | None \<Rightarrow> Ok ()";
        cases "decrypt_v3 C n p aad")
      (simp_all add: open_realtime_def open_guard_def open_record_def)
qed

text \<open>Without interference the steps of a call are its method, and four steps suffice.\<close>

lemma run_alone_methods:
  "run_alone C 4 (SealStart pt aad now) n = map_prod Sealed id (seal_realtime C n pt aad now)"
  "run_alone C 4 (OpenStart p aad now) n = map_prod Opened id (open_realtime C n p aad now)"
  "run_alone C 4 (RestoreStart bs wrap) n = map_prod Restored id (restore_checkpoint C n bs wrap)"
  "run_alone C 4 (ExportStart rnd wrap) n = (Exported (export_checkpoint C rnd n wrap), n)"
proof -
  have four: "run_alone C 4 t m = run_alone C (Suc (Suc (Suc (Suc 0)))) t m" for t m by (simp add: numeral_eq_Suc)
  show "run_alone C 4 (SealStart pt aad now) n = map_prod Sealed id (seal_realtime C n pt aad now)"
    unfolding four by (cases "m_poisoned n"; cases "seal_at C n (m_epoch n) (m_tx_seq n) pt aad now")
      (simp_all add: seal_realtime_def lock_rx_def)
  show "run_alone C 4 (OpenStart p aad now) n = map_prod Opened id (open_realtime C n p aad now)"
    unfolding four by (cases "open_guard C n p aad now") (simp_all add: open_realtime_split split: prod.splits)
  show "run_alone C 4 (ExportStart rnd wrap) n = (Exported (export_checkpoint C rnd n wrap), n)"
    unfolding four by simp
  show "run_alone C 4 (RestoreStart bs wrap) n = map_prod Restored id (restore_checkpoint C n bs wrap)"
    unfolding four by (cases "m_poisoned n"; cases "read_checkpoint C n bs wrap") (simp_all add: restore_checkpoint_def lock_rx_def)
qed

section \<open>Calls and their sequential runs\<close>

fun call_task :: "mesh_call \<Rightarrow> task" where
  "call_task (Seal pt aad now) = SealStart pt aad now"
| "call_task (Open p aad now) = OpenStart p aad now"

fun call_once :: "crypto \<Rightarrow> mesh_node \<Rightarrow> mesh_call \<Rightarrow> task \<times> mesh_node" where
  "call_once C n (Seal pt aad now) = (case seal_realtime C n pt aad now of (r, n') \<Rightarrow> (Sealed r, n'))"
| "call_once C n (Open p aad now) = (case open_realtime C n p aad now of (r, n') \<Rightarrow> (Opened r, n'))"

fun seq_run :: "crypto \<Rightarrow> mesh_node \<Rightarrow> mesh_call list \<Rightarrow> task list \<times> mesh_node" where
  "seq_run C n [] = ([], n)"
| "seq_run C n (c # cs) = (case call_once C n c of (r, n') \<Rightarrow> case seq_run C n' cs of (rs, n'') \<Rightarrow> (r # rs, n''))"

lemma seq_run_snoc:
  "seq_run C n (cs @ [c]) = (case seq_run C n cs of (rs, m) \<Rightarrow> case call_once C m c of (r, m') \<Rightarrow> (rs @ [r], m'))"
  by (induction cs arbitrary: n) (simp_all split: prod.splits)

text \<open>The node as it will be when the packets drawn but not yet folded in have been folded in.\<close>

definition folded :: "crypto \<Rightarrow> packet list \<Rightarrow> mesh_node \<Rightarrow> mesh_node" where
  "folded C ps n = (if m_poisoned n then n else n\<lparr>m_rx_state := (m_rx_state n)
     \<lparr>multiset_integrity_hash := integrity C ps (multiset_integrity_hash (m_rx_state n))\<rparr>\<rparr>)"

fun folding :: "task \<Rightarrow> packet list" where
  "folding (SealFold p) = [p]"
| "folding t = []"

definition awaiting :: "task list \<Rightarrow> packet multiset" where
  "awaiting ts = mset (concat (map folding ts))"

lemma awaiting_update: "i < length ts \<Longrightarrow> awaiting (ts[i := t]) + mset (folding (ts ! i)) = awaiting ts + mset (folding t)"
proof (induction ts arbitrary: i)
  case (Cons x ts)
  then show ?case by (cases i) (auto simp: awaiting_def ac_simps)
qed simp

lemma awaiting_same: "i < length ts \<Longrightarrow> folding (ts ! i) = folding t \<Longrightarrow> awaiting (ts[i := t]) = awaiting ts"
  using awaiting_update [of i ts t] by simp

lemma awaiting_start: "awaiting (map call_task cs) = {#}"
proof -
  have "folding (call_task c) = []" for c by (cases c) simp_all
  then show ?thesis by (simp add: awaiting_def)
qed

lemma awaiting_finished: "\<forall>t \<in> set ts. finished t \<Longrightarrow> awaiting ts = {#}"
proof -
  have "folding t = []" if "finished t" for t using that by (cases t) simp_all
  then show "\<forall>t \<in> set ts. finished t \<Longrightarrow> awaiting ts = {#}" by (simp add: awaiting_def)
qed

section \<open>Every interleaving has a sequential order\<close>

lemma integrity_Cons: "integrity C ps (fold_packet_into_integrity_hash C h p) = fold_packet_into_integrity_hash C (integrity C ps h) p"
  using fun_cong [OF integrity_mset [of "p # ps" "ps @ [p]" C], of h] by (simp add: integrity_def)

lemma folded_fields [simp]:
  "m_epoch (folded C ps n) = m_epoch n" "m_tx_seq (folded C ps n) = m_tx_seq n" "m_poisoned (folded C ps n) = m_poisoned n"
  "replay_window (folded C ps n) = replay_window n" "max_time_drift_ms (folded C ps n) = max_time_drift_ms n"
  "peers (m_rx_state (folded C ps n)) = peers (m_rx_state n)" "peer_of (folded C ps n) k = peer_of n k"
  by (simp_all add: folded_def peer_of_def)

lemma folded_config: "same_config n (folded C ps n)"
  by (simp add: folded_def same_config_def same_keys_def)

lemma folded_Nil [simp]: "folded C [] n = n"
  by (simp add: folded_def integrity_def)

lemma folded_mset: "mset ps = mset qs \<Longrightarrow> folded C ps = folded C qs"
  using integrity_mset [of ps qs C] by (intro ext) (simp add: folded_def)

lemma folded_tick: "folded C ps (n\<lparr>m_tx_seq := s\<rparr>) = (folded C ps n)\<lparr>m_tx_seq := s\<rparr>"
  by (simp add: folded_def)

lemma folded_sealed: "folded C (p # ps) (n\<lparr>m_tx_seq := m_tx_seq n + 1\<rparr>) = sealed_node C (folded C ps n) p"
proof -
  have "integrity C (p # ps) h = integrity C ps (fold_packet_into_integrity_hash C h p)" for h
    by (simp add: integrity_def)
  then show ?thesis by (simp add: folded_def sealed_node_def fold_in_def Let_def integrity_Cons)
qed

lemma folded_fold: "task_step C (SealFold p) n = (t, n') \<Longrightarrow> t = Sealed (Ok p) \<and> folded C (p # ps) n = folded C ps n'"
  by (auto simp: folded_def lock_rx_def fold_in_def integrity_def)

lemma folded_accepted: "\<not> m_poisoned n \<Longrightarrow> folded C ps (accepted_node C n p) = accepted_node C (folded C ps n) p"
  using integrity_Cons [of C ps _ p] by (simp add: folded_def accepted_node_def fold_in_def Let_def peer_of_def)

text \<open>The two halves of an open, in terms of the whole.\<close>

lemma open_guard_folded: "open_guard C (folded C ps n) p aad now = open_guard C n p aad now"
  using decrypt_same_keys [of n "folded C ps n" C] folded_config [of n C ps]
  by (simp add: open_guard_def lock_rx_def same_config_def cong: option.case_cong)

lemma open_guard_Ok_iff:
  "open_guard C n p aad now = Ok pt \<longleftrightarrow> chrono_genuine C n (p, aad, now) \<and> decrypt_v3 C n p aad = Ok pt
     \<and> peer_check (peer_of n (peer_key_of p)) (p_sequence p) (replay_window n) = Ok ()"
  by (auto simp: open_guard_def lock_rx_def chrono_genuine_def bindO_Ok_iff peer_of_def peer_check_default not_less split: option.splits)

lemma open_guard_not_Panic: "open_guard C n p aad now \<noteq> Panic"
  using decrypt_v3_not_Panic [of C n p aad]
  by (auto simp: open_guard_def lock_rx_def bindO_Panic_iff peer_check_not_Panic split: option.splits)

lemma btree_insert_same: "btree_ok m \<Longrightarrow> btree_get m k = Some v \<Longrightarrow> btree_insert m k v = m"
  by (rule btree_ext) (auto simp: btree_insert_ok btree_insert_get)

lemma open_record_cases:
  assumes "\<not> m_poisoned n" "btree_ok (peers (m_rx_state n))"
  obtains (accepted) "open_record C n p pt = (Ok pt, accepted_node C n p)"
      "peer_check (peer_of n (peer_key_of p)) (p_sequence p) (replay_window n) = Ok ()"
  | (refused) e where "open_record C n p pt = (Err e, n)"
      "peer_check (peer_of n (peer_key_of p)) (p_sequence p) (replay_window n) = Err e"
proof (cases "peer_check (peer_of n (peer_key_of p)) (p_sequence p) (replay_window n)")
  case (Ok u)
  then show thesis
    by (intro accepted) (simp_all add: open_record_def lock_rx_def accepted_node_def Let_def assms(1) peer_of_def)
next
  case (Err e)
  then obtain s where s: "btree_get (peers (m_rx_state n)) (peer_key_of p) = Some s"
    by (cases "btree_get (peers (m_rx_state n)) (peer_key_of p)") (auto simp: peer_of_def peer_check_default)
  show thesis
    by (rule refused [OF _ Err])
      (use Err in \<open>simp add: open_record_def lock_rx_def assms(1) s peer_of_def btree_insert_same [OF assms(2) s]\<close>)
qed (simp add: peer_check_not_Panic)

lemma open_refused:
  assumes "chrono_genuine C n (p, aad, now)" "peer_check (peer_of n (peer_key_of p)) (p_sequence p) (replay_window n) = Err e"
  shows "open_realtime C n p aad now = (Err e, n)"
  using assms by (auto simp: open_realtime_split open_guard_def chrono_genuine_def lock_rx_def peer_of_def peer_check_default
      split: option.splits)

text \<open>
  The simulation. A call takes its place in the order when it draws its sequence, when its first check
  or the decryption refuses the packet, or when it records the packet. \<open>order\<close> lists the calls that have
  taken their place, \<open>decided\<close> is the result of such a call, and \<open>waiting\<close> what is known of the others.
\<close>

fun decided :: "task \<Rightarrow> task option" where
  "decided (Sealed r) = Some (Sealed r)"
| "decided (SealFold p) = Some (Sealed (Ok p))"
| "decided (Opened m) = Some (Opened m)"
| "decided t = None"

fun waiting :: "crypto \<Rightarrow> mesh_node \<Rightarrow> mesh_call \<Rightarrow> task \<Rightarrow> bool" where
  "waiting C n (Seal pt aad now) t \<longleftrightarrow> t = SealStart pt aad now \<or> t = SealDraw (m_epoch n) pt aad now"
| "waiting C n (Open p aad now) t \<longleftrightarrow> t = OpenStart p aad now
     \<or> (\<exists>pt. t = OpenRecord p pt \<and> chrono_genuine C n (p, aad, now) \<and> decrypt_v3 C n p aad = Ok pt)"

definition in_order :: "crypto \<Rightarrow> mesh_call list \<Rightarrow> mesh_node \<Rightarrow> nat list \<Rightarrow> system \<Rightarrow> bool" where
  "in_order C cs n0 order s \<longleftrightarrow> (case s of (ts, n) \<Rightarrow>
     length ts = length cs \<and> distinct order \<and> set order \<subseteq> {..<length cs} \<and> btree_ok (peers (m_rx_state n))
     \<and> (\<exists>rs ps. seq_run C n0 (map ((!) cs) order) = (rs, folded C ps n) \<and> mset ps = awaiting ts
          \<and> map (\<lambda>i. decided (ts ! i)) order = map Some rs)
     \<and> (\<forall>i < length cs. i \<notin> set order \<longrightarrow> waiting C n (cs ! i) (ts ! i)))"

lemma waiting_frame: "same_config n m \<Longrightarrow> m_epoch m = m_epoch n \<Longrightarrow> waiting C n c t \<Longrightarrow> waiting C m c t"
  using genuine_same_config [of n m C] decrypt_same_keys [of n m C] by (cases c) (auto simp: same_config_def)

text \<open>A step of a call that has its place already, or does not take it yet; and one that takes it.\<close>

lemma in_order_stutter:
  assumes "in_order C cs n0 order (ts, n)" "i < length ts" "decided t = decided (ts ! i)"
    and "same_config n n'" "m_epoch n' = m_epoch n" "peers (m_rx_state n') = peers (m_rx_state n)"
    and "i \<notin> set order \<Longrightarrow> waiting C n (cs ! i) t"
    and "\<And>ps. mset ps = awaiting ts \<Longrightarrow> \<exists>qs. mset qs = awaiting (ts[i := t]) \<and> folded C qs n' = folded C ps n"
  shows "in_order C cs n0 order (ts[i := t], n')"
proof -
  obtain rs ps where r: "seq_run C n0 (map ((!) cs) order) = (rs, folded C ps n)" "mset ps = awaiting ts"
    "map (\<lambda>i. decided (ts ! i)) order = map Some rs"
    using assms(1) by (auto simp: in_order_def)
  obtain qs where q: "mset qs = awaiting (ts[i := t])" "folded C qs n' = folded C ps n" using assms(8) [OF r(2)] by blast
  from r(1) have "seq_run C n0 (map ((!) cs) order) = (rs, folded C qs n')" by (simp only: q(2))
  moreover have "map (\<lambda>j. decided (ts[i := t] ! j)) order = map Some rs"
    unfolding r(3) [symmetric] using assms(2,3) by (intro map_cong refl) (simp add: nth_list_update)
  moreover have "waiting C n' (cs ! j) (ts[i := t] ! j)" if "j < length cs" "j \<notin> set order" for j
    using that assms(1,2,7) waiting_frame [OF assms(4,5)] by (auto simp: in_order_def nth_list_update)
  ultimately show ?thesis using assms(1,6) q(1) unfolding in_order_def prod.case by (metis length_list_update)
qed

lemma in_order_take:
  assumes "in_order C cs n0 order (ts, n)" "i < length ts" "i \<notin> set order" "folding (ts ! i) = []"
    and "same_config n n'" "m_epoch n' = m_epoch n" "btree_ok (peers (m_rx_state n'))"
    and "\<And>ps. \<exists>r. call_once C (folded C ps n) (cs ! i) = (r, folded C (folding t @ ps) n') \<and> decided t = Some r"
  shows "in_order C cs n0 (order @ [i]) (ts[i := t], n')"
proof -
  obtain rs ps where r: "seq_run C n0 (map ((!) cs) order) = (rs, folded C ps n)" "mset ps = awaiting ts"
    "map (\<lambda>i. decided (ts ! i)) order = map Some rs"
    using assms(1) by (auto simp: in_order_def)
  obtain r where c: "call_once C (folded C ps n) (cs ! i) = (r, folded C (folding t @ ps) n')" "decided t = Some r"
    using assms(8) by blast
  have "seq_run C n0 (map ((!) cs) (order @ [i])) = (rs @ [r], folded C (folding t @ ps) n')"
    using r(1) c(1) by (simp add: seq_run_snoc)
  moreover have "mset (folding t @ ps) = awaiting (ts[i := t])"
    using awaiting_update [OF assms(2), of t] assms(4) r(2) by simp
  moreover have "map (\<lambda>j. decided (ts[i := t] ! j)) (order @ [i]) = map Some (rs @ [r])"
  proof -
    have "map (\<lambda>j. decided (ts[i := t] ! j)) order = map (\<lambda>j. decided (ts ! j)) order"
      using assms(3) by (intro map_cong refl) (metis nth_list_update_neq)
    then show ?thesis using r(3) c(2) assms(2) by simp
  qed
  moreover have "waiting C n' (cs ! j) (ts[i := t] ! j)" if "j < length cs" "j \<notin> set (order @ [i])" for j
    using that assms(1,2) waiting_frame [OF assms(5,6)] by (auto simp: in_order_def)
  ultimately show ?thesis using assms(1-3,7) unfolding in_order_def prod.case by auto
qed

lemma in_order_SealFold:
  assumes "in_order C cs n0 order (ts, n)" "i < length ts" "ts ! i = SealFold p" "task_step C (SealFold p) n = (t, n')"
  shows "in_order C cs n0 order (ts[i := t], n')"
proof (rule in_order_stutter [OF assms(1,2)])
  note f = folded_fold [OF assms(4)]
  then show "decided t = decided (ts ! i)" by (simp add: assms(3))
  show "same_config n n'" "m_epoch n' = m_epoch n" "peers (m_rx_state n') = peers (m_rx_state n)"
    using assms(4) by (cases "m_poisoned n"; auto simp: same_config_def same_keys_def fold_in_def lock_rx_def)+
  show "waiting C n (cs ! i) t" if "i \<notin> set order"
    using that assms(1-3) by (cases "cs ! i") (auto simp: in_order_def)
  show "\<exists>qs. mset qs = awaiting (ts[i := t]) \<and> folded C qs n' = folded C ps n" if "mset ps = awaiting ts" for ps
  proof -
    have "mset ps = add_mset p (awaiting (ts[i := t]))" using awaiting_update [OF assms(2), of t] that f by (simp add: assms(3))
    moreover obtain qs where q: "mset qs = awaiting (ts[i := t])" using ex_mset by blast
    ultimately have "folded C ps = folded C (p # qs)" by (intro folded_mset) simp
    with f q show ?thesis by metis
  qed
qed

lemma in_order_Seal:
  assumes "in_order C cs n0 order (ts, n)" "i < length ts" "i \<notin> set order" "cs ! i = Seal pt aad now"
    and "\<not> finished (ts ! i)" "task_step C (ts ! i) n = (t, n')"
  shows "\<exists>order'. in_order C cs n0 order' (ts[i := t], n')"
proof -
  have "waiting C n (cs ! i) (ts ! i)" using assms(1-3) by (simp add: in_order_def)
  then consider (start) "ts ! i = SealStart pt aad now" | (draw) "ts ! i = SealDraw (m_epoch n) pt aad now"
    using assms(4) by auto
  then show ?thesis
  proof cases
    case start
    then have t: "t = SealDraw (m_epoch n) pt aad now" "n' = n" using assms(6) by auto
    have "in_order C cs n0 order (ts[i := t], n')"
      by (rule in_order_stutter [OF assms(1,2)])
        (use start t assms(2,4) awaiting_same [OF assms(2), of t] in \<open>auto simp: same_config_def same_keys_def\<close>)
    then show ?thesis ..
  next
    case draw
    let ?n1 = "n\<lparr>m_tx_seq := m_tx_seq n + 1\<rparr>"
    have n': "n' = ?n1" using assms(6) draw by (auto simp: Let_def split: outcome.splits)
    have "in_order C cs n0 (order @ [i]) (ts[i := t], n')"
    proof (rule in_order_take [OF assms(1-3)])
      show "folding (ts ! i) = []" by (simp add: draw)
      show "same_config n n'" "m_epoch n' = m_epoch n" by (simp_all add: n' tick_config)
      show "btree_ok (peers (m_rx_state n'))" using assms(1) by (simp add: n' in_order_def)
      fix ps
      have at: "seal_at C (folded C ps n) e s pt aad now = seal_at C n e s pt aad now" for e s
        by (rule seal_at_config [OF folded_config, symmetric])
      show "\<exists>r. call_once C (folded C ps n) (cs ! i) = (r, folded C (folding t @ ps) n') \<and> decided t = Some r"
      proof (cases rule: seal_realtime_cases [where C = C and n = "folded C ps n" and pt = pt and aad = aad and now = now])
        case (sealed p)
        then have "t = SealFold p" using assms(6) draw at by simp
        then show ?thesis using sealed(1) folded_sealed [of C p ps n] by (simp add: assms(4) n')
      next
        case (failed e)
        then have "t = Sealed (Err e)" using assms(6) draw at by simp
        then show ?thesis using failed(1) by (simp add: assms(4) n' folded_tick)
      qed
    qed
    then show ?thesis ..
  qed
qed

lemma in_order_Open:
  assumes "in_order C cs n0 order (ts, n)" "i < length ts" "i \<notin> set order" "cs ! i = Open p aad now"
    and "\<not> finished (ts ! i)" "task_step C (ts ! i) n = (t, n')"
  shows "\<exists>order'. in_order C cs n0 order' (ts[i := t], n')"
proof -
  have ok: "btree_ok (peers (m_rx_state n))" using assms(1) by (simp add: in_order_def)
  have "waiting C n (cs ! i) (ts ! i)" using assms(1-3) by (simp add: in_order_def)
  then consider (start) "ts ! i = OpenStart p aad now"
    | (second) pt where "ts ! i = OpenRecord p pt" "chrono_genuine C n (p, aad, now)" "decrypt_v3 C n p aad = Ok pt"
    using assms(4) by auto
  then show ?thesis
  proof cases
    case start
    show ?thesis
    proof (cases "open_guard C n p aad now")
      case (Ok pt)
      then have t: "t = OpenRecord p pt" "n' = n" using assms(6) start by simp_all
      have "in_order C cs n0 order (ts[i := t], n')"
        by (rule in_order_stutter [OF assms(1,2)])
          (use start t assms(2,4) Ok open_guard_Ok_iff awaiting_same [OF assms(2), of t]
            in \<open>auto simp: same_config_def same_keys_def\<close>)
      then show ?thesis ..
    next
      case (Err e)
      then have t: "t = Opened (Err e)" "n' = n" using assms(6) start by simp_all
      have "in_order C cs n0 (order @ [i]) (ts[i := t], n')"
        by (rule in_order_take [OF assms(1-3)])
          (use start t ok Err in \<open>simp_all add: assms(4) same_config_def same_keys_def open_realtime_split open_guard_folded\<close>)
      then show ?thesis ..
    qed (simp add: open_guard_not_Panic)
  next
    case second
    from second(2) have live: "\<not> m_poisoned n" by (simp add: chrono_genuine_def)
    have gen: "chrono_genuine C (folded C ps n) (p, aad, now)" "decrypt_v3 C (folded C ps n) p aad = Ok pt" for ps
      using second(2,3) genuine_same_config [OF folded_config, of C n C ps] decrypt_same_keys [of n "folded C ps n" C]
        folded_config [of n C ps] by (simp_all add: same_config_def)
    show ?thesis
    proof (rule open_record_cases [OF live ok, of C p pt])
      assume accepted: "open_record C n p pt = (Ok pt, accepted_node C n p)"
        "peer_check (peer_of n (peer_key_of p)) (p_sequence p) (replay_window n) = Ok ()"
      then have t: "t = Opened (Ok pt)" "n' = accepted_node C n p" using assms(6) second(1) by simp_all
      have "open_realtime C (folded C ps n) p aad now = (Ok pt, accepted_node C (folded C ps n) p)" for ps
        by (rule open_realtime_accepts [OF gen]) (simp add: accepted(2))
      moreover have "btree_ok (peers (m_rx_state n'))"
        using ok by (simp add: t accepted_node_def Let_def fold_in_def btree_insert_ok)
      ultimately have "in_order C cs n0 (order @ [i]) (ts[i := t], n')"
        by (intro in_order_take [OF assms(1-3)])
          (use second t live in \<open>simp_all add: assms(4) accepted_node_config folded_accepted\<close>)
      then show ?thesis ..
    next
      fix e
      assume refused: "open_record C n p pt = (Err e, n)"
        "peer_check (peer_of n (peer_key_of p)) (p_sequence p) (replay_window n) = Err e"
      then have t: "t = Opened (Err e)" "n' = n" using assms(6) second(1) by simp_all
      have "open_realtime C (folded C ps n) p aad now = (Err e, folded C ps n)" for ps
        by (rule open_refused [OF gen(1)]) (simp add: refused(2))
      then have "in_order C cs n0 (order @ [i]) (ts[i := t], n')"
        by (intro in_order_take [OF assms(1-3)])
          (use second t ok in \<open>simp_all add: assms(4) same_config_def same_keys_def\<close>)
      then show ?thesis ..
    qed
  qed
qed

lemma in_order_step:
  assumes "in_order C cs n0 order (ts, n)" "sys_step C (ts, n) s"
  shows "\<exists>order'. in_order C cs n0 order' s"
proof -
  obtain i t n' where s: "s = (ts[i := t], n')" "i < length ts" "\<not> finished (ts ! i)" "task_step C (ts ! i) n = (t, n')"
    using assms(2) by auto
  show ?thesis
  proof (cases "i \<in> set order")
    case True
    obtain rs where "map (\<lambda>i. decided (ts ! i)) order = map Some rs" using assms(1) by (auto simp: in_order_def)
    then have "decided (ts ! i) \<in> set (map Some rs)" using True by (metis image_eqI set_map)
    then obtain p where "ts ! i = SealFold p" using s(3) by (cases "ts ! i") auto
    with in_order_SealFold [OF assms(1) s(2) this] s(1,4) show ?thesis by auto
  next
    case False
    then show ?thesis
      using in_order_Seal [OF assms(1) s(2) False _ s(3,4)] in_order_Open [OF assms(1) s(2) False _ s(3,4)]
      by (cases "cs ! i") (simp_all add: s(1))
  qed
qed

lemma in_order_start: "btree_ok (peers (m_rx_state n0)) \<Longrightarrow> in_order C cs n0 [] (map call_task cs, n0)"
proof -
  have "waiting C n0 c (call_task c)" for c by (cases c) simp_all
  then show "btree_ok (peers (m_rx_state n0)) \<Longrightarrow> ?thesis"
    by (auto simp: in_order_def awaiting_start intro!: exI [of _ "[]"])
qed

lemma in_order_reach:
  assumes "sys_reach C (map call_task cs, n0) k s" "btree_ok (peers (m_rx_state n0))"
  shows "\<exists>order. in_order C cs n0 order s"
  using assms(1)
proof induction
  case start
  show ?case using in_order_start [OF assms(2)] ..
next
  case (step k s t)
  then show ?case using in_order_step by (metis surj_pair)
qed

text \<open>What has been decided, packet by packet.\<close>

fun sealed_packet :: "task \<Rightarrow> packet list" where
  "sealed_packet (Sealed (Ok p)) = [p]"
| "sealed_packet t = []"

fun accepted_packet :: "mesh_call \<Rightarrow> task \<Rightarrow> packet list" where
  "accepted_packet (Open p aad now) (Opened (Ok m)) = [p]"
| "accepted_packet c t = []"

lemma accepted_packet_Open: "accepted_packet (Open p aad now) (Opened r) = (if is_ok r then [p] else [])"
  by (cases r) simp_all

lemma seq_run_mesh_run:
  "seq_run C n cs = (rs, n') \<Longrightarrow>
     mesh_run C n cs = ((concat (map sealed_packet rs), concat (map2 accepted_packet cs rs)), n') \<and> length rs = length cs"
proof (induction cs arbitrary: n rs)
  case (Cons c cs)
  obtain r m where c: "call_once C n c = (r, m)" by fastforce
  obtain rs' where s: "seq_run C m cs = (rs', n')" "rs = r # rs'" using Cons.prems c by (auto split: prod.splits)
  from Cons.IH [OF s(1)] c s(2) show ?case
    by (cases c) (auto simp: accepted_packet_Open split: prod.splits outcome.splits)
qed simp

lemma concat_distinct:
  assumes "distinct (map f (concat xss))" "i < length xss" "j < length xss" "i \<noteq> j" "xss ! i = [a]" "xss ! j = [b]"
  shows "f a \<noteq> f b"
  using assms
proof (induction xss arbitrary: i j)
  case (Cons xs xss)
  have in_rest: "xss ! k = [c] \<Longrightarrow> k < length xss \<Longrightarrow> f c \<in> f ` set (concat xss)" for k c
    by (metis UN_I image_eqI list.set_intros(1) nth_mem set_concat)
  show ?case
  proof (cases i)
    case i: 0
    then obtain j' where "j = Suc j'" using Cons.prems(4) by (cases j) auto
    with Cons.prems i in_rest [of j' b] show ?thesis by auto
  next
    case i: (Suc i')
    show ?thesis
    proof (cases j)
      case 0
      with Cons.prems i in_rest [of i' a] show ?thesis by auto
    next
      case (Suc j')
      with Cons.prems i Cons.IH [of i' j'] show ?thesis by auto
    qed
  qed
qed simp

text \<open>The results of the calls that have their place, as one sequential run of the node.\<close>

lemma in_order_results:
  assumes "in_order C cs n0 order (ts, n)"
  obtains rs m where "seq_run C n0 (map ((!) cs) order) = (rs, m)" "length rs = length order"
    "\<And>i r. i < length cs \<Longrightarrow> decided (ts ! i) = Some r \<Longrightarrow> \<exists>k < length order. order ! k = i \<and> rs ! k = r"
proof -
  obtain rs ps where r: "seq_run C n0 (map ((!) cs) order) = (rs, folded C ps n)" "map (\<lambda>i. decided (ts ! i)) order = map Some rs"
    using assms by (auto simp: in_order_def)
  have l: "length rs = length order" using arg_cong [OF r(2), of length] by simp
  have "\<exists>k < length order. order ! k = i \<and> rs ! k = r" if i: "i < length cs" "decided (ts ! i) = Some r" for i r
  proof -
    have "i \<in> set order"
    proof (rule ccontr)
      assume "i \<notin> set order"
      then have "waiting C n (cs ! i) (ts ! i)" using assms i(1) by (simp add: in_order_def)
      then show False using i(2) by (cases "cs ! i") auto
    qed
    then obtain k where k: "k < length order" "order ! k = i" by (auto simp: in_set_conv_nth)
    have "map (\<lambda>i. decided (ts ! i)) order ! k = map Some rs ! k" by (simp only: r(2))
    with k l i(2) show ?thesis by auto
  qed
  with r(1) l that show thesis by blast
qed

section \<open>Schedules, to evaluate\<close>

fun run_schedule :: "crypto \<Rightarrow> nat list \<Rightarrow> system \<Rightarrow> system option" where
  "run_schedule C [] s = Some s"
| "run_schedule C (i # is) (ts, n) =
     (if i < length ts \<and> \<not> finished (ts ! i)
      then (case task_step C (ts ! i) n of (t, n') \<Rightarrow> run_schedule C is (ts[i := t], n')) else None)"

lemma run_schedule_reach:
  "sys_reach C s0 k s \<Longrightarrow> run_schedule C is s = Some s' \<Longrightarrow> sys_reach C s0 (k + length is) s'"
proof (induction C "is" s arbitrary: k rule: run_schedule.induct)
  case (2 C i "is" ts n)
  obtain t n' where t: "task_step C (ts ! i) n = (t, n')" by fastforce
  with 2(3) have i: "i < length ts" "\<not> finished (ts ! i)" "run_schedule C is (ts[i := t], n') = Some s'"
    by (auto split: if_splits)
  have "sys_reach C s0 (Suc k) (ts[i := t], n')" by (rule sys_reach.step [OF 2(2) run [OF i(1,2) t]])
  from 2(1) [OF conjI [OF i(1,2)] t [symmetric] this i(3)] show ?case by simp
qed simp

lemmas scheduled = run_schedule_reach [OF sys_reach.start, unfolded add_0]

definition sample_calls :: "mesh_call list" where
  "sample_calls = (case seal_realtime toy (sample_mesh 2 0) [104] [7] 50 of
     (Ok p, _) \<Rightarrow> [Open p [7] 60, Open p [7] 60] | _ \<Rightarrow> [])"

definition sample_end :: system where
  "sample_end = the (run_schedule toy [0, 1, 1, 0] (map call_task sample_calls, sample_mesh 1 5))"

lemma sample_calls_eq: obtains p where "sample_calls = [Open p [7] 60, Open p [7] 60]"
proof -
  have "m_tx_seq (sample_mesh 2 0) \<noteq> - 1" by simp
  then show thesis by (rule toy_seal [where now = 50]) (rule that, simp add: sample_calls_def)
qed

definition open_results :: "task list \<Rightarrow> bytes outcome option list" where
  "open_results ts = map (\<lambda>t. case t of Opened r \<Rightarrow> Some r | _ \<Rightarrow> None) ts"

lemma sample_runs:
  "case run_schedule toy [0, 1, 1, 0] (map call_task sample_calls, sample_mesh 1 5) of None \<Rightarrow> False
   | Some (ts, n) \<Rightarrow> list_all finished ts \<and> open_results ts = [Some (Err Repetido), Some (Ok [104])]"
  by code_simp

lemma sample_end_run: "run_schedule toy [0, 1, 1, 0] (map call_task sample_calls, sample_mesh 1 5) = Some sample_end"
  using sample_runs unfolding sample_end_def by (cases "run_schedule toy [0, 1, 1, 0] (map call_task sample_calls, sample_mesh 1 5)") simp_all

lemma sample_end_tasks:
  "list_all finished (fst sample_end)" "open_results (fst sample_end) = [Some (Err Repetido), Some (Ok [104])]"
  using sample_runs unfolding sample_end_run by (simp_all add: case_prod_unfold)

lemma sample_reach: "sys_reach toy (map call_task sample_calls, sample_mesh 1 5) 4 sample_end"
  using scheduled [OF sample_end_run] by (simp add: numeral_eq_Suc)

lemma decided_finished: "finished t \<Longrightarrow> decided t = Some r \<Longrightarrow> r = t"
  by (cases t) auto

section \<open>Properties\<close>

text \<open>
  C10: concurrent calls behave as if made one after the other. For every interleaving of any calls of
  \<open>seal_realtime\<close> and \<open>open_realtime\<close> on one node, there is an order of the calls in which, run one after the
  other, they give the same results and leave the same node.
\<close>

theorem concurrent_calls_linearize:
  assumes "btree_ok (peers (m_rx_state n0))" and "sys_reach C (map call_task cs, n0) k (ts, n)" and "\<forall>t \<in> set ts. finished t"
  shows "\<exists>order. distinct order \<and> set order = {..<length cs}
    \<and> seq_run C n0 (map ((!) cs) order) = (map ((!) ts) order, n)"
proof -
  obtain order where o: "in_order C cs n0 order (ts, n)" using in_order_reach [OF assms(2,1)] by blast
  then have l: "length ts = length cs" "distinct order" "set order \<subseteq> {..<length cs}" by (simp_all add: in_order_def)
  have "i \<in> set order" if "i < length cs" for i
  proof (rule ccontr)
    assume "i \<notin> set order"
    then have "waiting C n (cs ! i) (ts ! i)" using o that by (simp add: in_order_def)
    moreover have "finished (ts ! i)" using assms(3) that l(1) by simp
    ultimately show False by (cases "cs ! i") auto
  qed
  with l(3) have all: "set order = {..<length cs}" by auto
  obtain rs ps where r: "seq_run C n0 (map ((!) cs) order) = (rs, folded C ps n)" "mset ps = awaiting ts"
    "map (\<lambda>i. decided (ts ! i)) order = map Some rs"
    using o by (auto simp: in_order_def)
  have "decided t = Some t" if "t \<in> set ts" "decided t \<noteq> None" for t
    using that assms(3) decided_finished by blast
  moreover have "decided (ts ! i) \<noteq> None" if "i \<in> set order" for i
    using that r(3) by (metis (no_types, lifting) image_eqI list.set_map image_iff option.distinct(1))
  ultimately have "map (\<lambda>i. decided (ts ! i)) order = map (\<lambda>i. Some (ts ! i)) order"
    using l(1,3) by (intro map_cong refl) (metis lessThan_iff nth_mem subsetD)
  then have "map Some rs = map Some (map ((!) ts) order)" using r(3) by (simp add: comp_def)
  then have "rs = map ((!) ts) order" by (metis list.inj_map_strong option.inject)
  moreover have "ps = []" using r(2) awaiting_finished [OF assms(3)] by simp
  ultimately show ?thesis using r(1) l(2) all by auto
qed

theorem concurrent_calls_linearize_witness:
  "\<exists>order. distinct order \<and> set order = {..<length sample_calls}
    \<and> seq_run toy (sample_mesh 1 5) (map ((!) sample_calls) order) = (map ((!) (fst sample_end)) order, snd sample_end)"
  by (rule concurrent_calls_linearize [of _ _ _ 4])
    (use sample_reach sample_end_tasks(1) in \<open>simp_all add: btree_ok_def list_all_iff\<close>)

text \<open>
  C11: concurrency repeats nothing. Under every interleaving of up to 2^64 calls on a new node, finished
  or not: the packets returned by different calls of \<open>seal_realtime\<close> have different identities (node, epoch,
  sequence), and so have the packets accepted by different calls of \<open>open_realtime\<close>; a packet opened
  by several threads at once is accepted once.
\<close>

theorem concurrent_no_repeat:
  assumes "sys_reach C (map call_task cs, new_mesh C seed ctx nid e d) k (ts, n)" and "length cs \<le> 2 ^ 64"
    and "i < length cs" and "j < length cs" and "i \<noteq> j"
  shows "(\<forall>p q. ts ! i = Sealed (Ok p) \<and> ts ! j = Sealed (Ok q) \<longrightarrow> mesh_id p \<noteq> mesh_id q)
    \<and> (\<forall>p q aad aad' now now' m m'. cs ! i = Open p aad now \<and> cs ! j = Open q aad' now'
         \<and> ts ! i = Opened (Ok m) \<and> ts ! j = Opened (Ok m') \<longrightarrow> mesh_id p \<noteq> mesh_id q)"
proof -
  let ?n0 = "new_mesh C seed ctx nid e d"
  have new: "btree_ok (peers (m_rx_state ?n0))" "m_tx_seq ?n0 = 0" by (simp_all add: new_mesh_def Let_def btree_ok_def)
  obtain order where o: "in_order C cs ?n0 order (ts, n)" using in_order_reach [OF assms(1) new(1)] by blast
  obtain rs m where r: "seq_run C ?n0 (map ((!) cs) order) = (rs, m)" "length rs = length order"
    "\<And>i r. i < length cs \<Longrightarrow> decided (ts ! i) = Some r \<Longrightarrow> \<exists>k < length order. order ! k = i \<and> rs ! k = r"
    by (rule in_order_results [OF o]) blast
  let ?out = "concat (map sealed_packet rs)" and ?acc = "concat (map2 accepted_packet (map ((!) cs) order) rs)"
  have run: "mesh_run C ?n0 (map ((!) cs) order) = ((?out, ?acc), m)" using seq_run_mesh_run [OF r(1)] by simp
  have "seals xs \<le> length xs" for xs by (induction xs rule: seals.induct) simp_all
  moreover have "length order \<le> length cs"
    using o card_mono [of "{..<length cs}" "set order"] by (simp add: in_order_def distinct_card)
  ultimately have "seals (map ((!) cs) order) \<le> 2 ^ 64" using assms(2) by (metis le_trans length_map)
  then have "sorted_wrt (<) (map (unat \<circ> p_sequence) ?out)" using mesh_run_sealed [OF run] by (simp add: new)
  then have "distinct (map (unat \<circ> p_sequence) ?out)" using strict_sorted_iff by blast
  then have out: "distinct (map mesh_id ?out)"
    by (auto simp: distinct_map inj_on_def mesh_id_def)
  have acc: "distinct (map mesh_id ?acc)"
    using mesh_run_refines [OF new_mesh_rel run] mesh_spec_fresh [of 128 "\<lambda>k. {}"] by simp
  have "mesh_id p \<noteq> mesh_id q" if s: "ts ! i = Sealed (Ok p)" "ts ! j = Sealed (Ok q)" for p q
  proof -
    obtain a b where "a < length order" "order ! a = i" "rs ! a = Sealed (Ok p)" "b < length order" "order ! b = j" "rs ! b = Sealed (Ok q)"
      using r(3) [OF assms(3), of "Sealed (Ok p)"] r(3) [OF assms(4), of "Sealed (Ok q)"] s by auto
    with assms(5) r(2) show ?thesis by (intro concat_distinct [OF out, of a b]) auto
  qed
  moreover have "mesh_id p \<noteq> mesh_id q"
    if c: "cs ! i = Open p aad now" "cs ! j = Open q aad' now'" "ts ! i = Opened (Ok v)" "ts ! j = Opened (Ok v')" for p q aad aad' now now' v v'
  proof -
    obtain a b where "a < length order" "order ! a = i" "rs ! a = Opened (Ok v)" "b < length order" "order ! b = j" "rs ! b = Opened (Ok v')"
      using r(3) [OF assms(3), of "Opened (Ok v)"] r(3) [OF assms(4), of "Opened (Ok v')"] c by auto
    with assms(5) r(2) c show ?thesis by (intro concat_distinct [OF acc, of a b]) auto
  qed
  ultimately show ?thesis by blast
qed

theorem concurrent_no_repeat_witness:
  "\<exists>p m m'. sample_calls ! 0 = Open p [7] 60 \<and> sample_calls ! 1 = Open p [7] 60
     \<and> \<not> (fst sample_end ! 0 = Opened (Ok m) \<and> fst sample_end ! 1 = Opened (Ok m'))"
proof -
  obtain p where "sample_calls = [Open p [7] 60, Open p [7] 60]" by (rule sample_calls_eq)
  note c = this
  have p: "sample_calls ! 0 = Open p [7] 60" "sample_calls ! 1 = Open p [7] 60" "length sample_calls = 2"
    unfolding c by simp_all
  have r: "sys_reach toy (map call_task sample_calls, new_mesh toy sample_seed [] 1 5 1000) 4 (fst sample_end, snd sample_end)"
    using sample_reach by (simp add: sample_mesh_def)
  have "mesh_id p \<noteq> mesh_id p" if "fst sample_end ! 0 = Opened (Ok m)" "fst sample_end ! 1 = Opened (Ok m')" for m m'
    by (rule concurrent_no_repeat [OF r, of 0 1, THEN conjunct2, rule_format, of p "[7]" 60 p "[7]" 60 m m']) (use p that in simp_all)
  with p show ?thesis by blast
qed

lemma race_schedule:
  assumes "read_checkpoint C b bs wrap = Ok st" "\<not> m_poisoned b"
    "seal_at C b (m_epoch b) (saved_tx_seq st) pt aad now = Ok q"
  shows "\<exists>m. m_epoch m = max (m_epoch b) (saturating_add (saved_epoch st) 1)
    \<and> run_schedule C [0, 1, 1, 1, 1, 0, 0] ([SealStart pt aad now, RestoreStart bs wrap], b)
      = Some ([Sealed (Ok q), Restored (Ok ())], m)"
proof -
  define e' where "e' = max (m_epoch b) (saturating_add (saved_epoch st) 1)"
  define b3 where "b3 = b\<lparr>m_epoch := e', m_tx_seq := saved_tx_seq st, m_rx_state := (m_rx_state b)
    \<lparr>peers := saved_peers st, multiset_integrity_hash := saved_hash st\<rparr>\<rparr>"
  have "same_config b b3" by (simp add: b3_def same_config_def same_keys_def)
  then have at: "seal_at C b3 (m_epoch b) (m_tx_seq b3) pt aad now = Ok q"
    using assms(3) seal_at_config [of b b3 C] by (simp add: b3_def)
  define b4 where "b4 = b3\<lparr>m_tx_seq := m_tx_seq b3 + 1\<rparr>"
  have live: "\<not> m_poisoned b4" "m_epoch b4 = e'" by (simp_all add: b4_def b3_def assms(2))
  have "run_schedule C [0, 1, 1, 1, 1, 0, 0] ([SealStart pt aad now, RestoreStart bs wrap], b)
      = run_schedule C [0, 0] ([SealDraw (m_epoch b) pt aad now, Restored (Ok ())], b3)"
    by (simp add: assms(1) lock_rx_def assms(2) b3_def e'_def)
  also have "\<dots> = run_schedule C [0] ([SealFold q, Restored (Ok ())], b4)"
    by (simp add: at b4_def Let_def)
  finally show ?thesis using live by (simp add: lock_rx_def e'_def)
qed

text \<open>
  C35: a restore that runs while a packet is sealed reuses an identity. A node exports a checkpoint, seals
  \<open>p\<close> and crashes. On a new node that starts in the same epoch, a thread loads the epoch, another restores the
  checkpoint, and the first goes on: it returns \<open>q\<close>, which has the identity of \<open>p\<close>, and, in the same
  millisecond, its nonce; afterwards the node is in the next epoch.
\<close>

theorem restore_race_reuses_sequence:
  assumes "aead_roundtrip C" and "aead_length C" and "length rnd = 12"
    and "mesh_run C (new_mesh C seed ctx i e d) cs = ((out, acc), n)" and "export_checkpoint C rnd n wrap = Ok bs"
    and "fst (seal_realtime C n pt aad now) = Ok p" and "fst (seal_realtime C n pt2 aad2 now2) = Ok q"
  shows "\<exists>m. sys_reach C ([SealStart pt2 aad2 now2, RestoreStart bs wrap], new_mesh C seed ctx i e d) 7
      ([Sealed (Ok q), Restored (Ok ())], m)
    \<and> mesh_id q = mesh_id p \<and> (now2 = now \<longrightarrow> p_nonce q = p_nonce p) \<and> m_epoch m = saturating_add e 1"
proof -
  let ?m = "new_mesh C seed ctx i e d"
  note run = mesh_run_ok [OF assms(4)]
  have new: "m_node_id ?m = i" "\<not> m_poisoned ?m" "m_epoch ?m = e" by (simp_all add: new_mesh_def Let_def)
  have e: "m_epoch n = e" using mesh_run_epoch [OF assms(4)] new(3) by simp
  have keys: "same_keys n ?m" "m_node_id n = m_node_id ?m" using run(2) by (auto simp: same_config_def same_keys_def)
  obtain st where st: "read_checkpoint C ?m bs wrap = Ok st" "saved_epoch st = e" "saved_tx_seq st = m_tx_seq n"
    using read_exported [OF assms(1-3) run(1) assms(5) keys] e by simp
  have at: "seal_at C n e (m_tx_seq n) pt' aad' now' = Ok p'" if "fst (seal_realtime C n pt' aad' now') = Ok p'" for pt' aad' now' p'
    using that e by (cases rule: seal_realtime_cases [where C = C and n = n and pt = pt' and aad = aad' and now = now']) auto
  note sp = at [OF assms(6)] and sq = at [OF assms(7)]
  define up where "up = saturating_add e 1"
  have "e \<le> up"
  proof (cases "e = - 1")
    case False
    then have "unat (e + 1) = Suc (unat e)" by (rule unat_Suc)
    then have "e \<le> e + 1" by (simp add: word_le_nat_alt)
    then show ?thesis by (simp add: up_def saturating_add_def word_order.extremum)
  qed (simp add: up_def saturating_add_def unsigned_minus_1_eq_mask mask_eq_exp_minus_1)
  then have up: "max e up = up" by (simp add: max_def)
  have "seal_at C ?m (m_epoch ?m) (saved_tx_seq st) pt2 aad2 now2 = Ok q"
    using sq seal_at_config [OF run(2), of C] new(3) st(3) by simp
  from race_schedule [OF st(1) new(2) this] obtain m where m: "m_epoch m = max e up"
    "run_schedule C [0, 1, 1, 1, 1, 0, 0] ([SealStart pt2 aad2 now2, RestoreStart bs wrap], ?m) = Some ([Sealed (Ok q), Restored (Ok ())], m)"
    unfolding new(3) st(2) up_def by blast
  have "sys_reach C ([SealStart pt2 aad2 now2, RestoreStart bs wrap], ?m) 7 ([Sealed (Ok q), Restored (Ok ())], m)"
    using scheduled [OF m(2)] by (simp add: numeral_eq_Suc)
  moreover have "mesh_id q = mesh_id p"
    using seal_at_header [OF sp] seal_at_header [OF sq] by (simp add: mesh_id_def peer_key_of_def)
  moreover have "p_nonce q = p_nonce p" if "now2 = now"
    using sp sq that by (auto simp: seal_at_Ok_iff)
  ultimately show ?thesis using m(1) unfolding up unfolding up_def by blast
qed

theorem restore_race_reuses_sequence_witness:
  "\<exists>p bs m. fst (seal_realtime toy (sample_mesh 1 5) [104] [7] 50) = Ok p
    \<and> sys_reach toy ([SealStart [104] [7] 50, RestoreStart bs [8]], sample_mesh 1 5) 7 ([Sealed (Ok p), Restored (Ok ())], m)
    \<and> m_epoch m = 6"
proof -
  obtain bs where bs: "export_checkpoint toy (replicate 12 3) (sample_mesh 1 5) [8] = Ok bs" by (rule toy_sample_export)
  have "m_tx_seq (sample_mesh 1 5) \<noteq> - 1" by simp
  from toy_seal [OF this, of 50] obtain p where "seal_realtime toy (sample_mesh 1 5) [104] [7] 50 = (Ok p, sealed_node toy (sample_mesh 1 5) p)"
    by blast
  then have p: "fst (seal_realtime toy (sample_mesh 1 5) [104] [7] 50) = Ok p" by (simp only: fst_conv)
  have up: "saturating_add 5 1 = (6 :: u64)" by (simp add: saturating_add_def)
  have "\<exists>m. sys_reach toy ([SealStart [104] [7] 50, RestoreStart bs [8]], new_mesh toy sample_seed [] 1 5 1000) 7
      ([Sealed (Ok p), Restored (Ok ())], m)
    \<and> mesh_id p = mesh_id p \<and> ((50 :: u64) = 50 \<longrightarrow> p_nonce p = p_nonce p) \<and> m_epoch m = saturating_add 5 1"
    by (rule restore_race_reuses_sequence [OF toy_aead_roundtrip toy_aead_length length_replicate sample_mesh_idle])
      (rule bs p)+
  then show ?thesis
    unfolding up sample_mesh_def [symmetric]
  proof (elim exE conjE, intro exI conjI)
    show "fst (seal_realtime toy (sample_mesh 1 5) [104] [7] 50) = Ok p" by (rule p)
  qed
qed

text \<open>
  A checkpoint exported while a packet is sealed misses the packet. A thread has drawn the
  sequence of \<open>q\<close> and not folded \<open>q\<close> in when another exports a checkpoint; both calls succeed and the
  node ends as after \<open>q\<close>. What a node restores from that checkpoint counts the sequence of \<open>q\<close> as
  used, but its integrity hash is the one before \<open>q\<close>.
\<close>

theorem export_race_misses_packet:
  assumes "aead_roundtrip C" and "aead_length C" and "length rnd = 12"
    and "mesh_run C (new_mesh C seed ctx i e d) cs = ((out, acc), n)"
    and "seal_realtime C n pt aad now = (Ok q, n')" and "export_checkpoint C rnd (n\<lparr>m_tx_seq := m_tx_seq n + 1\<rparr>) wrap = Ok bs"
  shows "sys_reach C ([SealStart pt aad now, ExportStart rnd wrap], n) 4 ([Sealed (Ok q), Exported (Ok bs)], n')
    \<and> (\<exists>m. restore_checkpoint C (new_mesh C seed ctx i e' d') bs wrap = (Ok (), m) \<and> current_tx_seq m = current_tx_seq n'
         \<and> current_integrity_sha256 m = current_integrity_sha256 n)
    \<and> current_integrity_sha256 n' = integrity C [q] (current_integrity_sha256 n)"
proof -
  let ?b = "n\<lparr>m_tx_seq := m_tx_seq n + 1\<rparr>" and ?m = "new_mesh C seed ctx i e' d'"
  note run = mesh_run_ok [OF assms(4)]
  have new: "\<not> m_poisoned ?m" by (simp add: new_mesh_def Let_def)
  have keys: "same_keys ?b ?m" "m_node_id ?b = m_node_id ?m"
    using run(2) new_mesh_keys [of C seed ctx i e d i e' d'] by (auto simp: same_config_def same_keys_def new_mesh_def Let_def)
  have ok: "node_ok ?b" using run(1) by (simp add: node_ok_def)
  have at: "seal_at C n (m_epoch n) (m_tx_seq n) pt aad now = Ok q" and n': "n' = sealed_node C n q"
    using assms(5) by (cases rule: seal_realtime_cases [where C = C and n = n and pt = pt and aad = aad and now = now]; auto)+
  have "run_schedule C [0, 0, 1, 0] ([SealStart pt aad now, ExportStart rnd wrap], n)
      = Some ([Sealed (Ok q), Exported (Ok bs)], n')"
    using run(4) by (simp add: at assms(6) Let_def lock_rx_def n' sealed_node_def)
  then have "sys_reach C ([SealStart pt aad now, ExportStart rnd wrap], n) 4 ([Sealed (Ok q), Exported (Ok bs)], n')"
    using scheduled by (fastforce simp: numeral_eq_Suc)
  moreover have "\<exists>m. restore_checkpoint C ?m bs wrap = (Ok (), m) \<and> current_tx_seq m = current_tx_seq n'
      \<and> current_integrity_sha256 m = current_integrity_sha256 n"
    using read_exported [OF assms(1-3) ok assms(6) keys] new run(4)
    by (simp add: restore_checkpoint_def lock_rx_def Let_def current_tx_seq_def current_integrity_sha256_def n' sealed_node_def)
  moreover have "current_integrity_sha256 n' = integrity C [q] (current_integrity_sha256 n)"
    using run(4) by (simp add: n' sealed_node_def current_integrity_sha256_def lock_rx_def fold_in_def integrity_def)
  ultimately show ?thesis by blast
qed

theorem export_race_misses_packet_witness:
  "\<exists>q n' bs. seal_realtime toy (sample_mesh 1 5) [104] [7] 50 = (Ok q, n')
    \<and> sys_reach toy ([SealStart [104] [7] 50, ExportStart (replicate 12 3) [8]], sample_mesh 1 5) 4 ([Sealed (Ok q), Exported (Ok bs)], n')"
proof -
  let ?b = "(sample_mesh 1 5)\<lparr>m_tx_seq := m_tx_seq (sample_mesh 1 5) + 1\<rparr>"
  obtain q n' where q: "seal_realtime toy (sample_mesh 1 5) [104] [7] 50 = (Ok q, n')"
    by (rule toy_seal [of "sample_mesh 1 5" 50]) (simp, blast)
  obtain bs where bs: "export_checkpoint toy (replicate 12 3) ?b [8] = Ok bs"
    using toy_exports [of ?b] by auto
  have "sys_reach toy ([SealStart [104] [7] 50, ExportStart (replicate 12 3) [8]], sample_mesh 1 5) 4 ([Sealed (Ok q), Exported (Ok bs)], n')"
    by (rule export_race_misses_packet [OF toy_aead_roundtrip toy_aead_length length_replicate sample_mesh_idle q bs, THEN conjunct1])
  with q show ?thesis by blast
qed

end
