(* ===== verification/Locking.thy ===== *)
theory Locking
  imports Concurrency
begin

text \<open>
  The receiving state of a node with its lock (\<open>src/modes/chrono.rs\<close>, \<open>rx_state: Mutex<MeshRxState>\<close>). In the theory
  \<open>Concurrency\<close> each section under the lock is one step. Here a thread takes the lock, works and gives the
  lock back in separate steps, in the order of the source, and the other threads may step at any point in
  between; a thread at a \<open>lock()\<close> steps only while nobody owns the lock, the thread itself included, as
  \<open>std::sync::Mutex\<close> is not reentrant. \<open>lock()\<close> on a poisoned mutex takes the lock as well; its \<open>Err\<close> is what the
  section then sees. Shown are that no schedule gets stuck before all calls have returned, and that
  every state reached has a counterpart in which the sections are single steps, so that what the theory
  \<open>Concurrency\<close> proves holds of the code with its lock.
\<close>

section \<open>The accesses of a call\<close>

text \<open>Where a thread is, with its local variables. A guard is held from the state after a \<open>Lock\<close> to its \<open>Unlock\<close>.\<close>

datatype thread =
    SealLoad bytes bytes u64                  \<comment> \<open>\<open>epoch.load\<close>\<close>
  | SealFetch u64 bytes bytes u64             \<comment> \<open>\<open>tx_seq.fetch_add\<close>, encryption\<close>
  | SealLock packet
  | SealAdd packet
  | SealUnlock packet
  | OpenTests packet bytes u64                \<comment> \<open>version and drift\<close>
  | OpenLock packet bytes u64
  | OpenCheck packet bytes u64
  | OpenUnlock packet bytes "unit outcome"    \<comment> \<open>end of the block, or \<open>?\<close> in it\<close>
  | OpenDecrypt packet bytes
  | OpenRelock packet bytes
  | OpenNote packet bytes
  | OpenLeave "bytes outcome"
  | RestoreRead bytes bytes                   \<comment> \<open>decryption, \<open>epoch.load\<close>\<close>
  | RestoreStoreEpoch saved_state u64
  | RestoreStoreSeq saved_state
  | RestoreLock saved_state
  | RestoreReplace saved_state
  | RestoreLeave "unit outcome"
  | ExportLock bytes bytes
  | ExportCount bytes bytes
  | ExportEpoch bytes bytes u32
  | ExportSeq bytes bytes u32 u64
  | ExportCopy bytes bytes u32 u64 u64
  | ExportUnlock bytes bytes "bytes outcome"
  | ExportEncrypt bytes bytes bytes
  | Returned task

text \<open>The parts of the methods that stand between two accesses.\<close>

definition first_check :: "mesh_node \<Rightarrow> packet \<Rightarrow> unit outcome" where
  "first_check n packet = (case lock_rx n of
      None \<Rightarrow> Err Autenticacion
    | Some guard \<Rightarrow> (case btree_get (peers guard) (peer_key_of packet) of
          Some peer \<Rightarrow> peer_check peer (p_sequence packet) (replay_window n)
        | None \<Rightarrow> Ok ()))"

definition export_raw :: "mesh_node \<Rightarrow> u32 \<Rightarrow> u64 \<Rightarrow> u64 \<Rightarrow> bytes" where
  "export_raw n peer_count epoch tx_seq =
     u32_to_be (m_node_id n) @ u64_to_be epoch @ u64_to_be tx_seq @ multiset_integrity_hash (m_rx_state n)
       @ u32_to_be peer_count @ concat (map encode_peer (peers (m_rx_state n)))"

definition export_seal :: "crypto \<Rightarrow> bytes \<Rightarrow> mesh_node \<Rightarrow> bytes \<Rightarrow> bytes \<Rightarrow> bytes outcome" where
  "export_seal C rnd n wrap_key raw =
     bindO (ok_or Cifrado (aead_enc C wrap_key rnd (mesh_aad n) raw)) (\<lambda>ciphertext.
       Ok (MESH_STATE_MAGIC @ [MESH_STATE_VERSION] @ rnd @ ciphertext))"

text \<open>One access of a thread to the node, and where it goes from there.\<close>

fun access :: "crypto \<Rightarrow> thread \<Rightarrow> mesh_node \<Rightarrow> thread \<times> mesh_node" where
  "access C (SealLoad plaintext user_aad now_ms) n = (SealFetch (m_epoch n) plaintext user_aad now_ms, n)"
| "access C (SealFetch epoch plaintext user_aad now_ms) n =
     (let seq = m_tx_seq n; n1 = n\<lparr>m_tx_seq := m_tx_seq n + 1\<rparr>
      in case seal_at C n epoch seq plaintext user_aad now_ms of
           Err e \<Rightarrow> (Returned (Sealed (Err e)), n1) | Panic \<Rightarrow> (Returned (Sealed Panic), n1) | Ok packet \<Rightarrow> (SealLock packet, n1))"
| "access C (SealLock packet) n = (SealAdd packet, n)"
| "access C (SealAdd packet) n =
     (SealUnlock packet, case lock_rx n of None \<Rightarrow> n | Some rx \<Rightarrow> n\<lparr>m_rx_state := fold_in C packet rx\<rparr>)"
| "access C (SealUnlock packet) n = (Returned (Sealed (Ok packet)), n)"
| "access C (OpenTests packet user_aad now_ms) n =
     (if p_version packet \<noteq> WIRE_VERSION_V3 then (Returned (Opened (Err (VersionNoSoportada (p_version packet)))), n)
      else if max_time_drift_ms n < abs_diff now_ms (p_timestamp_ms packet) then (Returned (Opened (Err TiempoExpiradoOInvalido)), n)
      else (OpenLock packet user_aad now_ms, n))"
| "access C (OpenLock packet user_aad now_ms) n = (OpenCheck packet user_aad now_ms, n)"
| "access C (OpenCheck packet user_aad now_ms) n = (OpenUnlock packet user_aad (first_check n packet), n)"
| "access C (OpenUnlock packet user_aad checked) n =
     (case checked of
        Ok _ \<Rightarrow> (OpenDecrypt packet user_aad, n) | Err e \<Rightarrow> (Returned (Opened (Err e)), n) | Panic \<Rightarrow> (Returned (Opened Panic), n))"
| "access C (OpenDecrypt packet user_aad) n =
     (case decrypt_v3 C n packet user_aad of
        Ok plaintext \<Rightarrow> (OpenRelock packet plaintext, n)
      | Err e \<Rightarrow> (Returned (Opened (Err e)), n) | Panic \<Rightarrow> (Returned (Opened Panic), n))"
| "access C (OpenRelock packet plaintext) n = (OpenNote packet plaintext, n)"
| "access C (OpenNote packet plaintext) n = (case open_record C n packet plaintext of (r, n') \<Rightarrow> (OpenLeave r, n'))"
| "access C (OpenLeave r) n = (Returned (Opened r), n)"
| "access C (RestoreRead bs wrap_key) n =
     (case read_checkpoint C n bs wrap_key of
        Err e \<Rightarrow> (Returned (Restored (Err e)), n) | Panic \<Rightarrow> (Returned (Restored Panic), n)
      | Ok st \<Rightarrow> (RestoreStoreEpoch st (max (m_epoch n) (saturating_add (saved_epoch st) 1)), n))"
| "access C (RestoreStoreEpoch st new_epoch) n = (RestoreStoreSeq st, n\<lparr>m_epoch := new_epoch\<rparr>)"
| "access C (RestoreStoreSeq st) n = (RestoreLock st, n\<lparr>m_tx_seq := saved_tx_seq st\<rparr>)"
| "access C (RestoreLock st) n = (RestoreReplace st, n)"
| "access C (RestoreReplace st) n =
     (case lock_rx n of
        None \<Rightarrow> (RestoreLeave (Err Cifrado), n)
      | Some guard \<Rightarrow>
          (RestoreLeave (Ok ()), n\<lparr>m_rx_state := guard\<lparr>peers := saved_peers st, multiset_integrity_hash := saved_hash st\<rparr>\<rparr>))"
| "access C (RestoreLeave r) n = (Returned (Restored r), n)"
| "access C (ExportLock rnd wrap_key) n = (ExportCount rnd wrap_key, n)"
| "access C (ExportCount rnd wrap_key) n =
     (case bindO (ok_or Cifrado (lock_rx n)) (\<lambda>guard. ok_or AadDemasiadoLargo (u32_try_from (length (peers guard)))) of
        Ok peer_count \<Rightarrow> (ExportEpoch rnd wrap_key peer_count, n)
      | Err e \<Rightarrow> (ExportUnlock rnd wrap_key (Err e), n) | Panic \<Rightarrow> (ExportUnlock rnd wrap_key Panic, n))"
| "access C (ExportEpoch rnd wrap_key peer_count) n = (ExportSeq rnd wrap_key peer_count (m_epoch n), n)"
| "access C (ExportSeq rnd wrap_key peer_count epoch) n = (ExportCopy rnd wrap_key peer_count epoch (m_tx_seq n), n)"
| "access C (ExportCopy rnd wrap_key peer_count epoch tx_seq) n =
     (ExportUnlock rnd wrap_key (Ok (export_raw n peer_count epoch tx_seq)), n)"
| "access C (ExportUnlock rnd wrap_key r) n =
     (case r of
        Ok raw \<Rightarrow> (ExportEncrypt rnd wrap_key raw, n)
      | Err e \<Rightarrow> (Returned (Exported (Err e)), n) | Panic \<Rightarrow> (Returned (Exported Panic), n))"
| "access C (ExportEncrypt rnd wrap_key raw) n = (Returned (Exported (export_seal C rnd n wrap_key raw)), n)"
| "access C (Returned t) n = (Returned t, n)"

text \<open>What the next access does to the lock.\<close>

datatype effect = Free | Acquire | Release | Ended

fun lock_effect :: "thread \<Rightarrow> effect" where
  "lock_effect (SealLock p) = Acquire" | "lock_effect (SealUnlock p) = Release"
| "lock_effect (OpenLock p aad now) = Acquire" | "lock_effect (OpenUnlock p aad r) = Release"
| "lock_effect (OpenRelock p pt) = Acquire" | "lock_effect (OpenLeave m) = Release"
| "lock_effect (RestoreLock st) = Acquire" | "lock_effect (RestoreLeave u) = Release"
| "lock_effect (ExportLock rnd wrap) = Acquire" | "lock_effect (ExportUnlock rnd wrap r) = Release"
| "lock_effect (Returned t) = Ended"
| "lock_effect t = Free"

type_synonym threads = "thread list \<times> nat option \<times> mesh_node"

inductive lock_step :: "crypto \<Rightarrow> threads \<Rightarrow> threads \<Rightarrow> bool" for C where
  free: "i < length ts \<Longrightarrow> lock_effect (ts ! i) = Free \<Longrightarrow> access C (ts ! i) n = (t, n') \<Longrightarrow>
    lock_step C (ts, owner, n) (ts[i := t], owner, n')"
| acquire: "i < length ts \<Longrightarrow> lock_effect (ts ! i) = Acquire \<Longrightarrow> access C (ts ! i) n = (t, n') \<Longrightarrow>
    lock_step C (ts, None, n) (ts[i := t], Some i, n')"
| release: "i < length ts \<Longrightarrow> lock_effect (ts ! i) = Release \<Longrightarrow> access C (ts ! i) n = (t, n') \<Longrightarrow>
    lock_step C (ts, owner, n) (ts[i := t], None, n')"

inductive lock_reach :: "crypto \<Rightarrow> threads \<Rightarrow> nat \<Rightarrow> threads \<Rightarrow> bool" for C s0 where
  start: "lock_reach C s0 0 s0"
| step: "lock_reach C s0 k s \<Longrightarrow> lock_step C s t \<Longrightarrow> lock_reach C s0 (Suc k) t"

text \<open>A call before its first access.\<close>

fun enter :: "task \<Rightarrow> thread" where
  "enter (SealStart pt aad now) = SealLoad pt aad now"
| "enter (OpenStart p aad now) = OpenTests p aad now"
| "enter (RestoreStart bs wrap) = RestoreRead bs wrap"
| "enter (ExportStart rnd wrap) = ExportLock rnd wrap"
| "enter t = Returned t"

fun is_call :: "task \<Rightarrow> bool" where
  "is_call (SealStart pt aad now) = True" | "is_call (OpenStart p aad now) = True"
| "is_call (RestoreStart bs wrap) = True" | "is_call (ExportStart rnd wrap) = True"
| "is_call t = False"

section \<open>Who owns the lock\<close>

fun in_section :: "thread \<Rightarrow> bool" where
  "in_section (SealAdd p) = True" | "in_section (SealUnlock p) = True"
| "in_section (OpenCheck p aad now) = True" | "in_section (OpenUnlock p aad r) = True"
| "in_section (OpenNote p pt) = True" | "in_section (OpenLeave m) = True"
| "in_section (RestoreReplace st) = True" | "in_section (RestoreLeave u) = True"
| "in_section (ExportCount rnd wrap) = True" | "in_section (ExportEpoch rnd wrap c) = True"
| "in_section (ExportSeq rnd wrap c e) = True" | "in_section (ExportCopy rnd wrap c e s) = True"
| "in_section (ExportUnlock rnd wrap r) = True"
| "in_section t = False"

lemma section_effect:
  "lock_effect t = Acquire \<Longrightarrow> \<not> in_section t" "lock_effect t = Release \<Longrightarrow> in_section t" "lock_effect t = Ended \<Longrightarrow> \<not> in_section t"
  by (cases t; simp)+

lemma section_access:
  assumes "access C t n = (t', n')"
  shows "in_section t' \<longleftrightarrow> (case lock_effect t of Acquire \<Rightarrow> True | Release \<Rightarrow> False | _ \<Rightarrow> in_section t)"
  using assms by (cases t) (auto simp: Let_def split: outcome.splits prod.splits if_splits option.splits)

definition owned :: "threads \<Rightarrow> bool" where
  "owned s \<longleftrightarrow> (case s of (ts, owner, n) \<Rightarrow> (\<forall>i < length ts. in_section (ts ! i) \<longleftrightarrow> owner = Some i)
     \<and> (\<forall>i. owner = Some i \<longrightarrow> i < length ts))"

lemma owned_step:
  assumes "lock_step C s s'" "owned s"
  shows "owned s'"
  using assms(1)
proof cases
  case (free i ts n t n' owner)
  have "in_section t = in_section (ts ! i)" using section_access [OF free(5)] free(4) by simp
  with assms(2) free(1-3) show ?thesis by (auto simp: owned_def nth_list_update)
next
  case (acquire i ts n t n')
  have "in_section t" using section_access [OF acquire(5)] acquire(4) by simp
  with assms(2) acquire(1-3) show ?thesis by (auto simp: owned_def nth_list_update)
next
  case (release i ts n t n' owner)
  have "\<not> in_section t" "in_section (ts ! i)" using section_access [OF release(5)] section_effect release(4) by simp_all
  with assms(2) release(1-3) show ?thesis by (auto simp: owned_def nth_list_update)
qed

lemma owned_start: "owned (map enter cs, None, n)"
proof -
  have "\<not> in_section (enter c)" for c by (cases c) simp_all
  then show ?thesis by (simp add: owned_def)
qed

lemma owned_reach: "lock_reach C s0 k s \<Longrightarrow> owned s0 \<Longrightarrow> owned s"
  by (induction rule: lock_reach.induct) (auto intro: owned_step)

section \<open>How many accesses a call has left\<close>

fun accesses_left :: "thread \<Rightarrow> nat" where
  "accesses_left (SealLoad pt aad now) = 5" | "accesses_left (SealFetch e pt aad now) = 4"
| "accesses_left (SealLock p) = 3" | "accesses_left (SealAdd p) = 2" | "accesses_left (SealUnlock p) = 1"
| "accesses_left (OpenTests p aad now) = 8" | "accesses_left (OpenLock p aad now) = 7"
| "accesses_left (OpenCheck p aad now) = 6" | "accesses_left (OpenUnlock p aad r) = 5"
| "accesses_left (OpenDecrypt p aad) = 4" | "accesses_left (OpenRelock p pt) = 3"
| "accesses_left (OpenNote p pt) = 2" | "accesses_left (OpenLeave m) = 1"
| "accesses_left (RestoreRead bs wrap) = 6" | "accesses_left (RestoreStoreEpoch st e) = 5"
| "accesses_left (RestoreStoreSeq st) = 4" | "accesses_left (RestoreLock st) = 3"
| "accesses_left (RestoreReplace st) = 2" | "accesses_left (RestoreLeave u) = 1"
| "accesses_left (ExportLock rnd wrap) = 7" | "accesses_left (ExportCount rnd wrap) = 6"
| "accesses_left (ExportEpoch rnd wrap c) = 5" | "accesses_left (ExportSeq rnd wrap c e) = 4"
| "accesses_left (ExportCopy rnd wrap c e s) = 3" | "accesses_left (ExportUnlock rnd wrap r) = 2"
| "accesses_left (ExportEncrypt rnd wrap raw) = 1"
| "accesses_left (Returned t) = 0"

lemma access_less: "access C t n = (t', n') \<Longrightarrow> lock_effect t \<noteq> Ended \<Longrightarrow> accesses_left t' < accesses_left t"
  by (cases t) (auto simp: Let_def split: outcome.splits prod.splits if_splits option.splits)

lemma accesses_left_enter: "accesses_left (enter c) \<le> 8"
  by (cases c) simp_all

lemma work_decreases:
  assumes "lock_step C s s'"
  shows "sum_list (map accesses_left (fst s')) < sum_list (map accesses_left (fst s))"
proof -
  obtain i ts t n n' where s: "fst s = ts" "fst s' = ts[i := t]" "i < length ts" "lock_effect (ts ! i) \<noteq> Ended"
    "access C (ts ! i) n = (t, n')"
    using assms by cases auto
  have "accesses_left t < accesses_left (ts ! i)" using access_less [OF s(5,4)] .
  moreover have "accesses_left (ts ! i) \<le> sum_list (map accesses_left ts)"
    using s(3) by (intro member_le_sum_list) simp_all
  ultimately show ?thesis using s(3) by (simp add: s(1,2) map_update sum_list_update)
qed

lemma work_reach:
  assumes "lock_reach C s0 k s"
  shows "k + sum_list (map accesses_left (fst s)) \<le> sum_list (map accesses_left (fst s0))"
  using assms
proof (induction rule: lock_reach.induct)
  case (step k s t)
  with work_decreases [OF step.hyps(2)] show ?case by linarith
qed simp

lemma work_start: "sum_list (map accesses_left (map enter cs)) \<le> 8 * length cs"
proof (induction cs)
  case (Cons c cs)
  then show ?case using accesses_left_enter [of c] by simp
qed simp

text \<open>Thread \<open>i\<close> makes an access that brings it closer to its return.\<close>

definition advances :: "crypto \<Rightarrow> threads \<Rightarrow> nat \<Rightarrow> bool" where
  "advances C s i \<longleftrightarrow> (\<exists>t owner' n'. lock_step C s ((fst s)[i := t], owner', n') \<and> accesses_left t < accesses_left (fst s ! i))"

lemma advances_unlocked:
  assumes "i < length ts" "lock_effect (ts ! i) \<in> {Free, Release} \<or> lock_effect (ts ! i) = Acquire \<and> owner = None"
  shows "advances C (ts, owner, n) i"
proof -
  obtain t n' where a: "access C (ts ! i) n = (t, n')" by fastforce
  have "\<exists>owner'. lock_step C (ts, owner, n) (ts[i := t], owner', n')"
    using assms(2) lock_step.free [OF assms(1) _ a] lock_step.acquire [OF assms(1) _ a] lock_step.release [OF assms(1) _ a] by auto
  then show ?thesis using access_less [OF a] assms(2) unfolding advances_def by fastforce
qed

lemma advances_blocked: "lock_effect (ts ! i) = Acquire \<Longrightarrow> i < length ts \<Longrightarrow> \<not> advances C (ts, Some j, n) i"
proof
  assume a: "lock_effect (ts ! i) = Acquire" "i < length ts" "advances C (ts, Some j, n) i"
  then obtain t owner' n' where t: "lock_step C (ts, Some j, n) (ts[i := t], owner', n')" "accesses_left t < accesses_left (ts ! i)"
    by (auto simp: advances_def)
  obtain k u where k: "k < length ts" "lock_effect (ts ! k) \<noteq> Acquire" "ts[i := t] = ts[k := u]"
    using t(1) by cases auto
  then have "ts[i := t] ! i = ts ! i" using a(1) by (metis nth_list_update_neq)
  with t(2) a(2) show False by simp
qed

text \<open>A thread that cannot step waits for the lock of another one, which can.\<close>

lemma advances_or_waits:
  assumes "owned (ts, owner, n)" "i < length ts" "lock_effect (ts ! i) \<noteq> Ended"
  shows "advances C (ts, owner, n) i
    \<or> lock_effect (ts ! i) = Acquire \<and> (\<exists>j < length ts. j \<noteq> i \<and> owner = Some j \<and> advances C (ts, owner, n) j)"
proof (cases "lock_effect (ts ! i) = Acquire \<and> owner \<noteq> None")
  case True
  then obtain j where o: "owner = Some j" by auto
  have j: "j < length ts" "in_section (ts ! j)" "\<not> in_section (ts ! i)"
    using assms(1) o section_effect(1) True by (auto simp: owned_def)
  have "lock_effect (ts ! j) \<in> {Free, Release}" using section_effect j(2) by (cases "lock_effect (ts ! j)") auto
  with True o j advances_unlocked [OF j(1)] show ?thesis by auto
next
  case False
  then show ?thesis using assms(3) advances_unlocked [OF assms(2), of owner C n] by (cases "lock_effect (ts ! i)") auto
qed

lemma ended_returned: "lock_effect t = Ended \<longleftrightarrow> (\<exists>r. t = Returned r)"
  by (cases t) simp_all

section \<open>Sections as single steps\<close>

definition after_check :: "crypto \<Rightarrow> mesh_node \<Rightarrow> packet \<Rightarrow> bytes \<Rightarrow> unit outcome \<Rightarrow> task" where
  "after_check C n p aad r = (case bindO r (\<lambda>_. decrypt_v3 C n p aad) of
     Err e \<Rightarrow> Opened (Err e) | Panic \<Rightarrow> Opened Panic | Ok pt \<Rightarrow> OpenRecord p pt)"

definition countable :: "mesh_node \<Rightarrow> u32 \<Rightarrow> bool" where
  "countable n c \<longleftrightarrow> \<not> m_poisoned n \<and> u32_try_from (length (peers (m_rx_state n))) = Some c"

text \<open>
  Which state of a call, with its sections as single steps, a thread stands for. An export takes its
  step when it loads the sequence: it holds the lock from before the count of the peers until after they
  are copied, so that what it copies later is what it could have copied then.
\<close>

fun stands_for :: "crypto \<Rightarrow> mesh_node \<Rightarrow> thread \<Rightarrow> task \<Rightarrow> bool" where
  "stands_for C n (SealLoad pt aad now) t \<longleftrightarrow> t = SealStart pt aad now"
| "stands_for C n (SealFetch e pt aad now) t \<longleftrightarrow> t = SealDraw e pt aad now"
| "stands_for C n (SealLock p) t \<longleftrightarrow> t = SealFold p"
| "stands_for C n (SealAdd p) t \<longleftrightarrow> t = SealFold p"
| "stands_for C n (SealUnlock p) t \<longleftrightarrow> t = Sealed (Ok p)"
| "stands_for C n (OpenTests p aad now) t \<longleftrightarrow> t = OpenStart p aad now"
| "stands_for C n (OpenLock p aad now) t \<longleftrightarrow> t = OpenStart p aad now
     \<and> p_version p = WIRE_VERSION_V3 \<and> \<not> max_time_drift_ms n < abs_diff now (p_timestamp_ms p)"
| "stands_for C n (OpenCheck p aad now) t \<longleftrightarrow> t = OpenStart p aad now
     \<and> p_version p = WIRE_VERSION_V3 \<and> \<not> max_time_drift_ms n < abs_diff now (p_timestamp_ms p)"
| "stands_for C n (OpenUnlock p aad r) t \<longleftrightarrow> t = after_check C n p aad r"
| "stands_for C n (OpenDecrypt p aad) t \<longleftrightarrow> t = after_check C n p aad (Ok ())"
| "stands_for C n (OpenRelock p pt) t \<longleftrightarrow> t = OpenRecord p pt"
| "stands_for C n (OpenNote p pt) t \<longleftrightarrow> t = OpenRecord p pt"
| "stands_for C n (OpenLeave m) t \<longleftrightarrow> t = Opened m"
| "stands_for C n (RestoreRead bs wrap) t \<longleftrightarrow> t = RestoreStart bs wrap"
| "stands_for C n (RestoreStoreEpoch st e) t \<longleftrightarrow> t = RestoreEpoch st e"
| "stands_for C n (RestoreStoreSeq st) t \<longleftrightarrow> t = RestoreSeq st"
| "stands_for C n (RestoreLock st) t \<longleftrightarrow> t = RestoreRx st"
| "stands_for C n (RestoreReplace st) t \<longleftrightarrow> t = RestoreRx st"
| "stands_for C n (RestoreLeave u) t \<longleftrightarrow> t = Restored u"
| "stands_for C n (ExportLock rnd wrap) t \<longleftrightarrow> t = ExportStart rnd wrap"
| "stands_for C n (ExportCount rnd wrap) t \<longleftrightarrow> t = ExportStart rnd wrap"
| "stands_for C n (ExportEpoch rnd wrap c) t \<longleftrightarrow> t = ExportStart rnd wrap \<and> countable n c"
| "stands_for C n (ExportSeq rnd wrap c e) t \<longleftrightarrow> t = ExportStart rnd wrap \<and> countable n c \<and> e = m_epoch n"
| "stands_for C n (ExportCopy rnd wrap c e s) t \<longleftrightarrow> t = Exported (export_seal C rnd n wrap (export_raw n c e s))"
| "stands_for C n (ExportUnlock rnd wrap r) t \<longleftrightarrow> t = Exported (bindO r (export_seal C rnd n wrap))"
| "stands_for C n (ExportEncrypt rnd wrap raw) t \<longleftrightarrow> t = Exported (export_seal C rnd n wrap raw)"
| "stands_for C n (Returned r) t \<longleftrightarrow> t = r"

fun exporting :: "thread \<Rightarrow> bool" where
  "exporting (ExportLock rnd wrap) = True" | "exporting (ExportCount rnd wrap) = True"
| "exporting (ExportEpoch rnd wrap c) = True" | "exporting (ExportSeq rnd wrap c e) = True"
| "exporting (ExportCopy rnd wrap c e s) = True" | "exporting (ExportUnlock rnd wrap r) = True"
| "exporting (ExportEncrypt rnd wrap raw) = True" | "exporting t = False"

fun restoring :: "thread \<Rightarrow> bool" where
  "restoring (RestoreRead bs wrap) = True" | "restoring (RestoreStoreEpoch st e) = True"
| "restoring (RestoreStoreSeq st) = True" | "restoring (RestoreLock st) = True"
| "restoring (RestoreReplace st) = True" | "restoring (RestoreLeave u) = True" | "restoring t = False"

lemma open_guard_parts:
  "open_guard C n p aad now =
     (if p_version p \<noteq> WIRE_VERSION_V3 then Err (VersionNoSoportada (p_version p))
      else if max_time_drift_ms n < abs_diff now (p_timestamp_ms p) then Err TiempoExpiradoOInvalido
      else bindO (first_check n p) (\<lambda>_. decrypt_v3 C n p aad))"
  by (simp add: open_guard_def first_check_def split: option.splits)

lemma export_parts:
  "countable n c \<Longrightarrow> export_checkpoint C rnd n wrap = export_seal C rnd n wrap (export_raw n c (m_epoch n) (m_tx_seq n))"
  by (simp add: countable_def export_checkpoint_def export_seal_def export_raw_def lock_rx_def Let_def)

text \<open>One access of a thread is a step of its call or none.\<close>

lemma open_check_simulated:
  assumes "p_version p = WIRE_VERSION_V3" "\<not> max_time_drift_ms n < abs_diff now (p_timestamp_ms p)"
  shows "task_step C (OpenStart p aad now) n = (after_check C n p aad (first_check n p), n)"
  using assms by (simp add: open_guard_parts after_check_def split: outcome.splits)

lemma open_note_simulated:
  "task_step C (OpenRecord p pt) n = (Opened (fst (open_record C n p pt)), snd (open_record C n p pt))"
  by (simp split: prod.splits)

lemma export_count_fails:
  assumes "bindO (ok_or Cifrado (lock_rx n)) (\<lambda>guard. ok_or AadDemasiadoLargo (u32_try_from (length (peers guard)))) = r"
  shows "r = Err e \<Longrightarrow> export_checkpoint C rnd n wrap = Err e" "r \<noteq> Panic" "r = Ok c \<Longrightarrow> countable n c"
  using assms by (auto simp: export_checkpoint_def countable_def lock_rx_def split: if_splits option.splits)

lemma access_simulated:
  assumes "stands_for C n t u" "access C t n = (t', n')" "lock_effect t \<noteq> Ended"
  shows "n' = n \<and> stands_for C n' t' u \<or> \<not> finished u \<and> (\<exists>u'. task_step C u n = (u', n') \<and> stands_for C n' t' u')"
proof (cases t)
  case (OpenCheck p aad now)
  then show ?thesis using assms(1,2) open_check_simulated [of p n now C aad] by auto
next
  case (OpenNote p pt)
  then show ?thesis using assms(1,2) open_note_simulated [of C p pt n] by (auto split: prod.splits)
next
  case (OpenTests p aad now)
  then show ?thesis using assms(1,2) by (auto simp: open_guard_parts split: if_splits)
next
  case (ExportCount rnd wrap)
  then show ?thesis using assms(1,2) export_count_fails [OF refl, of n] by (auto split: outcome.splits)
next
  case (ExportSeq rnd wrap c e)
  then show ?thesis using assms(1,2) export_parts [of n c C rnd wrap] by auto
next
  case (SealFetch e pt aad now)
  then show ?thesis using assms(1,2) by (auto simp: Let_def split: outcome.splits)
next
  case (RestoreRead bs wrap)
  then show ?thesis using assms(1,2) by (auto split: outcome.splits)
next
  case (RestoreReplace st)
  then show ?thesis using assms(1,2) by (auto split: option.splits)
next
  case (OpenUnlock p aad r)
  then show ?thesis using assms(1,2) by (cases r) (auto simp: after_check_def)
next
  case (OpenDecrypt p aad)
  then show ?thesis using assms(1,2) by (cases "decrypt_v3 C n p aad") (auto simp: after_check_def)
next
  case (ExportUnlock rnd wrap r)
  then show ?thesis using assms(1,2) by (cases r) auto
qed (use assms in auto)

lemma open_record_config: "same_config n (snd (open_record C n p pt)) \<and> m_epoch (snd (open_record C n p pt)) = m_epoch n"
  using peer_check_not_Panic
  by (simp add: open_record_def Let_def same_config_def same_keys_def fold_in_def lock_rx_def split: option.splits outcome.splits)

lemma access_frame:
  assumes "access C t n = (t', n')"
  shows "same_config n n'" "\<not> in_section t \<Longrightarrow> m_rx_state n' = m_rx_state n" "\<not> restoring t \<Longrightarrow> m_epoch n' = m_epoch n"
    "restoring t' \<Longrightarrow> restoring t" "exporting t' \<Longrightarrow> exporting t"
proof -
  have "same_config n n' \<and> (\<not> in_section t \<longrightarrow> m_rx_state n' = m_rx_state n) \<and> (\<not> restoring t \<longrightarrow> m_epoch n' = m_epoch n)
      \<and> (restoring t' \<longrightarrow> restoring t) \<and> (exporting t' \<longrightarrow> exporting t)"
  proof (cases t)
    case (OpenNote p pt)
    then show ?thesis using assms open_record_config [of n C p pt] by (auto split: prod.splits)
  qed (use assms in \<open>auto simp: Let_def same_config_def same_keys_def fold_in_def lock_rx_def split: outcome.splits option.splits if_splits\<close>)
  then show "same_config n n'" "\<not> in_section t \<Longrightarrow> m_rx_state n' = m_rx_state n" "\<not> restoring t \<Longrightarrow> m_epoch n' = m_epoch n"
    "restoring t' \<Longrightarrow> restoring t" "exporting t' \<Longrightarrow> exporting t" by auto
qed

lemma export_frame:
  assumes "same_config n n'"
  shows "export_seal C rnd n' = export_seal C rnd n" "m_rx_state n' = m_rx_state n \<Longrightarrow> export_raw n' = export_raw n"
    "m_rx_state n' = m_rx_state n \<Longrightarrow> countable n' = countable n"
  using assms by (auto simp: fun_eq_iff same_config_def same_keys_def export_seal_def export_raw_def countable_def mesh_aad_def)

lemma after_check_frame: "same_config n n' \<Longrightarrow> after_check C n' = after_check C n"
  using decrypt_same_keys [of n n' C] by (auto simp: fun_eq_iff same_config_def after_check_def)

lemma stands_for_frame:
  assumes "stands_for C n t u" "same_config n n'" "in_section t \<Longrightarrow> m_rx_state n' = m_rx_state n"
    "exporting t \<Longrightarrow> m_epoch n' = m_epoch n"
  shows "stands_for C n' t u"
proof -
  have "max_time_drift_ms n' = max_time_drift_ms n" using assms(2) by (simp add: same_config_def)
  then show ?thesis
    using assms(1,3,4) by (cases t) (auto simp: export_frame [OF assms(2)] after_check_frame [OF assms(2)])
qed

text \<open>
  An export stands for a single step only while no restore stores the counters, as in the theory
  \<open>Concurrency\<close>.
\<close>

definition apart :: "thread list \<Rightarrow> bool" where
  "apart ts \<longleftrightarrow> (\<forall>t \<in> set ts. \<forall>u \<in> set ts. \<not> (exporting t \<and> restoring u))"

lemma step_simulated:
  assumes "access C (ts ! i) n = (t, n')" "lock_effect (ts ! i) \<noteq> Ended" "i < length ts"
    and "\<forall>j < length ts. j \<noteq> i \<and> in_section (ts ! j) \<longrightarrow> \<not> in_section (ts ! i)"
    and "apart ts" "list_all2 (stands_for C n) ts us"
  shows "apart (ts[i := t]) \<and> (\<exists>us'. list_all2 (stands_for C n') (ts[i := t]) us' \<and> (us' = us \<and> n' = n \<or> sys_step C (us, n) (us', n')))"
proof (intro conjI)
  note fr = access_frame [OF assms(1)]
  have "ts ! i \<in> set ts" using assms(3) by simp
  with assms(5) fr(4,5) show "apart (ts[i := t])"
    using set_update_subset_insert [of ts i t] by (auto simp: apart_def)
  have len: "length us = length ts" and st: "stands_for C n (ts ! j) (us ! j)" if "j < length ts" for j
    using assms(6) that by (simp_all add: list_all2_conv_all_nth)
  have others: "stands_for C n' (ts ! j) (us ! j)" if "j < length ts" "j \<noteq> i" for j
  proof (rule stands_for_frame [OF st [OF that(1)] fr(1)])
    show "m_rx_state n' = m_rx_state n" if "in_section (ts ! j)" using assms(4) \<open>j < length ts\<close> \<open>j \<noteq> i\<close> that fr(2) by blast
    show "m_epoch n' = m_epoch n" if "exporting (ts ! j)"
      using assms(5) that \<open>j < length ts\<close> \<open>ts ! i \<in> set ts\<close> fr(3) by (auto simp: apart_def)
  qed
  have all: "list_all2 (stands_for C n') (ts[i := t]) (us[i := u])" if "stands_for C n' t u" for u
    using that others assms(3,6) by (auto simp: list_all2_conv_all_nth nth_list_update)
  from access_simulated [OF st [OF assms(3)] assms(1,2)]
  show "\<exists>us'. list_all2 (stands_for C n') (ts[i := t]) us' \<and> (us' = us \<and> n' = n \<or> sys_step C (us, n) (us', n'))"
  proof (elim disjE conjE exE)
    assume "n' = n" "stands_for C n' t (us ! i)"
    then show ?thesis using all [of "us ! i"] by auto
  next
    fix u' assume u: "\<not> finished (us ! i)" "task_step C (us ! i) n = (u', n')" "stands_for C n' t u'"
    have "sys_step C (us, n) (us[i := u'], n')" using sys_step.run [OF _ u(1,2)] len [OF assms(3)] assms(3) by simp
    with all [OF u(3)] show ?thesis by blast
  qed
qed

lemma lock_step_simulated:
  assumes "lock_step C (ts, ow, n) (ts', ow', n')" "owned (ts, ow, n)" "apart ts" "list_all2 (stands_for C n) ts us"
  shows "apart ts' \<and> (\<exists>us'. list_all2 (stands_for C n') ts' us' \<and> (us' = us \<and> n' = n \<or> sys_step C (us, n) (us', n')))"
proof -
  obtain i t where s: "ts' = ts[i := t]" "i < length ts" "lock_effect (ts ! i) \<noteq> Ended" "access C (ts ! i) n = (t, n')"
    using assms(1) by cases auto
  have "\<forall>j < length ts. j \<noteq> i \<and> in_section (ts ! j) \<longrightarrow> \<not> in_section (ts ! i)" using assms(2) s(2) by (auto simp: owned_def)
  from step_simulated [OF s(4,3,2) this assms(3,4)] show ?thesis by (simp only: s(1))
qed

lemma lock_reach_simulated:
  assumes "lock_reach C (ts0, ow0, n0) k s" "owned (ts0, ow0, n0)" "apart ts0" "list_all2 (stands_for C n0) ts0 vs"
  shows "apart (fst s) \<and> (\<exists>j us. sys_reach C (vs, n0) j (us, snd (snd s)) \<and> list_all2 (stands_for C (snd (snd s))) (fst s) us)"
  using assms(1)
proof (induction rule: lock_reach.induct)
  case start
  show ?case using assms(3,4) sys_reach.start by fastforce
next
  case (step k s t)
  obtain ts ow n ts' ow' n' where s: "s = (ts, ow, n)" "t = (ts', ow', n')" by (metis prod.exhaust)
  from step.IH obtain j us where u: "apart ts" "sys_reach C (vs, n0) j (us, n)" "list_all2 (stands_for C n) ts us"
    by (auto simp: s(1))
  have "owned (ts, ow, n)" using owned_reach [OF step.hyps(1) assms(2)] by (simp only: s(1))
  from lock_step_simulated [OF step.hyps(2) [unfolded s] this u(1,3)] obtain us' where
    "apart ts'" "list_all2 (stands_for C n') ts' us'" "us' = us \<and> n' = n \<or> sys_step C (us, n) (us', n')" by blast
  with u(2) show ?case using sys_reach.step [OF u(2)] by (auto simp: s(2))
qed

lemma enter_stands_for: "is_call c \<Longrightarrow> stands_for C n (enter c) c"
  by (cases c) simp_all

lemma enter_kinds: "exporting (enter c) \<longleftrightarrow> (\<exists>rnd wrap. c = ExportStart rnd wrap)" "restoring (enter c) \<longleftrightarrow> (\<exists>bs wrap. c = RestoreStart bs wrap)"
  by (cases c; simp)+

section \<open>Schedules, to evaluate\<close>

fun run_threads :: "crypto \<Rightarrow> nat list \<Rightarrow> threads \<Rightarrow> threads option" where
  "run_threads C [] s = Some s"
| "run_threads C (i # is) (ts, owner, n) =
     (if i < length ts then
        (case access C (ts ! i) n of (t, n') \<Rightarrow>
           (case lock_effect (ts ! i) of
              Free \<Rightarrow> run_threads C is (ts[i := t], owner, n')
            | Acquire \<Rightarrow> if owner = None then run_threads C is (ts[i := t], Some i, n') else None
            | Release \<Rightarrow> run_threads C is (ts[i := t], None, n')
            | Ended \<Rightarrow> None))
      else None)"

lemma run_threads_reach:
  "lock_reach C s0 k s \<Longrightarrow> run_threads C is s = Some s' \<Longrightarrow> lock_reach C s0 (k + length is) s'"
proof (induction "is" arbitrary: s k)
  case (Cons i "is")
  obtain ts ow n where s: "s = (ts, ow, n)" by (metis prod.exhaust)
  obtain t n' where a: "access C (ts ! i) n = (t, n')" by fastforce
  have i: "i < length ts" using Cons.prems(2) by (simp add: s split: if_splits)
  obtain ow' where "lock_step C s (ts[i := t], ow', n')" "run_threads C is (ts[i := t], ow', n') = Some s'"
    using Cons.prems(2) lock_step.free [OF i _ a] lock_step.acquire [OF i _ a] lock_step.release [OF i _ a] i
    by (cases "lock_effect (ts ! i)") (auto simp: s a split: if_splits)
  from Cons.IH [OF lock_reach.step [OF Cons.prems(1) this(1)] this(2)] show ?case by simp
qed simp

lemmas threads_scheduled = run_threads_reach [OF lock_reach.start, unfolded add_0]

section \<open>Properties\<close>

text \<open>
  C36: the lock blocks no call for ever. Take any number of concurrent calls of \<open>seal_realtime\<close>,
  \<open>open_realtime\<close>, \<open>export_checkpoint\<close> and \<open>restore_checkpoint\<close> on one node and any interleaving of their accesses. It
  has at most eight accesses per call. At every moment each call has returned, or can make its next
  access, or waits for the lock, which then another call owns that can make its next access itself: a
  call never waits for a lock it holds. So an interleaving that cannot go on has all calls returned and
  the lock free.
\<close>

theorem locked_calls_end:
  assumes "lock_reach C (map enter cs, None, n0) k (ts, owner, n)"
  shows "k \<le> 8 * length cs
    \<and> (\<forall>i < length ts. (\<exists>r. ts ! i = Returned r) \<or> advances C (ts, owner, n) i
         \<or> lock_effect (ts ! i) = Acquire \<and> (\<exists>j < length ts. j \<noteq> i \<and> owner = Some j \<and> advances C (ts, owner, n) j))
    \<and> ((\<nexists>s. lock_step C (ts, owner, n) s) \<longrightarrow> (\<forall>t \<in> set ts. \<exists>r. t = Returned r) \<and> owner = None)"
proof -
  have own: "owned (ts, owner, n)" by (rule owned_reach [OF assms owned_start])
  have k: "k \<le> 8 * length cs" using work_reach [OF assms] work_start [of cs] by simp
  have go: "(\<exists>r. ts ! i = Returned r) \<or> advances C (ts, owner, n) i
      \<or> lock_effect (ts ! i) = Acquire \<and> (\<exists>j < length ts. j \<noteq> i \<and> owner = Some j \<and> advances C (ts, owner, n) j)"
    if "i < length ts" for i
    using advances_or_waits [OF own that] ended_returned by blast
  have "(\<forall>t \<in> set ts. \<exists>r. t = Returned r) \<and> owner = None" if "\<nexists>s. lock_step C (ts, owner, n) s"
  proof -
    have "\<not> advances C (ts, owner, n) i" for i using that by (auto simp: advances_def)
    with go have r: "\<exists>r. ts ! i = Returned r" if "i < length ts" for i using that by blast
    moreover have False if "owner = Some i" for i
    proof -
      have "i < length ts" "in_section (ts ! i)" using own that by (auto simp: owned_def)
      with r [of i] show False by auto
    qed
    ultimately show ?thesis by (metis in_set_conv_nth option.exhaust)
  qed
  with k go show ?thesis by blast
qed

text \<open>Two threads open the same packet; the first is held up between its two sections.\<close>

definition sample_start :: threads where
  "sample_start = (map enter (map call_task sample_calls), None, sample_mesh 1 5)"

definition sample_waiting :: threads where
  "sample_waiting = the (run_threads toy ([0, 0, 0, 0, 0] @ replicate 7 1) sample_start)"

definition sample_returned :: threads where
  "sample_returned = the (run_threads toy ([0, 0, 0, 0, 0] @ replicate 8 1 @ [0, 0, 0]) sample_start)"

definition returned_opens :: "thread list \<Rightarrow> bytes outcome option list" where
  "returned_opens ts = open_results (map (\<lambda>t. case t of Returned r \<Rightarrow> r | _ \<Rightarrow> Sealed Panic) ts)"

lemma sample_waiting_run:
  "case run_threads toy ([0, 0, 0, 0, 0] @ replicate 7 1) sample_start of
      None \<Rightarrow> False | Some (ts, owner, n) \<Rightarrow> lock_effect (ts ! 0) = Acquire \<and> owner = Some 1 \<and> length ts = 2"
  by code_simp

lemma sample_returned_run:
  "case run_threads toy ([0, 0, 0, 0, 0] @ replicate 8 1 @ [0, 0, 0]) sample_start of
      None \<Rightarrow> False | Some (ts, owner, n) \<Rightarrow> returned_opens ts = [Some (Err Repetido), Some (Ok [104])]"
  by code_simp

lemma returned_opens_pair:
  assumes "returned_opens ts = [Some a, Some b]"
  shows "ts = [Returned (Opened a), Returned (Opened b)]"
proof -
  have one: "t = Returned (Opened m)"
    if "(case (case t of Returned r \<Rightarrow> r | _ \<Rightarrow> Sealed Panic) of Opened r \<Rightarrow> Some r | _ \<Rightarrow> None) = Some m" for t m
    using that by (cases t) (auto split: task.splits)
  show ?thesis using assms by (auto simp: returned_opens_def open_results_def map_eq_Cons_conv dest!: one)
qed

lemma sample_waiting_reach:
  obtains ts n where "lock_reach toy sample_start 12 (ts, Some 1, n)" "lock_effect (ts ! 0) = Acquire" "length ts = 2"
    "sample_waiting = (ts, Some 1, n)"
proof (cases "run_threads toy ([0, 0, 0, 0, 0] @ replicate 7 1) sample_start")
  case (Some s)
  with sample_waiting_run threads_scheduled [OF Some] that show thesis
    by (cases s) (simp add: numeral_eq_Suc sample_waiting_def)
qed (use sample_waiting_run in simp)

lemma sample_returned_reach:
  obtains ow n where "lock_reach toy sample_start 16 ([Returned (Opened (Err Repetido)), Returned (Opened (Ok [104]))], ow, n)"
    "snd (snd sample_returned) = n"
proof (cases "run_threads toy ([0, 0, 0, 0, 0] @ replicate 8 1 @ [0, 0, 0]) sample_start")
  case (Some s)
  obtain ts ow n where s: "s = (ts, ow, n)" by (metis prod.exhaust)
  have "ts = [Returned (Opened (Err Repetido)), Returned (Opened (Ok [104]))]"
    by (rule returned_opens_pair) (use sample_returned_run [unfolded Some s] in simp)
  moreover have "lock_reach toy sample_start 16 s" using threads_scheduled [OF Some] by simp
  moreover have "snd (snd sample_returned) = n" by (simp only: sample_returned_def Some option.sel s snd_conv)
  ultimately show thesis using that [of ow n] by (simp add: s)
qed (use sample_returned_run in simp)

theorem locked_calls_end_witness:
  "lock_effect (fst sample_waiting ! 0) = Acquire \<and> fst (snd sample_waiting) = Some 1 \<and> advances toy sample_waiting 1"
proof -
  obtain ts n where s: "lock_reach toy sample_start 12 (ts, Some 1, n)" "lock_effect (ts ! 0) = Acquire" "length ts = 2"
    "sample_waiting = (ts, Some 1, n)"
    by (rule sample_waiting_reach)
  have "\<not> advances toy (ts, Some 1, n) 0" using s(2,3) by (simp add: advances_blocked)
  then have "advances toy (ts, Some 1, n) 1"
    using locked_calls_end [OF s(1) [unfolded sample_start_def]] s(2,3) ended_returned [of "ts ! 0"]
    by (metis effect.distinct(9) option.inject zero_less_numeral)
  with s(2) show ?thesis by (simp add: s(4))
qed

text \<open>
  C14: a section under the lock is one step. Whatever concurrent calls of \<open>seal_realtime\<close>, \<open>open_realtime\<close>,
  \<open>export_checkpoint\<close> and \<open>restore_checkpoint\<close> do with the lock taken and given back in separate steps, the
  calls with sections as single steps can do too: they reach the same node, and every call that has
  returned has the same result there. An export is one step from its \<open>lock()\<close> to the end, if no restore is among the
  calls.
\<close>

theorem lock_sections_atomic:
  assumes "lock_reach C (map enter cs, None, n0) k (ts, owner, n)" and "\<forall>c \<in> set cs. is_call c"
    and "\<forall>rnd wrap bs wrap'. \<not> (ExportStart rnd wrap \<in> set cs \<and> RestoreStart bs wrap' \<in> set cs)"
  shows "\<exists>j us. sys_reach C (cs, n0) j (us, n) \<and> length us = length ts \<and> (\<forall>i < length ts. \<forall>r. ts ! i = Returned r \<longrightarrow> us ! i = r)"
proof -
  have "list_all2 (stands_for C n0) (map enter cs) cs"
    using assms(2) enter_stands_for by (auto simp: list_all2_conv_all_nth)
  moreover have "apart (map enter cs)" using assms(3) by (auto simp: apart_def enter_kinds)
  ultimately obtain j us where u: "sys_reach C (cs, n0) j (us, n)" "list_all2 (stands_for C n) ts us"
    using lock_reach_simulated [where vs = cs, OF assms(1) owned_start] by auto
  have "us ! i = r" if "i < length ts" "ts ! i = Returned r" for i r
    using list_all2_nthD [OF u(2) that(1)] that(2) by simp
  with u show ?thesis using list_all2_lengthD [OF u(2)] by metis
qed

theorem lock_sections_atomic_witness:
  "\<exists>j us. sys_reach toy (map call_task sample_calls, sample_mesh 1 5) j (us, snd (snd sample_returned))
     \<and> us ! 0 = Opened (Err Repetido) \<and> us ! 1 = Opened (Ok [104])"
proof -
  obtain ow n where s: "lock_reach toy sample_start 16 ([Returned (Opened (Err Repetido)), Returned (Opened (Ok [104]))], ow, n)"
    "snd (snd sample_returned) = n"
    by (rule sample_returned_reach)
  obtain p where c: "sample_calls = [Open p [7] 60, Open p [7] 60]" by (rule sample_calls_eq)
  have "\<forall>c \<in> set (map call_task sample_calls). is_call c"
    "\<forall>rnd wrap bs wrap'. \<not> (ExportStart rnd wrap \<in> set (map call_task sample_calls) \<and> RestoreStart bs wrap' \<in> set (map call_task sample_calls))"
    unfolding c by simp_all
  from lock_sections_atomic [OF s(1) [unfolded sample_start_def] this] show ?thesis
    unfolding s(2) by (auto simp: less_Suc_eq)
qed

end
