(* ===== verification/Recovery.thy ===== *)
theory Recovery
  imports Files Checkpoint
begin

text \<open>
  A node that keeps its state and its records on disk, across a power cut: the composition that the crate
  is made for (\<open>README.md\<close>, \<open>lib.rs\<close>). A client exports checkpoints, commits them to a dual-slot container and
  saves it with \<open>save_atomic\<close>; it appends every sealed record to the log with \<open>append_to_file\<close>, and stops at the
  first error. After the cut, a new process loads and restores the container and recovers the log.
  The two client programs are ours, the calls they make are the code's.
\<close>

section \<open>The state of the node\<close>

definition restart :: "crypto \<Rightarrow> mesh_node \<Rightarrow> bytes \<Rightarrow> path \<Rightarrow> mesh_node io" where
  "restart C fresh wrap path =
     bindW (load_from_file path) (\<lambda>d w.
       (case recover_latest_valid C d wrap of
          Err e \<Rightarrow> (Err e, w)
        | Panic \<Rightarrow> (Panic, w)
        | Ok (g, checkpoint) \<Rightarrow>
            (case restore_checkpoint C fresh checkpoint wrap of
               (Ok _, n) \<Rightarrow> (Ok n, w) | (Err e, _) \<Rightarrow> (Err e, w) | (Panic, _) \<Rightarrow> (Panic, w))))"

text \<open>
  A node goes on after a past in which \<open>out\<close> was sealed and \<open>acc\<close> accepted: whatever it does, it seals under
  later epochs and accepts nothing again; and it goes on exactly where that past ended, if its
  integrity hash continues as well.
\<close>

definition goes_on :: "crypto \<Rightarrow> mesh_node \<Rightarrow> packet list \<Rightarrow> packet list \<Rightarrow> bool" where
  "goes_on C m out acc \<longleftrightarrow> (\<forall>cs out' acc' m'. mesh_run C m cs = ((out', acc'), m') \<longrightarrow>
     (\<forall>p \<in> set out. \<forall>q \<in> set out'. p_epoch p < p_epoch q) \<and> distinct (map mesh_id (acc @ acc')))"

definition continues_hash :: "crypto \<Rightarrow> mesh_node \<Rightarrow> packet list \<Rightarrow> bool" where
  "continues_hash C m past \<longleftrightarrow> (\<forall>cs out' acc' m'. mesh_run C m cs = ((out', acc'), m') \<longrightarrow>
     current_integrity_sha256 m' = integrity C (past @ out' @ acc') (replicate 32 0))"

lemma exported_goes_on:
  assumes "aead_roundtrip C" "aead_length C" "length rnd = 12"
    and "mesh_run C (new_mesh C seed ctx i e d) cs = ((out, acc), n)" "export_checkpoint C rnd n wrap = Ok cp"
    and "mesh_run C n later = ((out2, acc2), n2)" "e \<noteq> - 1" "\<forall>p \<in> set acc. p_sequence p \<noteq> - 1"
  shows "\<exists>m. restore_checkpoint C (new_mesh C seed ctx i e' d') cp wrap = (Ok (), m)
    \<and> goes_on C m (out @ out2) acc \<and> continues_hash C m (out @ acc)"
proof -
  obtain r m where m: "restore_checkpoint C (new_mesh C seed ctx i e' d') cp wrap = (r, m)" by fastforce
  note keep = resumed_no_replay [OF assms(1-5) assms(8) m]
  have "mesh_run C m [] = (([], []), m)" by simp
  from keep [OF this] have "r = Ok ()" by blast
  moreover have "goes_on C m (out @ out2) acc"
    unfolding goes_on_def using keep resumed_epoch_later [OF assms(1-7) m] by auto
  moreover have "continues_hash C m (out @ acc)"
    unfolding continues_hash_def using keep by auto
  ultimately show ?thesis using m by blast
qed

lemma goes_on_prefix:
  assumes "goes_on C m out (acc @ acc2)"
  shows "goes_on C m out acc"
  unfolding goes_on_def
proof (intro allI impI)
  fix cs out' acc' m'
  assume "mesh_run C m cs = ((out', acc'), m')"
  with assms have "(\<forall>p \<in> set out. \<forall>q \<in> set out'. p_epoch p < p_epoch q) \<and> distinct (map mesh_id (acc @ acc2 @ acc'))"
    unfolding goes_on_def append_assoc by blast
  then show "(\<forall>p \<in> set out. \<forall>q \<in> set out'. p_epoch p < p_epoch q) \<and> distinct (map mesh_id (acc @ acc'))"
    by auto
qed

lemma content_survives: "tear (drop (f_safe (inodes w i)) (f_data (inodes w i))) (drop (f_safe (inodes w i)) (f_data (inodes w i)))
    \<Longrightarrow> dir w p = Some i \<Longrightarrow> content w p \<in> survives tear w p"
  unfolding content_def survives_def after_cut_def
  by (auto simp: after_cut_def image_iff intro!: exI [of _ "drop (f_safe (inodes w i)) (f_data (inodes w i))"])

lemma content_tears:
  "content w p \<in> survives any_tear w p" "content w p \<in> survives cut_tear w p"
proof -
  have "any_tear b b" "cut_tear b b" for b by (auto simp: any_tear_def cut_tear_def intro: exI [of _ "length b"])
  then show "content w p \<in> survives any_tear w p" "content w p \<in> survives cut_tear w p"
    using content_survives [of any_tear w _ p] content_survives [of cut_tear w _ p]
    by (cases "dir w p"; auto simp: content_def survives_def)+
qed

text \<open>The machine after a cut whose file holds what was there last, for the witnesses.\<close>

definition power_back :: "world \<Rightarrow> world" where
  "power_back w = w\<lparr>faults := [], dead := False\<rparr>"

lemma power_back_simps [simp]: "calm (power_back w)" "content (power_back w) p = content w p"
  by (simp_all add: power_back_def calm_def content_def)

lemma load_calm: "calm w \<Longrightarrow> content w p = Some x \<Longrightarrow> load_from_file p w = (dual_from_bytes x, w)"
  by (simp add: load_from_file_def read_file_def bindW_def syscall_calm split: outcome.splits)

lemma restart_reads:
  assumes "calm w" "content w p = Some x" "dual_from_bytes x = Ok d" "recover_latest_valid C d wrap = Ok (g, cp)"
    and "restore_checkpoint C fresh cp wrap = (Ok (), m)"
  shows "restart C fresh wrap p w = (Ok m, w)"
  using assms by (simp add: restart_def bindW_def load_calm)

lemma toy_export_length:
  assumes "export_checkpoint toy rnd n wrap = Ok bs" "length rnd = 12" "node_ok n"
  shows "length bs = 89 + 36 * length (peers (m_rx_state n))"
proof -
  have "length (concat (map encode_peer ps)) = 36 * length ps" for ps
    by (induction ps) (auto simp: encode_peer_def)
  with assms show ?thesis
    by (auto simp: export_checkpoint_def bindO_Ok_iff lock_rx_def Let_def node_ok_def MESH_STATE_MAGIC_def
        dest!: aead_lengthD [OF toy_aead_length] split: if_splits)
qed

lemma toy_commits:
  assumes "length rnd = 12" "checked_add (max (generation_a d) (generation_b d)) 1 = Some g"
  shows "\<exists>s. length s = 36 + length p \<and> commit_state toy rnd d p wrap = (Ok g,
    if generation_a d \<le> generation_b d then d\<lparr>slot_a := s, generation_a := g\<rparr> else d\<lparr>slot_b := s, generation_b := g\<rparr>)"
proof -
  obtain ct where ct: "aead_enc toy wrap rnd (slot_aad g) p = Some ct" by (auto simp: toy_def toy_enc_def)
  with aead_lengthD [OF toy_aead_length ct] assms show ?thesis
    by (intro exI [of _ "u64_to_be g @ rnd @ ct"]) (simp add: commit_state_def seal_slot_def)
qed

lemma toy_two_commits:
  assumes "length cp1 < 2 ^ 31" "length cp2 < 2 ^ 31"
  obtains c1 c2 bs1 bs2 where "dual_run toy [8] [(replicate 12 1, cp1)] = (c1, [cp1])"
    "dual_run toy [8] ([(replicate 12 1, cp1)] @ [(replicate 12 2, cp2)]) = (c2, [cp2, cp1])"
    "dual_to_bytes c1 = Ok bs1" "dual_to_bytes c2 = Ok bs2"
proof -
  obtain s1 where s1: "length s1 = 36 + length cp1"
    "commit_state toy (replicate 12 1) dual_new cp1 [8] = (Ok 1, dual_new\<lparr>slot_a := s1, generation_a := 1\<rparr>)"
    using toy_commits [of "replicate 12 1" dual_new 1 cp1 "[8]"] by (auto simp: dual_new_def checked_add_def)
  let ?c1 = "dual_new\<lparr>slot_a := s1, generation_a := 1\<rparr>"
  obtain s2 where s2: "length s2 = 36 + length cp2"
    "commit_state toy (replicate 12 2) ?c1 cp2 [8] = (Ok 2, ?c1\<lparr>slot_b := s2, generation_b := 2\<rparr>)"
    using toy_commits [of "replicate 12 2" ?c1 2 cp2 "[8]"] by (auto simp: dual_new_def checked_add_def)
  show thesis
    by (rule that [of ?c1 "?c1\<lparr>slot_b := s2, generation_b := 2\<rparr>" "dual_layout ?c1" "dual_layout (?c1\<lparr>slot_b := s2, generation_b := 2\<rparr>)"])
      (use s1 s2 assms in \<open>simp_all add: dual_run_def dual_step_def dual_to_bytes_Ok_iff dual_new_def\<close>)
qed

text \<open>
  C3: a node survives a power cut. A node runs, exports a checkpoint that is committed and saved, runs on, exports
  another, which is committed and saved with any failures of the system and a cut at any point, and runs
  on until the end. The process started after the cut, whatever the file then holds, restarts without an error;
  all it seals is in a later epoch than anything sealed before the cut, and it accepts nothing
  again that was accepted before the first checkpoint. If the last save had succeeded and its file
  is there, the same holds for the second checkpoint, and the integrity hash continues from it.
\<close>

theorem node_survives_power_cut:
  assumes "aead_roundtrip C" and "aead_length C"
    and "mesh_run C (new_mesh C seed ctx i e d) cs1 = ((out1, acc1), n1)" and "mesh_run C n1 cs2 = ((out2, acc2), n2)"
    and "mesh_run C n2 cs3 = ((out3, acc3), n3)" and "e \<noteq> - 1" and "\<forall>p \<in> set (acc1 @ acc2). p_sequence p \<noteq> - 1"
    and "export_checkpoint C rnd1 n1 wrap = Ok cp1" and "export_checkpoint C rnd2 n2 wrap = Ok cp2"
    and "length rnd1 = 12" and "length rnd2 = 12" and "\<forall>op \<in> set (ops @ [(rnd, cp2)]). length (fst op) = 12"
    and "dual_run C wrap ops = (c1, cp1 # rest)" and "dual_run C wrap (ops @ [(rnd, cp2)]) = (c2, cp2 # cp1 # rest)"
    and "dual_to_bytes c1 = Ok bs1" and "dual_to_bytes c2 = Ok bs2" and "CHR ''.'' \<notin> set pid"
    and "saving path {Some bs1} (with_extension path (''tmp.'' @ pid)) w" and "save_atomic pid c2 path w = (r, w')"
    and "calm w0" and "content w0 path \<in> survives any_tear w' path"
  shows "\<exists>m. restart C (new_mesh C seed ctx i e' d') wrap path w0 = (Ok m, w0)
    \<and> goes_on C m (out1 @ out2 @ out3) acc1
    \<and> (r = Ok () \<and> content w0 path = content w' path \<longrightarrow>
         goes_on C m (out1 @ out2 @ out3) (acc1 @ acc2) \<and> continues_hash C m (out1 @ out2 @ acc1 @ acc2))"
proof -
  let ?n = "new_mesh C seed ctx i e d" and ?m = "new_mesh C seed ctx i e' d'"
  have run12: "mesh_run C ?n (cs1 @ cs2) = ((out1 @ out2, acc1 @ acc2), n2)" using assms(3,4) by (simp add: mesh_run_append)
  have run23: "mesh_run C n1 (cs2 @ cs3) = ((out2 @ out3, acc2 @ acc3), n3)" using assms(4,5) by (simp add: mesh_run_append)
  have a1: "\<forall>p \<in> set acc1. p_sequence p \<noteq> - 1" using assms(7) by simp
  obtain m1 where m1: "restore_checkpoint C ?m cp1 wrap = (Ok (), m1)" "goes_on C m1 (out1 @ out2 @ out3) acc1"
    using exported_goes_on [OF assms(1,2,10,3,8) run23 assms(6) a1] by blast
  obtain m2 where m2: "restore_checkpoint C ?m cp2 wrap = (Ok (), m2)" "goes_on C m2 (out1 @ out2 @ out3) (acc1 @ acc2)"
      "continues_hash C m2 (out1 @ out2 @ acc1 @ acc2)"
    using exported_goes_on [OF assms(1,2,11) run12 assms(9,5,6,7)] by auto
  have reads: "dual_from_bytes bs1 = Ok c1" "dual_from_bytes bs2 = Ok c2"
    using assms(15,16) from_prefix [of c1 "length bs1"] from_prefix [of c2 "length bs2"] length_dual_layout
    unfolding dual_to_bytes_Ok_iff by simp_all
  have o: "\<forall>op \<in> set ops. length (fst op) = 12" using assms(12) by simp
  obtain g1 g2 where rec: "recover_latest_valid C c1 wrap = Ok (g1, cp1)" "recover_latest_valid C c2 wrap = Ok (g2, cp2)"
    using dual_rel_recover [OF dual_run_rel [OF assms(1,2) o, of wrap]] dual_rel_recover [OF dual_run_rel [OF assms(1,2,12), of wrap]]
    by (auto simp: assms(13,14))
  note left = save_leaves [OF assms(16-19)]
  consider (new) "content w0 path = Some bs2" | (old) "content w0 path = Some bs1" using left(1) assms(21) by blast
  then show ?thesis
  proof cases
    case new
    show ?thesis
      using restart_reads [OF assms(20) new reads(2) rec(2) m2(1)] m2(2,3) goes_on_prefix [OF m2(2)] by blast
  next
    case old
    have "restart C ?m wrap path w0 = (Ok m1, w0)" by (rule restart_reads [OF assms(20) old reads(1) rec(1) m1(1)])
    moreover have "goes_on C m1 (out1 @ out2 @ out3) (acc1 @ acc2) \<and> continues_hash C m1 (out1 @ out2 @ acc1 @ acc2)"
      if "r = Ok ()" "content w0 path = content w' path"
    proof -
      have "bs1 = bs2" using left(2) [OF that(1)] that(2) old by simp
      then have "m1 = m2" using reads rec m1(1) m2(1) by simp
      with m2 show ?thesis by simp
    qed
    ultimately show ?thesis using m1(2) by blast
  qed
qed

theorem node_survives_power_cut_witness:
  "\<exists>p cp1 c2 w w' m. fst (seal_realtime toy (sample_mesh 1 5) [104] [7] 50) = Ok p
    \<and> export_checkpoint toy (replicate 12 3) (sample_mesh 1 5) [8] = Ok cp1 \<and> faults w = [Works, Works, PowerCut 9]
    \<and> save_atomic ''7'' c2 sample_path w = (Err (Io []), w')
    \<and> restart toy (new_mesh toy sample_seed [] 1 0 1000) [8] sample_path (power_back w') = (Ok m, power_back w') \<and> goes_on toy m [p] []"
proof -
  have "m_tx_seq (sample_mesh 1 5) \<noteq> - 1" by simp
  from toy_seal [OF this, of 50] obtain p where p: "seal_realtime toy (sample_mesh 1 5) [104] [7] 50 = (Ok p, sealed_node toy (sample_mesh 1 5) p)"
    by blast
  let ?n = "sample_mesh 1 5" and ?n2 = "sealed_node toy (sample_mesh 1 5) p"
  have run1: "mesh_run toy ?n [] = (([], []), ?n)" and run2: "mesh_run toy ?n [Seal [104] [7] 50] = (([p], []), ?n2)"
    and run3: "mesh_run toy ?n2 [] = (([], []), ?n2)" by (simp_all add: p)
  have ok: "node_ok ?n" by (simp add: sample_mesh_def new_mesh_ok)
  have ok2: "node_ok ?n2" using mesh_run_ok(1) [OF run2 [unfolded sample_mesh_def]] by (simp add: sample_mesh_def)
  obtain cp1 where cp1: "export_checkpoint toy (replicate 12 3) ?n [8] = Ok cp1" by (rule toy_sample_export)
  obtain cp2 where cp2: "export_checkpoint toy (replicate 12 4) ?n2 [8] = Ok cp2"
    using toy_exports [of ?n2] by auto
  have "length cp1 < 2 ^ 31" "length cp2 < 2 ^ 31"
    using toy_export_length [OF cp1 _ ok] toy_export_length [OF cp2 _ ok2] by simp_all
  then obtain c1 c2 bs1 bs2 where c: "dual_run toy [8] [(replicate 12 1, cp1)] = (c1, [cp1])"
    "dual_run toy [8] ([(replicate 12 1, cp1)] @ [(replicate 12 2, cp2)]) = (c2, [cp2, cp1])"
    "dual_to_bytes c1 = Ok bs1" "dual_to_bytes c2 = Ok bs2"
    by (rule toy_two_commits)
  let ?w = "one_file sample_path bs1 [Works, Works, PowerCut 9]"
  have pid: "CHR ''.'' \<notin> set ''7''" by simp
  note sv = one_file_saving [OF tmp_differs [OF pid], of sample_path bs1 "[Works, Works, PowerCut 9]"]
  obtain r w' where s: "save_atomic ''7'' c2 sample_path ?w = (r, w')" by fastforce
  have r: "r = Err (Io [])"
    using s by (simp add: save_atomic_def c(4) open_create_def write_all_def sync_file_def syscall_def bindW_def one_file_def
        eff_open_def eff_write_def set_file_def set_dir_def sample_path_def with_extension_def file_stem_def)
  have l: "length (replicate 12 (3 :: u8)) = 12" "length (replicate 12 (4 :: u8)) = 12"
    "\<forall>op \<in> set ([(replicate 12 1, cp1)] @ [(replicate 12 2, cp2)]). length (fst op) = 12" by simp_all
  have e: "(5 :: u64) \<noteq> - 1" "\<forall>p \<in> set ([] @ []). p_sequence p \<noteq> - 1" by simp_all
  from node_survives_power_cut [OF toy_aead_roundtrip toy_aead_length run1 [unfolded sample_mesh_def]
      run2 [unfolded sample_mesh_def] run3 [unfolded sample_mesh_def] e cp1 [unfolded sample_mesh_def] cp2 [unfolded sample_mesh_def]
      l c pid sv s, of "power_back w'" 0 1000]
  obtain m where "restart toy (new_mesh toy sample_seed [] 1 0 1000) [8] sample_path (power_back w') = (Ok m, power_back w')"
    "goes_on toy m [p] []"
    using content_tears(1) [of w' sample_path] by auto
  moreover have "faults ?w = [Works, Works, PowerCut 9]" by (simp add: one_file_def)
  ultimately show ?thesis using p cp1 s unfolding r by (metis fst_conv)
qed

section \<open>The records\<close>

text \<open>A client that seals and appends records until one fails: the records acknowledged, and the disk.\<close>

fun log_session :: "crypto \<Rightarrow> mesh_node \<Rightarrow> journal \<Rightarrow> path \<Rightarrow> bytes \<Rightarrow> (bytes \<times> u64) list \<Rightarrow> world \<Rightarrow> bytes list \<times> world" where
  "log_session C n j path aad [] w = ([], w)"
| "log_session C n j path aad ((pt, now) # rs) w =
     (case seal_realtime C n pt aad now of
        (Ok p, n') \<Rightarrow>
          (case append_to_file C j path p w of
             ((Ok _, j'), w') \<Rightarrow> (case log_session C n' j' path aad rs w' of (acks, w'') \<Rightarrow> (pt # acks, w''))
           | ((_, j'), w') \<Rightarrow> ([], w'))
      | (_, n') \<Rightarrow> ([], w))"

text \<open>The file is a log, synchronized, of packets that \<open>b\<close> decrypts to \<open>pts\<close>, and the journal is at its end.\<close>

definition log_of :: "crypto \<Rightarrow> mesh_node \<Rightarrow> bytes \<Rightarrow> bytes list \<Rightarrow> packet list \<Rightarrow> bool" where
  "log_of C b aad pts ps \<longleftrightarrow> (\<forall>p \<in> set ps. loggable p)
     \<and> list_all2 (\<lambda>pt p. open_persisted_record C b p aad = Ok pt) pts ps"

lemma log_of_snoc: "log_of C b aad pts ps \<Longrightarrow> loggable p \<Longrightarrow> open_persisted_record C b p aad = Ok pt \<Longrightarrow>
    log_of C b aad (pts @ [pt]) (ps @ [p])"
  by (auto simp: log_of_def intro: list_all2_appendI)

lemma log_of_decrypts: "log_of C b aad pts ps \<Longrightarrow> decrypt_recovered_wal C b (report_of C ps t) aad = Ok pts"
  unfolding decrypt_recovered_wal_def report_of_simps log_of_def by (blast intro: decrypt_packets_all)

text \<open>What a cut can leave of a log with a frame being written: the log, or the log and the frame, or a beginning of it.\<close>

lemma log_file_recovers:
  assumes "hash_lengths C" "\<forall>p \<in> set (ps @ [q]). loggable p"
    and "log_file path i (frames C wal_zero ps) (frame C (chain_head C wal_zero ps) (to_bytes q)) w" "c \<in> survives cut_tear w path"
  shows "\<exists>x qs t. c = Some x \<and> recover_from_bytes C x = Ok (report_of C qs t) \<and> (qs = ps \<or> qs = ps @ [q])"
proof -
  let ?old = "frames C wal_zero ps" and ?fr = "frame C (chain_head C wal_zero ps) (to_bytes q)"
  have lg: "\<forall>p \<in> set ps. loggable p" and q: "length (to_bytes q) < 2 ^ 32"
    using assms(2) by (simp_all add: loggable_def)
  obtain k where c: "c = Some (?old @ take k ?fr)" using log_file_survives [OF assms(3)] assms(4) by blast
  show ?thesis
  proof (cases "k < length ?fr")
    case True
    have "take k ?fr = [] \<or> incomplete (take k ?fr)"
      using frame_cut_incomplete [OF assms(1) _ q _ True] assms(1) by (cases "k = 0") auto
    with recover_frames [OF assms(1) lg] c show ?thesis by blast
  next
    case False
    then have "?old @ take k ?fr = frames C wal_zero (ps @ [q])" by (simp add: frames_append)
    with recover_frames [OF assms(1,2), of "[]"] c show ?thesis by auto
  qed
qed

lemma log_done_recovers:
  assumes "hash_lengths C" "log_of C b aad pts ps" "log_done path i (frames C wal_zero ps) w" "c \<in> survives cut_tear w path"
  shows "\<exists>x t. c = Some x \<and> recover_from_bytes C x = Ok (report_of C ps t)"
  using recover_frames [OF assms(1), of ps "[]"] assms(2-4) log_done_survives [OF assms(3)] by (auto simp: log_of_def)

lemma log_session_leaves:
  assumes "hash_lengths C" "aead_length C" "aead_roundtrip C"
    and "log_session C n j path aad rs w = (acks, w')" "same_keys n b"
    and "log_done path i (frames C wal_zero ps) w" "head_sha256 j = chain_head C wal_zero ps" "log_of C b aad pts ps"
    and "c \<in> survives cut_tear w' path"
  shows "\<exists>x qs t m. c = Some x \<and> recover_from_bytes C x = Ok (report_of C qs t)
    \<and> log_of C b aad (pts @ take m (map fst rs)) qs \<and> length acks \<le> m \<and> m \<le> Suc (length acks) \<and> acks = take (length acks) (map fst rs)"
  using assms(4-9)
proof (induction rs arbitrary: n j w acks ps pts)
  case Nil
  then have "acks = []" "w' = w" by simp_all
  with log_done_recovers [OF assms(1) Nil.prems(5,3)] Nil.prems(5,6) show ?case by fastforce
next
  case (Cons r rs)
  obtain pt now where r: "r = (pt, now)" by (cases r)
  have stopped: ?case if "acks = []" "w' = w"
    using log_done_recovers [OF assms(1) Cons.prems(5,3)] Cons.prems(5,6) that by (metis append_Nil2 le_SucI list.size(3) order_refl take_0)
  show ?case
  proof (cases rule: seal_realtime_cases [where C = C and n = n and pt = pt and aad = aad and now = now])
    case (failed e)
    then show ?thesis using stopped Cons.prems(1) by (simp add: r)
  next
    case (sealed p)
    note wf = sealed_packet_loggable [OF assms(1,2) sealed(2)]
    have op: "open_persisted_record C b p aad = Ok pt"
      using seal_at_opens [OF assms(3) Cons.prems(2) sealed(2)] seal_at_header [OF sealed(2)] by (simp add: open_persisted_record_def)
    show ?thesis
    proof (cases "fits p")
      case False
      then have "append_to_file C j path p w = ((Err AadDemasiadoLargo, j), w)"
        by (simp add: append_to_file_def encode_refuses)
      then show ?thesis using stopped Cons.prems(1) sealed(1) by (simp add: r)
    next
      case True
      let ?fr = "frame C (head_sha256 j) (to_bytes p)"
      obtain r1 j1 w1 where a: "append_to_file C j path p w = ((r1, j1), w1)" by (metis prod.collapse)
      note ap = append_writes [OF encode_fits [OF True] Cons.prems(3) a]
      have lp: "loggable p" using wf True by (simp add: loggable_def fits_def)
      note snoc = log_of_snoc [OF Cons.prems(5) lp op]
      have fr: "frames C wal_zero (ps @ [p]) = frames C wal_zero ps @ ?fr"
        "chain_head C wal_zero (ps @ [p]) = compute_frame_sha256 C (head_sha256 j) (to_bytes p)"
        by (simp_all add: frames_append chain_head_append Cons.prems(4))
      show ?thesis
      proof (cases r1)
        case (Ok u)
        obtain acks' where s: "log_session C (sealed_node C n p) j1 path aad rs w1 = (acks', w')" "acks = pt # acks'"
          using Cons.prems(1) sealed(1) a Ok by (auto simp: r split: prod.splits)
        have keys: "same_keys (sealed_node C n p) b"
          using Cons.prems(2) sealed_node_config [of n C p] by (simp add: same_config_def same_keys_def)
        have d: "log_done path i (frames C wal_zero (ps @ [p])) w1" using ap(3) Ok by (simp add: fr)
        have h: "head_sha256 j1 = chain_head C wal_zero (ps @ [p])" by (simp add: ap(1) fr)
        from Cons.IH [OF s(1) keys d h snoc Cons.prems(6)] obtain x qs t m where
          q: "c = Some x" "recover_from_bytes C x = Ok (report_of C qs t)" "log_of C b aad ((pts @ [pt]) @ take m (map fst rs)) qs"
            "length acks' \<le> m" "m \<le> Suc (length acks')" "acks' = take (length acks') (map fst rs)" by blast
        have "log_of C b aad (pts @ take (Suc m) (map fst (r # rs))) qs" using q(3) by (simp add: r)
        with q show ?thesis by (intro exI [of _ x] exI [of _ qs] exI [of _ t] exI [of _ "Suc m"]) (simp add: s(2) r)
      next
        case (Err e)
        then have acks: "acks = []" "w' = w1" using Cons.prems(1) sealed(1) a by (simp_all add: r)
        have "\<forall>p \<in> set (ps @ [p]). loggable p" using Cons.prems(5) lp by (simp add: log_of_def)
        from log_file_recovers [OF assms(1) this, of path i w1 c] ap(4) Cons.prems(6) obtain x qs t where
          q: "c = Some x" "recover_from_bytes C x = Ok (report_of C qs t)" "qs = ps \<or> qs = ps @ [p]"
          unfolding acks(2) Cons.prems(4) by blast
        have "log_of C b aad (pts @ take (if qs = ps then 0 else 1) (map fst (r # rs))) qs"
          using q(3) snoc Cons.prems(5) by (auto simp: r)
        with q show ?thesis
          by (intro exI [of _ x] exI [of _ qs] exI [of _ t] exI [of _ "if qs = ps then 0 else 1"]) (simp add: acks(1))
      qed (simp add: ap(2))
    qed
  qed
qed

text \<open>
  C6: acknowledged records survive a power cut. There is a log file, empty, and its entry in the directory
  is on the medium (\<open>log_done\<close>; \<open>append_to_file\<close> creates a missing file without synchronizing the directory, and
  then the theorem \<open>new_log_not_durable\<close> of \<open>Files\<close> applies instead). A new node writes records to it, sealing and
  appending one after the other, with any failures of the system and a cut at any point. Whatever the
  file can then hold, recovery from it succeeds, and a node of the same seed and context decrypts from it
  every record whose append had returned, in order, and at most the one that was being written.
\<close>

theorem acknowledged_records_survive:
  assumes "hash_lengths C" and "aead_length C" and "aead_roundtrip C"
    and "log_done path i [] w" and "log_session C (new_mesh C seed ctx nid e d) wal_new path aad rs w = (acks, w')"
    and "calm w0" and "content w0 path \<in> survives cut_tear w' path"
  shows "\<exists>j r w1 m. recover_from_file C path w0 = (Ok (j, r), w1)
    \<and> decrypt_recovered_wal C (new_mesh C seed ctx nid' e' d') r aad = Ok (take m (map fst rs))
    \<and> acks = take (length acks) (map fst rs) \<and> length acks \<le> m \<and> m \<le> Suc (length acks)"
proof -
  let ?b = "new_mesh C seed ctx nid' e' d'"
  have start: "log_done path i (frames C wal_zero []) w" "head_sha256 wal_new = chain_head C wal_zero []" "log_of C ?b aad [] []"
    using assms(4) by (simp_all add: wal_new_def log_of_def)
  from log_session_leaves [OF assms(1-3,5) new_mesh_keys start assms(7)] obtain x qs t m where
    q: "content w0 path = Some x" "recover_from_bytes C x = Ok (report_of C qs t)" "log_of C ?b aad (take m (map fst rs)) qs"
      "length acks \<le> m" "m \<le> Suc (length acks)" "acks = take (length acks) (map fst rs)"
    unfolding append_Nil by blast
  obtain i0 s0 where i0: "dir w0 path = Some i0" "inodes w0 i0 = \<lparr>f_data = x, f_safe = s0\<rparr>"
  proof -
    obtain i0 where "dir w0 path = Some i0" "f_data (inodes w0 i0) = x" using q(1) by (auto simp: content_def)
    then show thesis by (intro that [of i0 "f_safe (inodes w0 i0)"]) simp_all
  qed
  have "valid_bytes_len (report_of C qs t) \<le> length x"
    using q(2) unfolding recover_exact [OF assms(1)] by (auto simp: report_of_def)
  from recovers_calm [OF assms(6) i0 q(2) this] obtain j w1 where "recover_from_file C path w0 = (Ok (j, report_of C qs t), w1)" by blast
  with log_of_decrypts [OF q(3)] q(4-6) show ?thesis by blast
qed

theorem acknowledged_records_survive_witness:
  "\<exists>acks w' j r w1 m. log_session toy (sample_mesh 1 5) wal_new sample_path [7] [([104], 50), ([104], 60)]
        (one_file sample_path [] [Works, Works, Works, Works, PowerCut 20]) = (acks, w')
    \<and> recover_from_file toy sample_path (power_back w') = (Ok (j, r), w1)
    \<and> decrypt_recovered_wal toy (sample_mesh 2 0) r [7] = Ok (take m [[104], [104]]) \<and> length acks \<le> m"
proof -
  obtain acks w' where s: "log_session toy (sample_mesh 1 5) wal_new sample_path [7] [([104], 50), ([104], 60)]
      (one_file sample_path [] [Works, Works, Works, Works, PowerCut 20]) = (acks, w')" by fastforce
  have c: "content (power_back w') sample_path \<in> survives cut_tear w' sample_path" using content_tears(2) by simp
  obtain j r w1 m where "recover_from_file toy sample_path (power_back w') = (Ok (j, r), w1)"
    "decrypt_recovered_wal toy (new_mesh toy sample_seed [] 2 0 1000) r [7] = Ok (take m (map fst [([104], 50 :: u64), ([104], 60)]))"
    "length acks \<le> m"
    using acknowledged_records_survive [OF toy_hash_lengths toy_aead_length toy_aead_roundtrip one_file_log s [unfolded sample_mesh_def] _ c]
    by (metis power_back_simps(1))
  then show ?thesis using s by (simp add: sample_mesh_def) blast
qed

end
