(* ===== verification/Secrets.thy ===== *)
theory Secrets
  imports Ffi Envelope Replay
begin

text \<open>
  What the crate shows in texts and what it leaves in memory: the hand-written \<open>Display\<close> and \<open>Debug\<close> of
  \<open>error.rs\<close>, \<open>seed.rs\<close> and \<open>modes/*.rs\<close>, the conversion of I/O errors, and the hand-written \<open>Drop\<close>s with
  \<open>cn_mesh_free\<close>. Texts are their UTF-8 bytes. \<open>zeroize\<close> is a third-party method and a parameter here, with the
  documented behaviour as a hypothesis; what \<open>#[derive(ZeroizeOnDrop)]\<close> generates is not in the
  repository and not modelled.
\<close>

section \<open>Error texts\<close>

definition a_acute :: string where "a_acute = [CHR 0xC3, CHR 0xA1]"
definition e_acute :: string where "e_acute = [CHR 0xC3, CHR 0xA9]"
definition i_acute :: string where "i_acute = [CHR 0xC3, CHR 0xAD]"
definition o_acute :: string where "o_acute = [CHR 0xC3, CHR 0xB3]"

fun error_display :: "error \<Rightarrow> string" where
  "error_display (Base64 e) = ''Error decodificando Base64: '' @ e"
| "error_display PaqueteCorrupto = ''Paquete o registro corrupto o demasiado corto''"
| "error_display (VersionNoSoportada version) = ''Versi'' @ o_acute @ ''n de formato no soportada: '' @ fmt_dec (unat version)"
| "error_display Autenticacion = ''Error de autenticaci'' @ o_acute @ ''n AEAD, clave incorrecta o paquete manipulado''"
| "error_display Utf8 = ''El texto descifrado no es UTF-8 v'' @ a_acute @ ''lido''"
| "error_display Cifrado = ''Error cr'' @ i_acute @ ''tico en el cifrado o l'' @ i_acute @ ''mite de secuencia alcanzado''"
| "error_display SemillaInvalida = ''La semilla debe contener 32 bytes de alta entrop'' @ i_acute @ ''a''"
| "error_display EnlaceInvalido = ''Formato de enlace Nugget inv'' @ a_acute @ ''lido o corrupto''"
| "error_display ModoInvalido = ''Modo de operaci'' @ o_acute @ ''n inv'' @ a_acute @ ''lido''"
| "error_display Repetido = ''Paquete repetido (Replay detectado)''"
| "error_display FueraDeOrden = ''Paquete fuera de la ventana aceptada''"
| "error_display EstadoSinReanudar = ''Estado importado sin confirmaci'' @ o_acute @ ''n expl'' @ i_acute @ ''cita de reanudaci'' @ o_acute @ ''n''"
| "error_display TiempoExpiradoOInvalido = ''El paquete est'' @ a_acute @ '' fuera de la ventana de tiempo permitida (TTL/Skew)''"
| "error_display AadDemasiadoLargo = ''Los metadatos AAD o bloque superan el l'' @ i_acute @ ''mite m'' @ a_acute @ ''ximo permitido''"
| "error_display IntegridadContextoCorrupta = ''Fallo en el SHA-256 de integraci'' @ o_acute @ ''n: se detectaron paquetes perdidos o corrupci'' @ o_acute @ ''n de cadena''"
| "error_display FfiParametroInvalido = ''Par'' @ a_acute @ ''metro FFI inv'' @ a_acute @ ''lido (puntero nulo o capacidad de buffer insuficiente)''"
| "error_display (Io e) = ''Error de entrada/salida (I/O) en almacenamiento: '' @ e"

definition error_from_io :: "string \<Rightarrow> error" where
  "error_from_io err = Io err"

text \<open>The text of an error identifies it, with its parameter.\<close>

lemma fmt_dec_inject: "fmt_dec m = fmt_dec n \<longleftrightarrow> m = n"
proof
  have last: "last (fmt_dec k) = char_of (48 + k mod 10)" for k
    by (subst fmt_dec.simps) simp
  have digit: "char_of (48 + a) = (char_of (48 + b) :: char) \<longleftrightarrow> a = b" if "a < 10" "b < 10" for a b :: nat
    using that arg_cong [of _ _ "of_char :: char \<Rightarrow> nat"] by (auto simp: of_char_of)
  have len: "fmt_dec k \<noteq> []" for k by (subst fmt_dec.simps) simp
  show "fmt_dec m = fmt_dec n \<Longrightarrow> m = n"
  proof (induction m arbitrary: n rule: less_induct)
    case (less m)
    have d: "m mod 10 = n mod 10" using last [of m] last [of n] less.prems digit by simp
    have b: "butlast (fmt_dec k) = (if k < 10 then [] else fmt_dec (k div 10))" for k
      by (subst fmt_dec.simps) simp
    have "m div 10 = n div 10"
    proof (cases "m < 10")
      case True
      then have "butlast (fmt_dec n) = []" using b [of m] less.prems by simp
      then have "n < 10" using b [of n] len [of "n div 10"] by (simp split: if_splits)
      with True show ?thesis by simp
    next
      case False
      then have "butlast (fmt_dec n) = fmt_dec (m div 10)" using b [of m] less.prems by simp
      then have "fmt_dec (m div 10) = fmt_dec (n div 10)"
        using b [of n] len [of "m div 10"] by (simp split: if_splits)
      moreover have "m div 10 < m" using False by simp
      ultimately show ?thesis using less.IH by blast
    qed
    with d show ?case by (metis div_mult_mod_eq)
  qed
qed simp

lemma error_display_inject: "error_display a = error_display b \<longleftrightarrow> a = b"
  by (cases a; cases b) (simp_all add: fmt_dec_inject word_unat_eq_iff a_acute_def e_acute_def i_acute_def o_acute_def)

section \<open>Debug texts\<close>

text \<open>\<open>f.debug_struct(name).field(..)..finish()\<close> in the form \<open>{:?}\<close>, and the values shown.\<close>

fun debug_fields :: "(string \<times> string) list \<Rightarrow> string" where
  "debug_fields [] = []"
| "debug_fields [(n, v)] = n @ '': '' @ v"
| "debug_fields ((n, v) # fs) = n @ '': '' @ v @ '', '' @ debug_fields fs"

definition debug_struct :: "string \<Rightarrow> (string \<times> string) list \<Rightarrow> string" where
  "debug_struct name fs = name @ '' { '' @ debug_fields fs @ '' }''"

definition redacted :: string where
  "redacted = CHR 0x22 # ''<redacted>'' @ [CHR 0x22]"

definition debug_word :: "'a::len word \<Rightarrow> string" where
  "debug_word x = fmt_dec (unat x)"

definition debug_bool :: "bool \<Rightarrow> string" where
  "debug_bool b = (if b then ''true'' else ''false'')"

fun debug_option :: "'a::len word option \<Rightarrow> string" where
  "debug_option None = ''None''"
| "debug_option (Some x) = ''Some('' @ debug_word x @ '')''"

definition seed_debug :: "master_seed \<Rightarrow> string" where
  "seed_debug s = debug_struct ''MasterSeed'' [(''bytes'', redacted)]"

definition nugget_debug :: "nugget \<Rightarrow> string" where
  "nugget_debug n = debug_struct ''CryptoNugget''
     [(''tx_key'', redacted), (''rx_key'', redacted), (''tx_seq'', debug_word (n_tx_seq n)), (''rx_seq'', debug_word (n_rx_seq n)),
      (''epoch'', debug_word (n_epoch n)), (''requires_resume_ack'', debug_bool (n_requires_resume_ack n))]"

definition envelope_debug :: "envelope \<Rightarrow> string" where
  "envelope_debug e = debug_struct ''StatelessEnvelope'' [(''root_key'', redacted)]"

definition replay_debug :: "replay_channel \<Rightarrow> string" where
  "replay_debug ch = debug_struct ''ReplayWindowChannel''
     [(''tx_key'', redacted), (''rx_key'', redacted), (''tx_seq'', debug_word (rw_tx_seq ch)),
      (''highest_seen'', debug_option (rw_highest_seen ch)), (''window'', debug_word (rw_window ch))]"

definition mesh_debug :: "mesh_node \<Rightarrow> string" where
  "mesh_debug n = debug_struct ''ChronoMeshNode''
     [(''mesh_root_key'', redacted), (''node_id'', debug_word (m_node_id n)), (''epoch'', debug_word (m_epoch n)),
      (''tx_seq'', debug_word (m_tx_seq n)), (''max_time_drift_ms'', debug_word (max_time_drift_ms n))]"

section \<open>Dropping a node and a handle\<close>

definition zeroizes :: "(bytes \<Rightarrow> bytes) \<Rightarrow> bool" where
  "zeroizes Z \<longleftrightarrow> (\<forall>bs. Z bs = replicate (length bs) 0)"

definition drop_mesh :: "(bytes \<Rightarrow> bytes) \<Rightarrow> mesh_node \<Rightarrow> mesh_node" where
  "drop_mesh Z n = n\<lparr>mesh_root_key := Z (mesh_root_key n), context_domain_hash := Z (context_domain_hash n),
     packet_prk := Z (packet_prk n)\<rparr>"

text \<open>A handle drops itself, then its fields.\<close>

definition drop_handle :: "(bytes \<Rightarrow> bytes) \<Rightarrow> handle \<Rightarrow> handle" where
  "drop_handle Z h = (let h1 = h\<lparr>h_wrap_key := Z (h_wrap_key h)\<rparr> in h1\<lparr>h_node := drop_mesh Z (h_node h1)\<rparr>)"

text \<open>\<open>cn_mesh_free\<close>: the handle is gone; what its memory held when it was given back.\<close>

definition cn_mesh_free :: "(bytes \<Rightarrow> bytes) \<Rightarrow> handle option \<Rightarrow> handle option" where
  "cn_mesh_free Z hp = map_option (drop_handle Z) hp"

text \<open>Two handles that differ in their secrets only leave the same memory.\<close>

definition same_but_keys :: "handle \<Rightarrow> handle \<Rightarrow> bool" where
  "same_but_keys h g \<longleftrightarrow> (\<exists>w rk ch pk. length w = length (h_wrap_key h) \<and> length rk = length (mesh_root_key (h_node h))
     \<and> length ch = length (context_domain_hash (h_node h)) \<and> length pk = length (packet_prk (h_node h))
     \<and> g = h\<lparr>h_wrap_key := w, h_node := (h_node h)\<lparr>mesh_root_key := rk, context_domain_hash := ch, packet_prk := pk\<rparr>\<rparr>)"

lemma freed_same: "zeroizes Z \<Longrightarrow> same_but_keys h g \<Longrightarrow> cn_mesh_free Z (Some h) = cn_mesh_free Z (Some g)"
  by (auto simp: zeroizes_def same_but_keys_def cn_mesh_free_def drop_handle_def drop_mesh_def)

text \<open>The sizes of the four secrets stay as they are under every call.\<close>

definition secrets_sized :: "handle \<Rightarrow> bool" where
  "secrets_sized h \<longleftrightarrow> length (h_wrap_key h) = 32 \<and> length (mesh_root_key (h_node h)) = 32
     \<and> length (context_domain_hash (h_node h)) = 32 \<and> length (packet_prk (h_node h)) = 32"

lemma root_key_kept:
  "mesh_root_key (snd (seal_realtime C n pt aad now)) = mesh_root_key n"
  "mesh_root_key (snd (open_realtime C n p aad now)) = mesh_root_key n"
  "mesh_root_key (snd (restore_checkpoint C n bs wrap)) = mesh_root_key n"
  subgoal using sealed_node_config [of n C]
    by (cases rule: seal_realtime_cases [where C = C and n = n and pt = pt and aad = aad and now = now])
      (auto simp: sealed_node_def fold_packet_into_integrity_hash_def fold_in_def Let_def)
  subgoal
    by (cases rule: open_realtime_cases [where C = C and n = n and p = p and aad = aad and now = now])
      (auto simp: fold_packet_into_integrity_hash_def accepted_node_def fold_in_def Let_def)
  subgoal by (auto simp: restore_checkpoint_def lock_rx_def Let_def split: outcome.splits)
  done

interpretation hsized: handle_invariant C secrets_sized for C
  using seal_kin open_kin restore_kin
  by unfold_locales (simp_all add: secrets_sized_def root_key_kept same_keys_def [symmetric], simp_all add: same_keys_def)

lemma new_secrets_sized:
  assumes "hash_lengths C" "cn_mesh_new C s sl ctx cl i e d = Some h"
  shows "secrets_sized h"
proof -
  obtain seed cx where "h = \<lparr>h_node = new_mesh C seed cx i e d,
      h_wrap_key = derive_wrap_key C seed cx, h_dual_slot = dual_new, h_wal = wal_new\<rparr>"
    using assms(2) by (auto simp: cn_mesh_new_def split: option.splits outcome.splits if_splits)
  then show ?thesis
    by (simp add: secrets_sized_def derive_wrap_key_def new_mesh_def Let_def hash_lengthsD [OF assms(1)])
qed

section \<open>Properties\<close>

text \<open>
  Keys are neither shown nor left behind. The \<open>Debug\<close> texts of a seed, of the three channels and of a
  node do not depend on their keys, nonce masks, transcript and context hashes; and once a handle is
  freed, after any calls, its memory has zeros where its four secrets were, so that handles which
  differ in these alone leave the same memory.
\<close>

theorem secrets_not_exposed:
  assumes "zeroizes Z" and "hash_lengths C" and "cn_mesh_new C s sl cp cl i e d = Some h0" and "ffi_run C calls (Some h0) = Some h"
  shows "seed_debug (a\<lparr>seed_bytes := k\<rparr>) = seed_debug a
    \<and> nugget_debug (b\<lparr>n_tx_key := k, n_rx_key := k', n_tx_transcript_hash := t, n_rx_transcript_hash := t'\<rparr>) = nugget_debug b
    \<and> envelope_debug (v\<lparr>e_root_key := k\<rparr>) = envelope_debug v
    \<and> replay_debug (ch\<lparr>rw_tx_key := k, rw_rx_key := k', rw_tx_nonce_mask := t, rw_rx_nonce_mask := t'\<rparr>) = replay_debug ch
    \<and> mesh_debug (n\<lparr>mesh_root_key := k, context_domain_hash := k', packet_prk := t\<rparr>) = mesh_debug n
    \<and> (\<exists>g. cn_mesh_free Z (Some h) = Some g \<and> h_wrap_key g = replicate 32 0 \<and> mesh_root_key (h_node g) = replicate 32 0
         \<and> context_domain_hash (h_node g) = replicate 32 0 \<and> packet_prk (h_node g) = replicate 32 0)
    \<and> (\<forall>h'. same_but_keys h h' \<longrightarrow> cn_mesh_free Z (Some h) = cn_mesh_free Z (Some h'))"
proof -
  have ok: "secrets_sized h" using hsized.run_keeps [of "Some h0" C calls] new_secrets_sized [OF assms(2,3)] assms(4) by simp
  have "\<exists>g. cn_mesh_free Z (Some h) = Some g \<and> h_wrap_key g = replicate 32 0 \<and> mesh_root_key (h_node g) = replicate 32 0
         \<and> context_domain_hash (h_node g) = replicate 32 0 \<and> packet_prk (h_node g) = replicate 32 0"
    using ok assms(1) by (simp add: cn_mesh_free_def drop_handle_def drop_mesh_def zeroizes_def secrets_sized_def)
  with freed_same [OF assms(1)] show ?thesis
    by (auto simp: seed_debug_def nugget_debug_def envelope_debug_def replay_debug_def mesh_debug_def)
qed

theorem secrets_not_exposed_witness:
  "\<exists>g. cn_mesh_free (\<lambda>bs. replicate (length bs) 0) (Some (sample_handle 1 5)) = Some g \<and> h_wrap_key g = replicate 32 0"
proof -
  have "zeroizes (\<lambda>bs. replicate (length bs) 0)" by (simp add: zeroizes_def)
  then have "\<exists>g. cn_mesh_free (\<lambda>bs. replicate (length bs) 0) (Some (sample_handle 1 5)) = Some g \<and> h_wrap_key g = replicate 32 0
      \<and> mesh_root_key (h_node g) = replicate 32 0 \<and> context_domain_hash (h_node g) = replicate 32 0
      \<and> packet_prk (h_node g) = replicate 32 0"
    using secrets_not_exposed [OF _ toy_hash_lengths sample_handle_new [of 1 5], where calls = "[]" and h = "sample_handle 1 5"]
    by (simp add: ffi_run_def)
  then show ?thesis by auto
qed

end
