(* ===== verification/Demo.thy ===== *)
theory Demo
  imports Checkpoint DualSlot Wal
begin

text \<open>
  The demonstration program \<open>examples/demo.rs\<close>: a node seals and checkpoints, the container on disk is cut, the
  node is restored from what is left, and a log with half a frame at its end is recovered. Every
  \<open>unwrap\<close> and \<open>assert\<close> that fails is a panic. The random bytes are arguments; the result holds what the
  program prints, as values. The last line of \<open>main\<close> only discards values, among them a freshly drawn seed.
\<close>

section \<open>The program\<close>

primrec unwrap :: "'a outcome \<Rightarrow> ('a \<Rightarrow> 'b outcome) \<Rightarrow> 'b outcome" where
  "unwrap (Ok x) f = f x"
| "unwrap (Err e) f = Panic"
| "unwrap Panic f = Panic"

definition unwrap_on :: "'a outcome \<times> 's \<Rightarrow> ('a \<Rightarrow> 's \<Rightarrow> 'b outcome) \<Rightarrow> 'b outcome" where
  "unwrap_on rs f = (case rs of (r, s) \<Rightarrow> unwrap r (\<lambda>x. f x s))"

lemma unwrap_on_simps [simp]: "unwrap_on (Ok x, s) f = f x s"
  by (simp add: unwrap_on_def)

definition bits_distintos :: "bytes \<Rightarrow> bytes \<Rightarrow> u32" where
  "bits_distintos a b = sum_list (map2 (\<lambda>x y. word_of_nat (length (filter (bit (x XOR y)) [0..<8]))) a b)"

record demo_state =
  d_seed :: master_seed
  d_sealed :: "packet list"
  d_bits :: u32
  d_gens :: "u64 list"
  d_rec_gen :: u64
  d_rebooted :: mesh_node

definition demo_context :: bytes where "demo_context = ascii ''ia-core:distributed-memory:v5''"

text \<open>Part 1: the state. The cut takes the last ten bytes of the container.\<close>

definition demo_dual_slot :: "crypto \<Rightarrow> bytes \<Rightarrow> bytes \<Rightarrow> bytes \<Rightarrow> bytes \<Rightarrow> bytes \<Rightarrow> demo_state outcome" where
  "demo_dual_slot C rnd export1 commit1 export2 commit2 =
     (let seed = generate rnd;
          wrap_key = derive_wrap_key C seed demo_context;
          node_back = new_mesh C seed demo_context 10 1 30000;
          now_ms = 1760443800000
      in unwrap_on (seal_realtime C node_back (ascii ''Estado memoria IA #1'') (ascii ''aad:1'') now_ms) (\<lambda>p1 node_back.
         unwrap_on (seal_realtime C node_back (ascii ''Estado memoria IA #2'') (ascii ''aad:2'') (now_ms + 5)) (\<lambda>p2 node_back.
         unwrap (export_checkpoint C export1 node_back wrap_key) (\<lambda>cp1.
         unwrap_on (commit_state C commit1 dual_new cp1 wrap_key) (\<lambda>gen1 dual_slot.
         unwrap_on (seal_realtime C node_back (ascii ''Mismo contexto IA'') (ascii ''aad'') now_ms) (\<lambda>muestra_a node_back.
         unwrap_on (seal_realtime C node_back (ascii ''Mismo contexto IA'') (ascii ''aad'') now_ms) (\<lambda>muestra_b node_back.
         unwrap_on (seal_realtime C node_back (ascii ''Estado memoria IA #3'') (ascii ''aad:3'') (now_ms + 10)) (\<lambda>p3 node_back.
         unwrap (export_checkpoint C export2 node_back wrap_key) (\<lambda>cp2.
         unwrap_on (commit_state C commit2 dual_slot cp2 wrap_key) (\<lambda>gen2 dual_slot.
         unwrap (dual_to_bytes dual_slot) (\<lambda>disk_bytes.
         if length disk_bytes < 10 then Panic else
         unwrap (dual_from_bytes (take (length disk_bytes - 10) disk_bytes)) (\<lambda>recovered_container.
         unwrap (recover_latest_valid C recovered_container wrap_key) (\<lambda>(rec_gen, rec_cp).
         if rec_gen \<noteq> gen1 then Panic else
         unwrap_on (restore_checkpoint C (new_mesh C seed demo_context 10 1 30000) rec_cp wrap_key) (\<lambda>_ rebooted_node.
           Ok \<lparr>d_seed = seed, d_sealed = [p1, p2, p3],
               d_bits = bits_distintos (p_ciphertext muestra_a) (p_ciphertext muestra_b),
               d_gens = [gen1, gen2], d_rec_gen = rec_gen, d_rebooted = rebooted_node\<rparr>))))))))))))))"

text \<open>
  Part 2: the log. Only half of the last frame reaches the disk. \<open>into_iter().flatten()\<close> on the result of
  \<open>decrypt_recovered_wal\<close> turns an error into no texts.
\<close>

definition demo_wal :: "crypto \<Rightarrow> mesh_node \<Rightarrow> packet \<Rightarrow> packet \<Rightarrow> packet \<Rightarrow> (wal_report \<times> bytes list) outcome" where
  "demo_wal C rebooted_node p1 p2 p3 =
     unwrap_on (encode_append_frame C wal_new p1) (\<lambda>frame1 wal.
     unwrap_on (encode_append_frame C wal p2) (\<lambda>frame2 wal.
     unwrap_on (encode_append_frame C wal p3) (\<lambda>frame3 wal.
     unwrap (recover_from_bytes C (frame1 @ frame2 @ take (length frame3 div 2) frame3)) (\<lambda>report.
       if length (r_packets report) \<noteq> 2 then Panic
       else if \<not> had_truncated_tail report then Panic
       else case decrypt_recovered_wal C rebooted_node report (ascii ''aad:1'') of
              Ok pts \<Rightarrow> Ok (report, pts) | Err _ \<Rightarrow> Ok (report, []) | Panic \<Rightarrow> Panic))))"

definition demo_main :: "crypto \<Rightarrow> bytes \<Rightarrow> bytes \<Rightarrow> bytes \<Rightarrow> bytes \<Rightarrow> bytes \<Rightarrow> (demo_state \<times> wal_report \<times> bytes list) outcome" where
  "demo_main C rnd export1 commit1 export2 commit2 =
     unwrap (demo_dual_slot C rnd export1 commit1 export2 commit2) (\<lambda>s.
     unwrap (demo_wal C (d_rebooted s) (d_sealed s ! 0) (d_sealed s ! 1) (d_sealed s ! 2)) (\<lambda>(report, plaintexts).
       Ok (s, report, plaintexts)))"

section \<open>Every call succeeds\<close>

text \<open>AES-256-GCM encrypts any message and associated data of less than 2^36 bytes under a key of 32 and a nonce of 12.\<close>

definition aead_accepts :: "crypto \<Rightarrow> bool" where
  "aead_accepts C \<longleftrightarrow> (\<forall>k n a m. length k = 32 \<and> length n = 12 \<and> length a < 2 ^ 36 \<and> length m < 2 ^ 36 - 31
     \<longrightarrow> aead_enc C k n a m \<noteq> None)"

lemma aead_acceptsD:
  "aead_accepts C \<Longrightarrow> length k = 32 \<Longrightarrow> length n = 12 \<Longrightarrow> length a < 2 ^ 36 \<Longrightarrow> length m < 2 ^ 36 - 31 \<Longrightarrow> \<exists>c. aead_enc C k n a m = Some c"
  unfolding aead_accepts_def by blast

lemma seal_accepted:
  assumes "aead_accepts C" "hash_lengths C" "m_tx_seq n \<noteq> - 1" "length (context_domain_hash n) = 32"
    "length pt < 2 ^ 32" "length aad < 2 ^ 32"
  obtains p where "seal_realtime C n pt aad now = (Ok p, sealed_node C n p)" "seal_at C n (m_epoch n) (m_tx_seq n) pt aad now = Ok p"
proof -
  obtain key nonce where d: "derive_packet_crypto C n (m_node_id n) (m_epoch n) (m_tx_seq n) now = (key, nonce)"
    "length key = 32" "length nonce = 12"
    by (cases "derive_packet_crypto C n (m_node_id n) (m_epoch n) (m_tx_seq n) now")
      (use assms(2) in \<open>auto simp: derive_packet_crypto_def Let_def hash_lengthsD NONCE_LEN_def\<close>)
  obtain ia where ia: "build_internal_aad_v3 (aad_flag aad) (m_node_id n) (m_epoch n) (m_tx_seq n) now (context_domain_hash n) aad = Ok ia"
    using build_aad_outcomes(2,4) assms(6) by (metis leD outcome.exhaust)
  then have "length ia < 2 ^ 36"
    using assms(4,6) by (auto simp: build_internal_aad_v3_def bindO_Ok_iff u32_try_from_Some)
  with aead_acceptsD [OF assms(1) d(2,3), of ia pt] assms(5) obtain ct where "aead_enc C key nonce ia pt = Some ct" by auto
  with d(1) ia assms(3) obtain p where p: "seal_at C n (m_epoch n) (m_tx_seq n) pt aad now = Ok p" unfolding seal_at_Ok_iff by blast
  moreover have "seal_realtime C n pt aad now = (Ok p, sealed_node C n p)"
    using p by (cases rule: seal_realtime_cases [where C = C and n = n and pt = pt and aad = aad and now = now]) auto
  ultimately show thesis by (rule that [rotated])
qed

lemma export_accepted:
  assumes "aead_accepts C" "aead_length C" "length rnd = 12" "length wrap = 32" "\<not> m_poisoned n" "length (context_domain_hash n) = 32"
    "length (multiset_integrity_hash (m_rx_state n)) = 32" "peers (m_rx_state n) = []"
  obtains cp where "export_checkpoint C rnd n wrap = Ok cp" "length cp = 89"
proof -
  let ?raw = "u32_to_be (m_node_id n) @ u64_to_be (m_epoch n) @ u64_to_be (m_tx_seq n)
    @ multiset_integrity_hash (m_rx_state n) @ u32_to_be 0"
  have "length (mesh_aad n) = 37" by (simp add: mesh_aad_def MESH_STATE_MAGIC_def assms(6))
  with aead_acceptsD [OF assms(1,4,3), of "mesh_aad n" ?raw] assms(7)
  obtain ct where ct: "aead_enc C wrap rnd (mesh_aad n) ?raw = Some ct" by auto
  with aead_lengthD [OF assms(2) ct] assms show thesis
    by (intro that [of "MESH_STATE_MAGIC @ [MESH_STATE_VERSION] @ rnd @ ct"])
      (simp_all add: export_checkpoint_def lock_rx_def Let_def u32_try_from_def MESH_STATE_MAGIC_def)
qed

lemma slot_accepted:
  assumes "aead_accepts C" "aead_length C" "length rnd = 12" "length wrap = 32" "length p < 2 ^ 32"
  obtains s where "seal_slot C rnd g p wrap = Ok s" "length s = 36 + length p"
proof -
  have "length (slot_aad g) < 2 ^ 36" by (simp add: slot_aad_def MAGIC_DUAL_def)
  with aead_acceptsD [OF assms(1,4,3), of "slot_aad g" p] assms(5) obtain ct where ct: "aead_enc C wrap rnd (slot_aad g) p = Some ct" by auto
  with aead_lengthD [OF assms(2) ct] assms(3) show thesis
    by (intro that [of "u64_to_be g @ rnd @ ct"]) (simp_all add: seal_slot_def)
qed

text \<open>Two commits, and the container cut inside slot B.\<close>

lemma cut_recovers_first:
  assumes "aead_roundtrip C" "aead_length C" "length r1 = 12" "seal_slot C r1 1 cp1 wrap = Ok s1" "seal_slot C r2 2 cp2 wrap = Ok s2"
    and "length s1 < 2 ^ 32" "length s2 < 2 ^ 32" "10 \<le> length s2"
  shows "\<exists>d1 d2 bs d. commit_state C r1 dual_new cp1 wrap = (Ok 1, d1) \<and> commit_state C r2 d1 cp2 wrap = (Ok 2, d2)
    \<and> dual_to_bytes d2 = Ok bs \<and> 10 \<le> length bs \<and> dual_from_bytes (take (length bs - 10) bs) = Ok d
    \<and> recover_latest_valid C d wrap = Ok (1, cp1)"
proof -
  let ?d1 = "dual_new\<lparr>slot_a := s1, generation_a := 1\<rparr>"
  let ?d2 = "?d1\<lparr>slot_b := s2, generation_b := 2\<rparr>"
  let ?bs = "dual_layout ?d2" and ?d = "?d2\<lparr>slot_b := []\<rparr>"
  have "commit_state C r1 dual_new cp1 wrap = (Ok 1, ?d1)" "commit_state C r2 ?d1 cp2 wrap = (Ok 2, ?d2)"
    using assms(4,5) by (simp_all add: commit_state_def checked_add_def dual_new_def)
  moreover have "dual_to_bytes ?d2 = Ok ?bs" "10 \<le> length ?bs" using assms(6,7) by (simp_all add: dual_to_bytes_Ok_iff length_dual_layout)
  moreover have "dual_from_bytes (take (length ?bs - 10) ?bs) = Ok ?d"
    using from_prefix [of ?d2 "length ?bs - 10"] assms(6-8) by (simp add: length_dual_layout)
  moreover have "recover_latest_valid C ?d wrap = Ok (1, cp1)"
  proof -
    have "holds C wrap s1 1 cp1" using sealed_holds [OF assms(1-3) _ assms(4)] by simp
    then have "first_valid C wrap [(s1, 1)] = Ok (1, cp1)" by (rule first_valid_hit)
    moreover have "\<not> (2 :: u64) \<le> 1" by (simp add: word_le_nat_alt)
    ultimately show ?thesis
      using first_valid_miss [of C wrap "[]" 2 "[(s1, 1)]"] by (simp add: recover_alt newest_def older_def holds_def)
  qed
  ultimately show ?thesis by blast
qed

text \<open>The node of the demonstration after \<open>k\<close> seals.\<close>

definition demo_node :: "crypto \<Rightarrow> bytes \<Rightarrow> mesh_node" where
  "demo_node C rnd = new_mesh C (generate rnd) demo_context 10 1 30000"

definition sealed_times :: "crypto \<Rightarrow> bytes \<Rightarrow> u64 \<Rightarrow> mesh_node \<Rightarrow> bool" where
  "sealed_times C rnd k n \<longleftrightarrow> same_config (demo_node C rnd) n \<and> m_tx_seq n = k \<and> m_epoch n = 1 \<and> \<not> m_poisoned n
     \<and> peers (m_rx_state n) = [] \<and> length (multiset_integrity_hash (m_rx_state n)) = 32"

lemma demo_node_new: "sealed_times C rnd 0 (demo_node C rnd)"
  by (simp add: sealed_times_def demo_node_def new_mesh_def Let_def same_config_def same_keys_def)

lemma demo_hash_length:
  assumes "hash_lengths C" "sealed_times C rnd k n"
  shows "length (context_domain_hash n) = 32"
proof -
  have "context_domain_hash n = context_domain_hash (demo_node C rnd)"
    using assms(2) by (auto simp: sealed_times_def same_config_def same_keys_def)
  then show ?thesis by (simp add: demo_node_def new_mesh_def Let_def hash_lengthsD [OF assms(1)])
qed

lemma demo_seals:
  assumes "aead_accepts C" "hash_lengths C" "sealed_times C rnd k n" "k \<noteq> - 1" "length pt < 2 ^ 32" "length aad < 2 ^ 32"
  obtains p n' where "seal_realtime C n pt aad now = (Ok p, n')" "sealed_times C rnd (k + 1) n'"
    "seal_at C (demo_node C rnd) 1 k pt aad now = Ok p"
proof -
  note s = assms(3) [unfolded sealed_times_def]
  have "m_tx_seq n \<noteq> - 1" using s assms(4) by simp
  from seal_accepted [OF assms(1,2) this demo_hash_length [OF assms(2,3)] assms(5,6), of now]
  obtain p where p: "seal_realtime C n pt aad now = (Ok p, sealed_node C n p)" "seal_at C n (m_epoch n) (m_tx_seq n) pt aad now = Ok p"
    by blast
  have "same_config (demo_node C rnd) (sealed_node C n p)"
    using s sealed_node_config [of n C p] by (auto simp: same_config_def same_keys_def)
  then have "sealed_times C rnd (k + 1) (sealed_node C n p)"
    using s by (simp add: sealed_times_def fold_packet_into_integrity_hash_def)
  moreover have "seal_at C (demo_node C rnd) 1 k pt aad now = Ok p"
    using p(2) s seal_at_config [of "demo_node C rnd" n C] by simp
  ultimately show thesis using that p(1) by blast
qed

lemma demo_part1:
  assumes "aead_accepts C" "aead_roundtrip C" "aead_length C" "hash_lengths C" "length e1 = 12" "length c1 = 12" "length e2 = 12" "length c2 = 12"
  obtains s p1 p2 p3 where "demo_dual_slot C rnd e1 c1 e2 c2 = Ok s" "d_sealed s = [p1, p2, p3]" "d_gens s = [1, 2]" "d_rec_gen s = 1"
    "current_epoch (d_rebooted s) = 2" "current_tx_seq (d_rebooted s) = 2" "same_keys (demo_node C rnd) (d_rebooted s)"
    "seal_at C (demo_node C rnd) 1 0 (ascii ''Estado memoria IA #1'') (ascii ''aad:1'') 1760443800000 = Ok p1"
    "seal_at C (demo_node C rnd) 1 1 (ascii ''Estado memoria IA #2'') (ascii ''aad:2'') 1760443800005 = Ok p2"
    "seal_at C (demo_node C rnd) 1 4 (ascii ''Estado memoria IA #3'') (ascii ''aad:3'') 1760443800010 = Ok p3"
proof -
  let ?m = "demo_node C rnd"
  define wrap where "wrap = derive_wrap_key C (generate rnd) demo_context"
  have w: "length wrap = 32" by (simp add: wrap_def derive_wrap_key_def hash_lengthsD [OF assms(4)])
  note seals = demo_seals [OF assms(1,4)]
  obtain p1 n1 where 1: "seal_realtime C ?m (ascii ''Estado memoria IA #1'') (ascii ''aad:1'') 1760443800000 = (Ok p1, n1)" "sealed_times C rnd 1 n1"
    "seal_at C ?m 1 0 (ascii ''Estado memoria IA #1'') (ascii ''aad:1'') 1760443800000 = Ok p1"
    by (rule seals [OF demo_node_new]) auto
  obtain p2 n2 where 2: "seal_realtime C n1 (ascii ''Estado memoria IA #2'') (ascii ''aad:2'') 1760443800005 = (Ok p2, n2)" "sealed_times C rnd 2 n2"
    "seal_at C ?m 1 1 (ascii ''Estado memoria IA #2'') (ascii ''aad:2'') 1760443800005 = Ok p2"
    by (rule seals [OF 1(2)]) auto
  obtain a n3 where 3: "seal_realtime C n2 (ascii ''Mismo contexto IA'') (ascii ''aad'') 1760443800000 = (Ok a, n3)" "sealed_times C rnd 3 n3"
    by (rule seals [OF 2(2)]) auto
  obtain b n4 where 4: "seal_realtime C n3 (ascii ''Mismo contexto IA'') (ascii ''aad'') 1760443800000 = (Ok b, n4)" "sealed_times C rnd 4 n4"
    by (rule seals [OF 3(2)]) auto
  obtain p3 n5 where 5: "seal_realtime C n4 (ascii ''Estado memoria IA #3'') (ascii ''aad:3'') 1760443800010 = (Ok p3, n5)" "sealed_times C rnd 5 n5"
    "seal_at C ?m 1 4 (ascii ''Estado memoria IA #3'') (ascii ''aad:3'') 1760443800010 = Ok p3"
    by (rule seals [OF 4(2)]) auto
  note x2 = 2(2) [unfolded sealed_times_def] and x5 = 5(2) [unfolded sealed_times_def]
  obtain cp1 where cp1: "export_checkpoint C e1 n2 wrap = Ok cp1" "length cp1 = 89"
    by (rule export_accepted [OF assms(1,3,5) w]) (use x2 demo_hash_length [OF assms(4) 2(2)] in auto)
  obtain cp2 where cp2: "export_checkpoint C e2 n5 wrap = Ok cp2" "length cp2 = 89"
    by (rule export_accepted [OF assms(1,3,7) w]) (use x5 demo_hash_length [OF assms(4) 5(2)] in auto)
  obtain s1 where s1: "seal_slot C c1 1 cp1 wrap = Ok s1" "length s1 = 36 + length cp1"
    using slot_accepted [OF assms(1,3,6) w, of cp1 1 thesis] cp1(2) by simp
  obtain s2 where s2: "seal_slot C c2 2 cp2 wrap = Ok s2" "length s2 = 36 + length cp2"
    using slot_accepted [OF assms(1,3,8) w, of cp2 2 thesis] cp2(2) by simp
  have small: "length s1 < 2 ^ 32" "length s2 < 2 ^ 32" "10 \<le> length s2" using s1(2) s2(2) cp1(2) cp2(2) by simp_all
  obtain d1 d2 bs d where d: "commit_state C c1 dual_new cp1 wrap = (Ok 1, d1)" "commit_state C c2 d1 cp2 wrap = (Ok 2, d2)"
    "dual_to_bytes d2 = Ok bs" "10 \<le> length bs" "dual_from_bytes (take (length bs - 10) bs) = Ok d"
    "recover_latest_valid C d wrap = Ok (1, cp1)"
    using cut_recovers_first [OF assms(2,3,6) s1(1) s2(1) small] by blast
  have ok: "node_ok n2" using x2 by (simp add: node_ok_def btree_ok_def)
  have keys: "same_keys n2 ?m" "m_node_id n2 = m_node_id ?m" using x2 by (auto simp: same_config_def same_keys_def)
  have m: "\<not> m_poisoned ?m" "m_epoch ?m = 1" using demo_node_new [of C rnd] by (simp_all add: sealed_times_def)
  have two: "max 1 (saturating_add 1 1) = (2 :: u64)" by (simp add: saturating_add_def max_def word_le_nat_alt)
  obtain g where g: "restore_checkpoint C ?m cp1 wrap = (Ok (), g)" "m_epoch g = 2" "m_tx_seq g = 2" "same_keys ?m g"
    using read_exported [OF assms(2,3,5) ok cp1(1) keys] m x2 two
    by (simp add: restore_checkpoint_def lock_rx_def Let_def same_keys_def)
  show thesis
    by (rule that [of "\<lparr>d_seed = generate rnd, d_sealed = [p1, p2, p3], d_bits = bits_distintos (p_ciphertext a) (p_ciphertext b),
        d_gens = [1, 2], d_rec_gen = 1, d_rebooted = g\<rparr>" p1 p2 p3])
      (use 1 2 3 4 5 cp1(1) cp2(1) d g in \<open>simp_all add: demo_dual_slot_def Let_def demo_node_def [symmetric]
        wrap_def [symmetric] current_epoch_def current_tx_seq_def not_less [symmetric]\<close>)
qed

lemma short_packet_loggable:
  assumes "hash_lengths C" "aead_length C" "seal_at C n e s pt aad now = Ok p" "length pt < 2 ^ 16"
  shows "loggable p" "fits p"
proof -
  note w = sealed_packet_loggable [OF assms(1-3)]
  obtain key nonce ia ct where "aead_enc C key nonce ia pt = Some ct" "p = v3_packet n aad e s now nonce ct"
    using assms(3) unfolding seal_at_Ok_iff by blast
  with aead_lengthD [OF assms(2), of key nonce ia pt ct] assms(4) have "length (p_ciphertext p) < 2 ^ 17" by (simp add: v3_packet_def)
  then have "length (to_bytes p) < 2 ^ 32" by (simp add: length_to_bytes [OF w(1)])
  with w show "loggable p" "fits p" by (simp_all add: loggable_def fits_def)
qed

lemma demo_part2:
  assumes "hash_lengths C" "aead_length C" "seal_at C n e1 s1 pt1 aad1 now1 = Ok p1" "seal_at C n e2 s2 pt2 aad2 now2 = Ok p2"
    and "seal_at C n e3 s3 pt3 aad3 now3 = Ok p3" "length pt1 < 2 ^ 16" "length pt2 < 2 ^ 16" "length pt3 < 2 ^ 16"
  shows "\<exists>report pts. demo_wal C b p1 p2 p3 = Ok (report, pts) \<and> r_packets report = [p1, p2] \<and> had_truncated_tail report
    \<and> (pts = [] \<or> (\<exists>x. open_persisted_record C b p2 (ascii ''aad:1'') = Ok x))"
proof -
  note l1 = short_packet_loggable [OF assms(1,2,3,6)] and l2 = short_packet_loggable [OF assms(1,2,4,7)]
    and l3 = short_packet_loggable [OF assms(1,2,5,8)]
  let ?h = "chain_head C wal_zero [p1, p2]"
  let ?f3 = "frame C ?h (to_bytes p3)"
  have h: "length ?h = 32" by (rule length_chain_head [OF assms(1) length_wal_zero])
  have half: "0 < length ?f3 div 2" "length ?f3 div 2 < length ?f3" unfolding length_frame [OF assms(1) h] by simp_all
  have "length (to_bytes p3) < 2 ^ 32" using l3(2) by (simp add: fits_def)
  from frame_cut_incomplete [OF assms(1) h this half] have tail: "incomplete (take (length ?f3 div 2) ?f3)" .
  then have ne: "take (length ?f3 div 2) ?f3 \<noteq> []" by (simp add: incomplete_def)
  have "\<forall>p \<in> set [p1, p2]. loggable p" using l1 l2 by simp
  from recover_frames [OF assms(1) this disjI2 [OF tail]] ne
  have rec: "recover_from_bytes C (frames C wal_zero [p1, p2] @ take (length ?f3 div 2) ?f3) = Ok (report_of C [p1, p2] True)" by simp
  have no_panic: "decrypt_recovered_wal C b (report_of C [p1, p2] True) (ascii ''aad:1'') \<noteq> Panic"
    by (simp add: decrypt_recovered_wal_def bindO_Panic_iff open_persisted_record_def decrypt_v3_not_Panic)
  have reads: "\<exists>x. open_persisted_record C b p2 (ascii ''aad:1'') = Ok x"
    if "decrypt_recovered_wal C b (report_of C [p1, p2] True) (ascii ''aad:1'') = Ok pts" for pts
    using that by (auto simp: decrypt_recovered_wal_def bindO_Ok_iff)
  have "demo_wal C b p1 p2 p3 = (case decrypt_recovered_wal C b (report_of C [p1, p2] True) (ascii ''aad:1'') of
      Ok pts \<Rightarrow> Ok (report_of C [p1, p2] True, pts) | Err _ \<Rightarrow> Ok (report_of C [p1, p2] True, []) | Panic \<Rightarrow> Panic)"
    using rec by (simp add: demo_wal_def encode_fits [OF l1(2)] encode_fits [OF l2(2)] encode_fits [OF l3(2)] wal_new_def)
  with no_panic reads show ?thesis
    by (cases "decrypt_recovered_wal C b (report_of C [p1, p2] True) (ascii ''aad:1'')") auto
qed

section \<open>Properties\<close>

text \<open>
  C29: the demonstration holds what it prints. With any random bytes, no \<open>unwrap\<close> and no assertion of the
  program fails: generation 1 is rescued from the container cut inside slot B, the node goes on in
  epoch 2 at sequence 2, the log recovers to the first two records with its tail reported, and the
  restored node opens both records under the associated data they were sealed with. But the texts
  the program collects are none, unless the second record opens under the data of the first.
\<close>

theorem demo_survives:
  assumes "aead_accepts C" and "aead_roundtrip C" and "aead_length C" and "hash_lengths C"
    and "length e1 = 12" and "length c1 = 12" and "length e2 = 12" and "length c2 = 12"
  shows "\<exists>s report plaintexts p1 p2 p3. demo_main C rnd e1 c1 e2 c2 = Ok (s, report, plaintexts)
    \<and> d_gens s = [1, 2] \<and> d_rec_gen s = 1 \<and> current_epoch (d_rebooted s) = 2 \<and> current_tx_seq (d_rebooted s) = 2
    \<and> d_sealed s = [p1, p2, p3] \<and> r_packets report = [p1, p2] \<and> had_truncated_tail report
    \<and> open_persisted_record C (d_rebooted s) p1 (ascii ''aad:1'') = Ok (ascii ''Estado memoria IA #1'')
    \<and> open_persisted_record C (d_rebooted s) p2 (ascii ''aad:2'') = Ok (ascii ''Estado memoria IA #2'')
    \<and> (plaintexts = [] \<or> (\<exists>x. open_persisted_record C (d_rebooted s) p2 (ascii ''aad:1'') = Ok x))"
proof -
  obtain s p1 p2 p3 where s: "demo_dual_slot C rnd e1 c1 e2 c2 = Ok s" "d_sealed s = [p1, p2, p3]" "d_gens s = [1, 2]" "d_rec_gen s = 1"
    "current_epoch (d_rebooted s) = 2" "current_tx_seq (d_rebooted s) = 2" "same_keys (demo_node C rnd) (d_rebooted s)"
    and at: "seal_at C (demo_node C rnd) 1 0 (ascii ''Estado memoria IA #1'') (ascii ''aad:1'') 1760443800000 = Ok p1"
    "seal_at C (demo_node C rnd) 1 1 (ascii ''Estado memoria IA #2'') (ascii ''aad:2'') 1760443800005 = Ok p2"
    "seal_at C (demo_node C rnd) 1 4 (ascii ''Estado memoria IA #3'') (ascii ''aad:3'') 1760443800010 = Ok p3"
    by (rule demo_part1 [OF assms]) blast
  obtain report pts where r: "demo_wal C (d_rebooted s) p1 p2 p3 = Ok (report, pts)" "r_packets report = [p1, p2]" "had_truncated_tail report"
    "pts = [] \<or> (\<exists>x. open_persisted_record C (d_rebooted s) p2 (ascii ''aad:1'') = Ok x)"
    using demo_part2 [OF assms(4,3) at, of "d_rebooted s"] by (auto simp: ascii_def)
  note opens = at(1,2) [THEN seal_at_opens [OF assms(2) s(7)]] at(1,2) [THEN seal_at_header]
  have "demo_main C rnd e1 c1 e2 c2 = Ok (s, report, pts)" using s(1,2) r(1) by (simp add: demo_main_def)
  with s(2-6) r(2-4) opens show ?thesis by (simp add: open_persisted_record_def WIRE_VERSION_V3_def)
qed

lemma toy_aead_accepts: "aead_accepts toy"
  by (simp add: aead_accepts_def toy_def toy_enc_def)

theorem demo_survives_witness:
  "\<exists>s report pts. demo_main toy (replicate 32 1) (replicate 12 2) (replicate 12 3) (replicate 12 4) (replicate 12 5) = Ok (s, report, pts)
     \<and> d_gens s = [1, 2] \<and> current_epoch (d_rebooted s) = 2 \<and> length (r_packets report) = 2"
  using demo_survives [OF toy_aead_accepts toy_aead_roundtrip toy_aead_length toy_hash_lengths length_replicate length_replicate
      length_replicate length_replicate, of "replicate 32 1" 2 3 4 5]
  by fastforce

text \<open>On the concrete instance the second record does not open under the data of the first.\<close>

lemma toy_other_aad:
  assumes "seal_at toy n 1 1 pt (ascii ''aad:2'') now = Ok p" "same_keys n g"
  shows "open_persisted_record toy g p (ascii ''aad:1'') \<noteq> Ok x"
proof
  assume o: "open_persisted_record toy g p (ascii ''aad:1'') = Ok x"
  obtain key nonce ia ct where s: "build_internal_aad_v3 1 (m_node_id n) 1 1 now (context_domain_hash n) (ascii ''aad:2'') = Ok ia"
    "derive_packet_crypto toy n (m_node_id n) 1 1 now = (key, nonce)" "aead_enc toy key nonce ia pt = Some ct"
    "p = v3_packet n (ascii ''aad:2'') 1 1 now nonce ct"
    using assms(1) by (auto simp: seal_at_Ok_iff aad_flag_def ascii_def)
  have k: "derive_packet_crypto toy g = derive_packet_crypto toy n" "context_domain_hash g = context_domain_hash n"
    using assms(2) derive_same_keys [of n g] by (simp_all add: same_keys_def)
  obtain ia1 where d: "build_internal_aad_v3 1 (m_node_id n) 1 1 now (context_domain_hash n) (ascii ''aad:1'') = Ok ia1"
    "aead_dec toy key nonce ia1 ct = Some x"
    using o s(2) by (auto simp: open_persisted_record_def decrypt_v3_def s(4) k bindO_Ok_iff v3_packet_def aad_flag_def ascii_def split: if_splits)
  have "aead_enc toy key nonce ia1 x = Some ct" using d(2) toy_aead_sound unfolding aead_sound_def by blast
  with s(3) have "5 * toy_sum ia1 = 5 * toy_sum ia" by (auto simp: toy_def toy_enc_def toy_tag_def)
  moreover obtain xs where "ia = xs @ [50]" "ia1 = xs @ [49]"
    using s(1) d(1) by (auto simp: build_internal_aad_v3_def bindO_Ok_iff ascii_def FLAG_AAD_PRESENT_def)
  ultimately show False by (simp add: toy_sum_def distrib_left)
qed

theorem demo_collects_nothing:
  "\<exists>s report. demo_main toy (replicate 32 1) (replicate 12 2) (replicate 12 3) (replicate 12 4) (replicate 12 5) = Ok (s, report, [])
     \<and> length (r_packets report) = 2"
proof -
  obtain s p1 p2 p3 where s: "demo_dual_slot toy (replicate 32 1) (replicate 12 2) (replicate 12 3) (replicate 12 4) (replicate 12 5) = Ok s"
    "d_sealed s = [p1, p2, p3]" "same_keys (demo_node toy (replicate 32 1)) (d_rebooted s)"
    and at: "seal_at toy (demo_node toy (replicate 32 1)) 1 0 (ascii ''Estado memoria IA #1'') (ascii ''aad:1'') 1760443800000 = Ok p1"
    "seal_at toy (demo_node toy (replicate 32 1)) 1 1 (ascii ''Estado memoria IA #2'') (ascii ''aad:2'') 1760443800005 = Ok p2"
    "seal_at toy (demo_node toy (replicate 32 1)) 1 4 (ascii ''Estado memoria IA #3'') (ascii ''aad:3'') 1760443800010 = Ok p3"
    by (rule demo_part1 [OF toy_aead_accepts toy_aead_roundtrip toy_aead_length toy_hash_lengths length_replicate length_replicate
        length_replicate length_replicate]) blast
  from demo_part2 [OF toy_hash_lengths toy_aead_length at, of "d_rebooted s"] toy_other_aad [OF at(2) s(3)] obtain report where
    "demo_wal toy (d_rebooted s) p1 p2 p3 = Ok (report, [])" "r_packets report = [p1, p2]"
    by (auto simp: ascii_def)
  with s(1,2) show ?thesis by (simp add: demo_main_def)
qed

end
