(* ===== verification/Spec2Isabelle.thy ===== *)
theory Spec2Isabelle
  imports Prelude Errors Primitives Packet Window StdText Seed Ordered Envelope Replay PeerMap Chrono Checkpoint Modes
    Snapshot DualSlot Wal Files Ffi Concurrency Locking Recovery Secrets Demo
begin

text \<open>
  CryptoNugget (crate \<open>cripto_endevs_comunity\<close>): a model of the crate's own logic with its
  correctness theorems. This theory only imports the others.

  \<^bold>\<open>The program.\<close> From a 32-byte master seed (\<open>seed.rs\<close>) and a context, the crate builds channels in four
  modes (\<open>modes/mod.rs\<close>): an ordered channel with a transcript hash on each side (\<open>modes/ordered.rs\<close>), a
  stateless envelope (\<open>modes/envelope.rs\<close>), a channel with an anti-replay window (\<open>modes/replay.rs\<close>) and a mesh
  node shared by threads (\<open>modes/chrono.rs\<close>). They exchange packets in three wire layouts (\<open>packet.rs\<close>).
  \<open>persistence.rs\<close> keeps state over power cuts: encrypted snapshots of an ordered channel, a container of two
  slots written in turn, and an append-only log chained by SHA-256. \<open>ffi.rs\<close> offers a mesh node with its
  container and log as a C library. \<open>examples/demo.rs\<close> runs these parts through a power cut.

  \<^bold>\<open>How the code is represented.\<close> A struct is a record with the fields of the source, \<open>u8\<close> to \<open>u128\<close> are words of
  their width and \<open>usize\<close> is \<open>nat\<close> where a length cannot overflow it. A method takes the record and
  returns its result and the record after it, changed or not. A \<open>Result\<close> is an \<open>outcome\<close>: \<open>Ok\<close>, \<open>Err\<close>, or \<open>Panic\<close>
  for an index out of range, a failed \<open>unwrap\<close> or a checked overflow, so that absence of panics is
  a theorem and not an assumption. Wrapping, saturating and checked arithmetic are written as in the
  source. Random bytes are arguments. AES-GCM, HKDF, SHA-256 and Base64 come from other crates: they are the
  record \<open>crypto\<close>, the first argument of every definition that uses them, and the hypotheses on it
  (\<open>aead_roundtrip\<close>, \<open>aead_length\<close>, \<open>aead_sound\<close>, \<open>aead_accepts\<close>, \<open>hash_lengths\<close>, \<open>b64_roundtrip\<close>) state documented
  behaviour; \<open>toy\<close> is a concrete instance on which each is proved and on which the witnesses run. No
  theorem assumes that a hash is injective or a cipher unforgeable: where the result is about hashes, the
  theorem assumes that no two of the finitely many strings hashed in the case collide.

  \<^bold>\<open>The theories.\<close>
    \<^item> \<open>Prelude\<close>, \<open>Errors\<close>, \<open>Primitives\<close>, \<open>StdText\<close>: words and big-endian bytes (locale \<open>be_codec\<close>, interpreted for 4, 8
      and 16 bytes), the error enum and its C codes (\<open>error.rs\<close>), outcomes, the crates, decimal and
      hexadecimal texts.
    \<^item> \<open>Packet\<close>: \<open>to_bytes\<close>, \<open>from_bytes\<close> and the associated data of each version. The parser accepts exactly the
      images of the printer on well-formed packets, errs in the two ways described, and never panics;
      the associated data of version 3 is injective.
    \<^item> \<open>Seed\<close>: construction, transfer token, derived keys.
    \<^item> \<open>Ordered\<close>: the channel. For two peers joined by queues, every reachable state delivers in order and
      agrees on the transcript; whatever is offered, the sequence numbers accepted are consecutive; a failed
      call changes nothing.
    \<^item> \<open>Snapshot\<close>: \<open>export_state\<close>, \<open>import_state\<close>, \<open>mark_resumed\<close> of \<open>persistence.rs\<close>.
    \<^item> \<open>Window\<close>: the specification of an anti-replay window by the set of the sequences seen, and the locale
      \<open>window_impl\<close> with the lemmas both implementations inherit; interpreted on \<open>ReplayWindowChannel\<close> in
      \<open>Replay\<close> and on \<open>PeerReplayState\<close> in \<open>Chrono\<close>.
    \<^item> \<open>Envelope\<close>, \<open>Replay\<close>, \<open>Modes\<close>: the envelope, the window channel, the builder.
    \<^item> \<open>PeerMap\<close>: \<open>BTreeMap\<close> as a sorted list (locale \<open>ordered_map\<close>, keys in class \<open>linorder\<close>).
    \<^item> \<open>Chrono\<close>, \<open>Checkpoint\<close>: the mesh node, one method a step. It refines a specification with one set of
      sequences per sender and epoch; its integrity hash depends on the multiset of packets only; a checkpoint
      restores the windows, so that nothing accepted before it is accepted again, and moves to a later epoch.
    \<^item> \<open>Concurrency\<close>: the calls of several threads on one node, one access to shared state, or one section
      under the lock, a step. Every interleaving of seals and opens equals some sequential order of the
      calls and repeats no identity. A restore or a checkpoint during a seal is not so harmless: the two
      race theorems.
    \<^item> \<open>Locking\<close>: the same calls with the lock of \<open>rx_state\<close>, which has at most one owner and blocks every
      other \<open>lock()\<close>, the owner's own included. Taking it, working under it and giving it back are separate
      steps. Every interleaving ends, none gets stuck, and it is one of \<open>Concurrency\<close> with the sections as
      single steps.
    \<^item> \<open>DualSlot\<close>: the container in memory and its layout. Recovery returns the last acknowledged payload,
      and the one before when the newest slot is damaged.
    \<^item> \<open>Wal\<close>: the log as bytes. The scan succeeds exactly on a chain of frames followed by nothing or a frame cut
      short; a cut log recovers its complete frames and can be continued.
    \<^item> \<open>Files\<close>: the calls of \<open>std::fs\<close> and what a failure or a power cut leaves; \<open>save_atomic\<close>, \<open>load_from_file\<close>,
      \<open>append_to_file\<close>, \<open>recover_from_file\<close> for every sequence of faults, by a small Hoare logic.
    \<^item> \<open>Ffi\<close>: the C ABI with null pointers, capacities and codes. Its calls refine the composition of the
      library calls (\<open>answer\<close>); the locale \<open>handle_invariant\<close> lifts what the methods of a node preserve to every
      sequence of calls.
    \<^item> \<open>Recovery\<close>: the composition. A node that saves checkpoints in a container on disk, and one that
      logs its records, cut at any point and restarted.
    \<^item> \<open>Secrets\<close>: error texts, redacted \<open>Debug\<close> texts, and what \<open>Drop\<close> and \<open>cn_mesh_free\<close> leave in memory.
    \<^item> \<open>Demo\<close>: the program \<open>examples/demo.rs\<close> with its assertions.

  \<^bold>\<open>Loops and bounds.\<close> No definition uses fuel. The scan of the log (\<open>wal_loop\<close>) terminates because a frame has at
  least 72 bytes, the other loops recurse on a list or a count. A concurrent
  call has at most eight accesses (\<open>accesses_left\<close>). Bounds in hypotheses are the widths of the code: lengths below 2^32 where the code
  writes a \<open>u32\<close>, up to 2^64 seals in an epoch because \<open>tx_seq\<close> wraps, results below 2^31 where the C ABI
  returns an \<open>i32\<close>.

  \<^bold>\<open>Assumptions of the environment.\<close> The disk: directory changes and bytes not synchronized may be lost, in
  any prefix of the changes; synchronized ones are not; a file not synchronized may hold other bytes
  (\<open>any_tear\<close>) or, for the log, a prefix of what was appended (\<open>cut_tear\<close>). Threads: loads, stores
  and \<open>fetch_add\<close> interleave but each is atomic, and the mutex has one owner and no fairness is needed; the orderings of the code (\<open>Acquire\<close>, \<open>Relaxed\<close>) could differ from this only in the order of
  the epoch and the counter, and the epoch changes only in a restore. C callers: pointers are null or
  valid for their length, and a handle is live until it is freed.

  \<^bold>\<open>What modelling showed\<close> is stated as theorems: a second restore from one checkpoint (by a node
  that boots in an epoch not above the one after it), or a restore during a seal, reuses identities
  (\<open>restore_twice_collides\<close>, \<open>restore_race_reuses_sequence\<close>); a checkpoint
  during a seal misses the packet (\<open>export_race_misses_packet\<close>); a container file cut inside slot A gives no state
  at all (\<open>dual_power_cut\<close>), one cut inside slot B keeps its generation, so that the next commit overwrites the
  survivor (\<open>dual_commit_overwrites_survivor\<close>); a frame encoded but not written breaks the log
  (\<open>wal_lost_frame_breaks_log\<close>), as does every restart of a C handle (\<open>ffi_restart_breaks_log\<close>) or a small buffer
  (\<open>ffi_small_buffer_breaks_log\<close>, \<open>ffi_small_buffer_loses_message\<close>); altered lengths hide the rest of a log
  (\<open>wal_length_flip_hides_rest\<close>); saves of bare names and new logs are not durable
  (\<open>save_bare_name_not_durable\<close>, \<open>new_log_not_durable\<close>, \<open>unexamined_log_is_lost\<close>); the demonstration collects no
  texts (\<open>demo_collects_nothing\<close>).

  \<^bold>\<open>Not modelled.\<close> The crates above and \<open>OsRng\<close>; the code the derive macros generate (\<open>ZeroizeOnDrop\<close>, derived
  \<open>Debug\<close>, \<open>Clone\<close>, \<open>PartialEq\<close>); zeroizing of temporaries, timing and capacity hints, which have no result;
  the pretty form \<open>{:#?}\<close> of \<open>Debug\<close>; \<open>lib.rs\<close>, which only declares and exports; the constant
  \<open>FLAG_INTEGRITY_HASH_BOUND\<close>, which nothing uses; the bindings in other languages under \<open>bindings\<close> and the tests
  under \<open>tests\<close>.
\<close>

end
